(* ===== verification/Prelude.thy ===== *)
theory Prelude
  imports Main "HOL-Library.Word" "HOL-Library.Multiset"
begin

text \<open>
  Shared vocabulary of the development: the machine types the C++ uses, the result type
  that stands for the ways a C++ call can end, the callbacks a component makes on its
  environment, and the generic lemmas on lists and words that several components use.

  Results. A call that returns is \<open>Inr v\<close>. A failed \<open>ASSERT\<close> or \<open>RELEASE_ASSERT\<close>
  aborts the process (\<open>build/build.sh\<close> runs \<open>cmake\<close> without a build type, so \<open>NDEBUG\<close> is
  not defined and \<open>ASSERT\<close> of \<open>common/Assert.h\<close> is \<open>::abort()\<close>); a thrown
  \<open>EnvoyException\<close> carries its message; a loop that never ends is \<open>Does_not_return\<close>.
\<close>

unbundle bit_operations_syntax

type_synonym byte = "8 word"
type_synonym u16 = "16 word"
type_synonym u32 = "32 word"
type_synonym u64 = "64 word"
type_synonym u128 = "128 word"

datatype error =
    Assert_failed
  | Release_assert_failed
  | Does_not_return
  | Envoy_exception string
  | Invalid_argument string
  | Out_of_range
  | Undefined_behaviour

type_synonym 'a result = "error + 'a"

definition res_bind :: "'a result \<Rightarrow> ('a \<Rightarrow> 'b result) \<Rightarrow> 'b result" where
  "res_bind m f = (case m of Inl e \<Rightarrow> Inl e | Inr x \<Rightarrow> f x)"

text \<open>\<open>ASSERT(c)\<close> and \<open>RELEASE_ASSERT(c, ...)\<close> before a continuation.\<close>

definition assert_then :: "bool \<Rightarrow> 'a result \<Rightarrow> 'a result" where
  "assert_then c m = (if c then m else Inl Assert_failed)"

definition release_assert_then :: "bool \<Rightarrow> 'a result \<Rightarrow> 'a result" where
  "release_assert_then c m = (if c then m else Inl Release_assert_failed)"

lemma res_bind_simps [simp]:
  "res_bind (Inl e) f = Inl e"
  "res_bind (Inr x) f = f x"
  by (simp_all add: res_bind_def)

lemma assert_then_simps [simp]:
  "assert_then True m = m"
  "assert_then False m = Inl Assert_failed"
  "release_assert_then True m = m"
  "release_assert_then False m = Inl Release_assert_failed"
  by (simp_all add: assert_then_def release_assert_then_def)

lemma res_bind_Inr_iff: "res_bind m f = Inr y \<longleftrightarrow> (\<exists>x. m = Inr x \<and> f x = Inr y)"
  by (cases m) auto

text \<open>Collections of rewrite rules the component theories fill.\<close>

named_theorems slice_simps "what the slice operations do to the fields and the bytes of a slice"
named_theorems deque_simps "what the deque operations do to the list a deque stands for"
named_theorems owned_simps "what the primitive buffer steps do to the slices, the length and the trace"

subsection \<open>Copying bytes into an array\<close>

definition blit :: "nat \<Rightarrow> 'a list \<Rightarrow> 'a list \<Rightarrow> 'a list" where
  "blit off xs mem = take off mem @ xs @ drop (off + length xs) mem"

lemma length_blit [simp]: "off + length xs \<le> length mem \<Longrightarrow> length (blit off xs mem) = length mem"
  by (simp add: blit_def)

lemma blit_Nil [simp]: "blit off [] mem = mem"
  by (simp add: blit_def)

lemma take_drop_blit_same:
  "off + length xs \<le> length mem \<Longrightarrow> take (length xs) (drop off (blit off xs mem)) = xs"
  by (simp add: blit_def)

lemma take_blit_before: "n \<le> off \<Longrightarrow> off \<le> length mem \<Longrightarrow> take n (blit off xs mem) = take n mem"
  by (simp add: blit_def)

lemma drop_blit_after:
  "off + length xs \<le> length mem \<Longrightarrow> off + length xs \<le> n \<Longrightarrow> drop n (blit off xs mem) = drop n mem"
  by (simp add: blit_def min_def)

lemma blit_append_view:
  assumes "d \<le> r" and "r + length xs \<le> length mem"
  shows "take (r + length xs - d) (drop d (blit r xs mem)) = take (r - d) (drop d mem) @ xs"
proof -
  have "drop d (blit r xs mem) = take (r - d) (drop d mem) @ xs @ drop (r + length xs) mem"
    using assms by (simp add: blit_def drop_take)
  moreover have "r + length xs - d = length (take (r - d) (drop d mem)) + length xs"
    using assms by (auto simp: min_def)
  ultimately show ?thesis by (simp only: take_append) simp
qed

lemma blit_prepend_view:
  assumes "d + length xs \<le> r" and "r \<le> length mem"
  shows "take (r - d) (drop d (blit d xs mem)) =
    xs @ take (r - (d + length xs)) (drop (d + length xs) mem)"
  using assms by (simp add: blit_def)

subsection \<open>Lists\<close>

lemma take_drop_extend:
  "a \<le> b \<Longrightarrow> take (b - a) (drop a xs) @ take k (drop b xs) = take (b + k - a) (drop a xs)"
proof -
  assume "a \<le> b"
  then have "drop b xs = drop (b - a) (drop a xs)" and "b + k - a = (b - a) + k" by simp_all
  then show ?thesis by (simp add: take_add)
qed

lemma concat_map_last_update:
  "xs \<noteq> [] \<Longrightarrow> concat (map f (butlast xs @ [y])) = concat (map f (butlast xs)) @ f y"
  by simp

lemma concat_map_butlast:
  "xs \<noteq> [] \<Longrightarrow> concat (map f xs) = concat (map f (butlast xs)) @ f (last xs)"
  by (cases xs rule: rev_cases) auto

lemma list_hd_tl_cases: "xs \<noteq> [] \<Longrightarrow> xs = hd xs # tl xs"
  by simp

lemma set_butlast_subset: "x \<in> set (butlast xs) \<Longrightarrow> x \<in> set xs"
  by (rule in_set_butlastD)

lemma set_tl_subset: "x \<in> set (tl xs) \<Longrightarrow> x \<in> set xs"
  by (cases xs) auto

lemma sum_list_map_concat: "sum_list (map (\<lambda>x. length (f x)) xs) = length (concat (map f xs))"
  by (induction xs) auto

subsection \<open>Words\<close>

lemma unat_le_of_nat: "n < 2 ^ 64 \<Longrightarrow> unat (word_of_nat n :: u64) = n"
  by (simp add: unat_of_nat take_bit_nat_eq_self)

lemma unat_less_two_power: "unat (w :: 'a::len word) < 2 ^ LENGTH('a)"
  by (fact unsigned_less)

lemma of_nat_diff_word:
  "m \<le> n \<Longrightarrow> (word_of_nat (n - m) :: 'a::len word) = word_of_nat n - word_of_nat m"
  by simp

end
