(* ===== verification/Slice.thy ===== *)
theory Slice
  imports Prelude
begin

text \<open>
  The class \<open>Slice\<close> of \<open>common/buffer/BufferImpl.h\<close>: a block of \<open>capacity_\<close> bytes, split by
  two offsets into a drained part, the data and the reservable tail. The bytes \<open>base_\<close> points
  at are the list \<open>s_base\<close>; \<open>storage_\<close> (null for a slice over an external fragment) is the flag
  \<open>s_storage\<close>. Offsets are \<open>nat\<close>: \<open>slice_wf\<close>, which every operation keeps, says that they stay
  within the block, so the unsigned subtractions of the source never wrap. \<open>sliceSize\<close>, whose
  argument a caller chooses, is on 64-bit words. Bytes fresh from \<open>new uint8_t[n]\<close> are
  indeterminate in C++; the model takes them to be 0.

  A drain tracker (a \<open>std::function\<close>) is a number naming the callback and an account
  (\<open>BufferMemoryAccountSharedPtr\<close>) a number naming the shared account. What the code calls on
  them is recorded as a list of \<open>buf_event\<close>, in call order.
\<close>

section \<open>State\<close>

type_synonym tracker = nat
type_synonym account = nat

datatype buf_event =
    Tracker_called tracker
  | Charge account nat
  | Credit account nat

record slice =
  s_capacity :: nat
  s_storage :: bool
  s_base :: "byte list"
  s_data :: nat
  s_reservable :: nat
  s_trackers :: "tracker list"
  s_account :: "account option"

record sized_storage =
  ss_mem :: "byte list option"
  ss_len :: nat

text \<open>Where a reservation points: nowhere, into the slice that made it, or into other memory.\<close>

datatype mem_ptr = Null_ptr | At_offset nat | Elsewhere

record raw_slice =
  rs_mem :: mem_ptr
  rs_len :: nat

section \<open>Sizes and constructors\<close>

definition page_size :: u64 where
  "page_size = 4096"

definition default_slice_size :: nat where
  "default_slice_size = 16384"

definition sliceSize :: "u64 \<Rightarrow> u64" where
  "sliceSize data_size =
     (let num_pages = (data_size + page_size - 1) div page_size in num_pages * page_size)"

definition new_bytes :: "nat \<Rightarrow> byte list" where
  "new_bytes n = replicate n 0"

definition newStorage :: "u64 \<Rightarrow> sized_storage" where
  "newStorage min_capacity =
     (let slice_size = unat (sliceSize min_capacity)
      in \<lparr>ss_mem = Some (new_bytes slice_size), ss_len = slice_size\<rparr>)"

text \<open>\<open>Slice() = default\<close>, which is also what a moved-from slice holds.\<close>

definition empty_slice :: slice where
  "empty_slice = \<lparr>s_capacity = 0, s_storage = False, s_base = [], s_data = 0,
     s_reservable = 0, s_trackers = [], s_account = None\<rparr>"

definition charge_events :: "account option \<Rightarrow> nat \<Rightarrow> buf_event list" where
  "charge_events acct n = (case acct of None \<Rightarrow> [] | Some a \<Rightarrow> [Charge a n])"

text \<open>\<open>Slice(min_capacity, account)\<close>\<close>

definition slice_new :: "u64 \<Rightarrow> account option \<Rightarrow> slice \<times> buf_event list" where
  "slice_new min_capacity acct =
     (let cap = unat (sliceSize min_capacity) in
      (\<lparr>s_capacity = cap, s_storage = True, s_base = new_bytes cap, s_data = 0,
        s_reservable = 0, s_trackers = [], s_account = acct\<rparr>, charge_events acct cap))"

text \<open>\<open>Slice(storage, used_size, account)\<close>\<close>

definition slice_of_storage :: "sized_storage \<Rightarrow> nat \<Rightarrow> account option \<Rightarrow> slice \<times> buf_event list" where
  "slice_of_storage st used_size acct =
     (\<lparr>s_capacity = ss_len st, s_storage = (ss_mem st \<noteq> None),
       s_base = (case ss_mem st of None \<Rightarrow> [] | Some m \<Rightarrow> m), s_data = 0,
       s_reservable = used_size, s_trackers = [], s_account = acct\<rparr>,
      charge_events acct (ss_len st))"

text \<open>\<open>Slice(fragment)\<close>: the fragment's \<open>done()\<close> is its first drain tracker.\<close>

definition slice_of_fragment :: "byte list \<Rightarrow> tracker \<Rightarrow> slice" where
  "slice_of_fragment fragment done =
     \<lparr>s_capacity = length fragment, s_storage = False, s_base = fragment, s_data = 0,
      s_reservable = length fragment, s_trackers = [done], s_account = None\<rparr>"

section \<open>Destruction, move assignment, drain trackers and accounts\<close>

definition release_events :: "slice \<Rightarrow> buf_event list" where
  "release_events s = map Tracker_called (s_trackers s) @
     (case s_account s of None \<Rightarrow> [] | Some a \<Rightarrow> [Credit a (s_capacity s)])"

definition callAndClearDrainTrackersAndCharges :: "slice \<Rightarrow> slice \<times> buf_event list" where
  "callAndClearDrainTrackersAndCharges s =
     (s\<lparr>s_trackers := [], s_account := None\<rparr>, release_events s)"

text \<open>\<open>lhs = std::move(rhs)\<close>: the new left and right values and the callbacks of the old left.\<close>

definition slice_move_assign :: "slice \<Rightarrow> slice \<Rightarrow> slice \<times> slice \<times> buf_event list" where
  "slice_move_assign lhs rhs = (rhs, empty_slice, release_events lhs)"

definition transferDrainTrackersTo :: "slice \<Rightarrow> slice \<Rightarrow> slice \<times> slice" where
  "transferDrainTrackersTo s destination =
     (s\<lparr>s_trackers := []\<rparr>,
      destination\<lparr>s_trackers := s_trackers destination @ s_trackers s\<rparr>)"

definition slice_addDrainTracker :: "tracker \<Rightarrow> slice \<Rightarrow> slice" where
  "slice_addDrainTracker t s = s\<lparr>s_trackers := s_trackers s @ [t]\<rparr>"

definition maybeChargeAccount :: "account option \<Rightarrow> slice \<Rightarrow> slice \<times> buf_event list" where
  "maybeChargeAccount acct s =
     (if s_account s \<noteq> None \<or> \<not> s_storage s \<or> acct = None then (s, [])
      else (s\<lparr>s_account := acct\<rparr>, charge_events acct (s_capacity s)))"

section \<open>Reading and writing the bytes\<close>

definition isMutable :: "slice \<Rightarrow> bool" where
  "isMutable s = s_storage s"

definition canCoalesce :: "slice \<Rightarrow> bool" where
  "canCoalesce s = s_storage s"

definition dataSize :: "slice \<Rightarrow> nat" where
  "dataSize s = s_reservable s - s_data s"

definition reservableSize :: "slice \<Rightarrow> nat" where
  "reservableSize s = s_capacity s - s_reservable s"

text \<open>The bytes from \<open>data()\<close> on, \<open>dataSize()\<close> of them.\<close>

definition slice_bytes :: "slice \<Rightarrow> byte list" where
  "slice_bytes s = take (dataSize s) (drop (s_data s) (s_base s))"

definition slice_drain :: "nat \<Rightarrow> slice \<Rightarrow> slice" where
  "slice_drain sz s =
     (let s1 = s\<lparr>s_data := s_data s + sz\<rparr>
      in if s_data s1 = s_reservable s1 then s1\<lparr>s_data := 0, s_reservable := 0\<rparr> else s1)"

definition slice_reserve :: "nat \<Rightarrow> slice \<Rightarrow> raw_slice" where
  "slice_reserve sz s =
     (if sz = 0 then \<lparr>rs_mem = Null_ptr, rs_len = 0\<rparr>
      else let available_size = s_capacity s - s_reservable s in
        if available_size = 0 then \<lparr>rs_mem = Null_ptr, rs_len = 0\<rparr>
        else \<lparr>rs_mem = At_offset (s_reservable s), rs_len = min sz available_size\<rparr>)"

text \<open>\<open>commit<true>\<close> (with the range check) and \<open>commit<false>\<close>.\<close>

definition slice_commit_safe :: "raw_slice \<Rightarrow> slice \<Rightarrow> bool \<times> slice" where
  "slice_commit_safe r s =
     (if rs_mem r \<noteq> At_offset (s_reservable s) \<or> s_reservable s + rs_len r > s_capacity s
         \<or> s_reservable s \<ge> s_capacity s
      then (False, s)
      else (True, s\<lparr>s_reservable := s_reservable s + rs_len r\<rparr>))"

definition slice_commit_unsafe :: "raw_slice \<Rightarrow> slice \<Rightarrow> bool \<times> slice" where
  "slice_commit_unsafe r s = (True, s\<lparr>s_reservable := s_reservable s + rs_len r\<rparr>)"

text \<open>The writes a caller makes through a reservation: \<open>memcpy(base_ + off, bytes, n)\<close>.\<close>

definition slice_write :: "nat \<Rightarrow> byte list \<Rightarrow> slice \<Rightarrow> slice" where
  "slice_write off bytes s = s\<lparr>s_base := blit off bytes (s_base s)\<rparr>"

definition slice_append :: "byte list \<Rightarrow> slice \<Rightarrow> nat \<times> slice" where
  "slice_append bytes s =
     (let copy_size = min (length bytes) (reservableSize s) in
      if copy_size = 0 then (0, s)
      else let dest = s_reservable s;
               s1 = s\<lparr>s_reservable := s_reservable s + copy_size\<rparr>
           in (copy_size, slice_write dest (take copy_size bytes) s1))"

definition slice_prepend :: "byte list \<Rightarrow> slice \<Rightarrow> nat \<times> slice" where
  "slice_prepend bytes s =
     (let sz = length bytes in
      if dataSize s = 0 then
        let copy_size = min sz (reservableSize s);
            s1 = s\<lparr>s_reservable := s_capacity s, s_data := s_capacity s - copy_size\<rparr>
        in (copy_size, slice_write (s_data s1) (drop (sz - copy_size) bytes) s1)
      else if s_data s = 0 then (0, s)
      else
        let copy_size = min sz (s_data s);
            s1 = s\<lparr>s_data := s_data s - copy_size\<rparr>
        in (copy_size, slice_write (s_data s1) (drop (sz - copy_size) bytes) s1))"

text \<open>\<open>describeSliceForTest\<close>\<close>

record slice_representation =
  sr_data :: nat
  sr_reservable :: nat
  sr_capacity :: nat

definition describeSliceForTest :: "slice \<Rightarrow> slice_representation" where
  "describeSliceForTest s =
     \<lparr>sr_data = dataSize s, sr_reservable = reservableSize s, sr_capacity = s_capacity s\<rparr>"

section \<open>Well-formed slices\<close>

text \<open>
  The offsets lie in the block; an empty data section sits at the start of the block (the
  assertion commented out in \<open>reserve\<close>); a slice over external memory has nothing reservable.
\<close>

definition slice_wf :: "slice \<Rightarrow> bool" where
  "slice_wf s \<longleftrightarrow> s_data s \<le> s_reservable s \<and> s_reservable s \<le> s_capacity s
     \<and> length (s_base s) = s_capacity s
     \<and> (s_data s = s_reservable s \<longrightarrow> s_data s = 0)
     \<and> (\<not> s_storage s \<longrightarrow> s_reservable s = s_capacity s)"

lemma slice_wfD:
  assumes "slice_wf s"
  shows "s_data s \<le> s_reservable s" "s_reservable s \<le> s_capacity s"
    "length (s_base s) = s_capacity s" "s_data s = s_reservable s \<Longrightarrow> s_data s = 0"
    "\<not> s_storage s \<Longrightarrow> s_reservable s = s_capacity s"
  using assms by (simp_all add: slice_wf_def)

lemma length_slice_bytes [slice_simps]: "slice_wf s \<Longrightarrow> length (slice_bytes s) = dataSize s"
  by (auto simp: slice_wf_def slice_bytes_def dataSize_def)

lemma slice_base_split:
  assumes "slice_wf s"
  shows "s_base s = take (s_data s) (s_base s) @ slice_bytes s @ drop (s_reservable s) (s_base s)"
proof -
  have "drop (s_data s) (s_base s) =
      take (dataSize s) (drop (s_data s) (s_base s)) @ drop (dataSize s) (drop (s_data s) (s_base s))"
    by (rule append_take_drop_id [symmetric])
  moreover have "drop (dataSize s) (drop (s_data s) (s_base s)) = drop (s_reservable s) (s_base s)"
    using assms by (simp add: slice_wf_def dataSize_def)
  ultimately show ?thesis
    unfolding slice_bytes_def by (metis append_take_drop_id)
qed

lemma slice_wf_empty_slice [simp]: "slice_wf empty_slice"
  by (simp add: slice_wf_def empty_slice_def)

lemma empty_slice_sel [simp]:
  "s_capacity empty_slice = 0" "s_storage empty_slice = False" "s_base empty_slice = []"
  "s_data empty_slice = 0" "s_reservable empty_slice = 0" "s_trackers empty_slice = []"
  "s_account empty_slice = None"
  by (simp_all add: empty_slice_def)

lemma release_events_empty_slice [simp]: "release_events empty_slice = []"
  by (simp add: release_events_def)

lemma slice_bytes_empty_iff: "slice_wf s \<Longrightarrow> slice_bytes s = [] \<longleftrightarrow> dataSize s = 0"
  using length_slice_bytes [of s] by (metis length_0_conv)

lemma immutable_reservableSize [slice_simps]:
  "slice_wf s \<Longrightarrow> \<not> s_storage s \<Longrightarrow> reservableSize s = 0"
  by (simp add: slice_wf_def reservableSize_def)

subsection \<open>sliceSize\<close>

text \<open>In \<open>nat\<close>: the next multiple of 4096, unless the rounding up leaves 64 bits.\<close>

lemma unat_sliceSize:
  "unat (sliceSize n) = (unat n + 4095) mod 2 ^ 64 div 4096 * 4096"
proof -
  have "n + page_size - 1 = n + 4095"
    by (simp add: page_size_def)
  moreover have "unat (n + 4095) = (unat n + 4095) mod 2 ^ 64"
    by (simp add: unat_word_ariths)
  ultimately have "unat (n + page_size - 1) = (unat n + 4095) mod 2 ^ 64"
    by (simp only:)
  moreover have "(unat n + 4095) mod 2 ^ 64 div 4096 * 4096 < 2 ^ 64"
    by (rule le_less_trans [OF div_times_less_eq_dividend]) simp
  ultimately show ?thesis
    by (simp add: sliceSize_def Let_def unat_word_ariths unat_div page_size_def)
qed

lemma unat_sliceSize_bounded:
  assumes "unat n \<le> 2 ^ 64 - 4096"
  shows "unat (sliceSize n) = (unat n + 4095) div 4096 * 4096"
proof -
  have "unat n + 4095 < 2 ^ 64" using assms by simp
  then have "(unat n + 4095) mod 2 ^ 64 = unat n + 4095" by (rule mod_less)
  then show ?thesis by (simp only: unat_sliceSize)
qed

lemma round_up_page: "m \<le> (m + 4095) div 4096 * (4096::nat)"
  using div_mult_mod_eq [of "m + 4095" 4096] mod_less_divisor [of 4096 "m + 4095"] by linarith

lemma sliceSize_ge: "unat n \<le> 2 ^ 64 - 4096 \<Longrightarrow> unat n \<le> unat (sliceSize n)"
  by (simp only: unat_sliceSize_bounded round_up_page)

lemma page_multiple: "4096 dvd m div 4096 * (4096::nat)"
  by simp

lemma sliceSize_page_multiple: "4096 dvd unat (sliceSize n)"
  by (simp only: unat_sliceSize page_multiple)

lemma sliceSize_wraps: "2 ^ 64 - 4096 < unat n \<Longrightarrow> sliceSize n = 0"
proof -
  assume "2 ^ 64 - 4096 < unat n"
  moreover have "unat n < 2 ^ 64" using unsigned_less [of n] by simp
  ultimately have "(unat n + 4095) mod 2 ^ 64 = unat n + 4095 - 2 ^ 64"
    and "unat n + 4095 - 2 ^ 64 < 4096"
    by (simp_all add: mod_if)
  then have "unat (sliceSize n) = 0" by (simp add: unat_sliceSize)
  then show ?thesis by (simp add: unat_eq_0)
qed

subsection \<open>What each operation does to the bytes\<close>

lemma slice_new_simps [slice_simps]:
  "slice_wf (fst (slice_new n acct))"
  "slice_bytes (fst (slice_new n acct)) = []"
  "s_storage (fst (slice_new n acct))"
  "s_data (fst (slice_new n acct)) = 0"
  "s_reservable (fst (slice_new n acct)) = 0"
  "s_capacity (fst (slice_new n acct)) = unat (sliceSize n)"
  "reservableSize (fst (slice_new n acct)) = unat (sliceSize n)"
  "dataSize (fst (slice_new n acct)) = 0"
  "s_trackers (fst (slice_new n acct)) = []"
  "s_account (fst (slice_new n acct)) = acct"
  "snd (slice_new n acct) = charge_events acct (unat (sliceSize n))"
  by (simp_all add: slice_new_def Let_def slice_wf_def slice_bytes_def dataSize_def
      reservableSize_def new_bytes_def)

lemma slice_of_fragment_simps [slice_simps]:
  "slice_wf (slice_of_fragment bs t)"
  "slice_bytes (slice_of_fragment bs t) = bs"
  "dataSize (slice_of_fragment bs t) = length bs"
  "s_trackers (slice_of_fragment bs t) = [t]"
  "s_account (slice_of_fragment bs t) = None"
  by (simp_all add: slice_of_fragment_def slice_wf_def slice_bytes_def dataSize_def)

lemma slice_drain_wf:
  "slice_wf s \<Longrightarrow> n \<le> dataSize s \<Longrightarrow> s_storage s \<or> n < dataSize s \<Longrightarrow> slice_wf (slice_drain n s)"
  by (auto simp: slice_drain_def slice_wf_def dataSize_def Let_def)

lemma slice_drain_bytes:
  assumes "slice_wf s" and "n \<le> dataSize s"
  shows "slice_bytes (slice_drain n s) = drop n (slice_bytes s)"
proof (cases "n = dataSize s")
  case True
  with assms have "s_data s + n = s_reservable s" by (auto simp: slice_wf_def dataSize_def)
  then have "slice_bytes (slice_drain n s) = []"
    by (simp add: slice_drain_def slice_bytes_def dataSize_def Let_def)
  with True assms show ?thesis by (simp add: length_slice_bytes)
next
  case False
  with assms have "s_data s + n \<noteq> s_reservable s" by (auto simp: slice_wf_def dataSize_def)
  then show ?thesis
    by (simp add: slice_drain_def slice_bytes_def dataSize_def Let_def drop_take ac_simps)
qed

lemma slice_drain_frame [slice_simps]:
  "s_capacity (slice_drain n s) = s_capacity s" "s_storage (slice_drain n s) = s_storage s"
  "s_base (slice_drain n s) = s_base s" "s_trackers (slice_drain n s) = s_trackers s"
  "s_account (slice_drain n s) = s_account s"
  by (simp_all add: slice_drain_def Let_def)

lemma fst_slice_append [slice_simps]:
  "fst (slice_append bs s) = min (length bs) (reservableSize s)"
  by (simp add: slice_append_def Let_def)

lemma slice_append_wf:
  assumes "slice_wf s"
  shows "slice_wf (snd (slice_append bs s))"
  using assms
  by (auto simp: slice_append_def slice_wf_def slice_write_def reservableSize_def Let_def)

lemma slice_append_bytes:
  assumes "slice_wf s"
  shows "slice_bytes (snd (slice_append bs s)) =
    slice_bytes s @ take (min (length bs) (reservableSize s)) bs"
proof (cases "min (length bs) (reservableSize s) = 0")
  case True
  then show ?thesis by (auto simp: slice_append_def Let_def)
next
  case False
  let ?k = "min (length bs) (reservableSize s)"
  have "s_data s \<le> s_reservable s" and "s_reservable s + length (take ?k bs) \<le> length (s_base s)"
    using assms by (auto simp: slice_wf_def reservableSize_def)
  from blit_append_view [OF this]
  show ?thesis using False assms
    by (simp add: slice_append_def slice_bytes_def dataSize_def slice_write_def Let_def
        slice_wf_def min.absorb2 del: take_drop)
qed

lemma slice_append_frame [slice_simps]:
  "s_capacity (snd (slice_append bs s)) = s_capacity s"
  "s_storage (snd (slice_append bs s)) = s_storage s"
  "s_trackers (snd (slice_append bs s)) = s_trackers s"
  "s_account (snd (slice_append bs s)) = s_account s"
  by (simp_all add: slice_append_def slice_write_def Let_def)

lemma slice_append_immutable:
  "slice_wf s \<Longrightarrow> \<not> s_storage s \<Longrightarrow> slice_append bs s = (0, s)"
  by (simp add: slice_append_def immutable_reservableSize Let_def)

definition prepend_room :: "slice \<Rightarrow> nat" where
  "prepend_room s = (if dataSize s = 0 then reservableSize s else s_data s)"

lemma fst_slice_prepend [slice_simps]:
  "fst (slice_prepend bs s) = min (length bs) (prepend_room s)"
  by (simp add: slice_prepend_def prepend_room_def Let_def)

lemma slice_prepend_wf:
  assumes "slice_wf s" and "bs \<noteq> []"
  shows "slice_wf (snd (slice_prepend bs s))"
proof -
  have "0 < length bs" using assms(2) by simp
  with assms(1) show ?thesis
    by (auto simp: slice_prepend_def slice_wf_def slice_write_def reservableSize_def dataSize_def
        Let_def min_def simp del: length_0_conv length_greater_0_conv)
qed

lemma slice_prepend_bytes:
  assumes "slice_wf s"
  shows "slice_bytes (snd (slice_prepend bs s)) =
    drop (length bs - min (length bs) (prepend_room s)) bs @ slice_bytes s"
proof (cases "dataSize s = 0")
  case True
  let ?k = "min (length bs) (reservableSize s)"
  let ?xs = "drop (length bs - ?k) bs"
  have d0: "s_data s = 0" "s_reservable s = 0"
    using True assms by (auto simp: slice_wf_def dataSize_def)
  have len: "length ?xs = ?k" by simp
  have "(s_capacity s - ?k) + length ?xs \<le> s_capacity s" and "s_capacity s \<le> length (s_base s)"
    using assms d0 len by (auto simp: slice_wf_def reservableSize_def min_def)
  from blit_prepend_view [OF this] have
    "slice_bytes (snd (slice_prepend bs s)) = ?xs"
    using True assms d0 len
    by (simp add: slice_prepend_def slice_bytes_def dataSize_def slice_write_def Let_def
        slice_wf_def reservableSize_def)
  then show ?thesis using True assms
    by (simp add: prepend_room_def slice_bytes_def)
next
  case False
  let ?k = "min (length bs) (s_data s)"
  let ?xs = "drop (length bs - ?k) bs"
  have len: "length ?xs = ?k" by simp
  have "(s_data s - ?k) + length ?xs \<le> s_reservable s" and "s_reservable s \<le> length (s_base s)"
    using assms len by (auto simp: slice_wf_def min_def)
  from blit_prepend_view [OF this] show ?thesis
    using False len assms
    by (simp add: slice_prepend_def slice_bytes_def dataSize_def slice_write_def Let_def
        slice_wf_def prepend_room_def)
qed

lemma slice_prepend_frame [slice_simps]:
  "s_capacity (snd (slice_prepend bs s)) = s_capacity s"
  "s_storage (snd (slice_prepend bs s)) = s_storage s"
  "s_trackers (snd (slice_prepend bs s)) = s_trackers s"
  "s_account (snd (slice_prepend bs s)) = s_account s"
  by (simp_all add: slice_prepend_def slice_write_def Let_def)

lemma rs_len_slice_reserve [slice_simps]: "rs_len (slice_reserve n s) = min n (reservableSize s)"
  by (simp add: slice_reserve_def reservableSize_def Let_def)

lemma rs_mem_slice_reserve:
  "0 < n \<Longrightarrow> 0 < reservableSize s \<Longrightarrow> rs_mem (slice_reserve n s) = At_offset (s_reservable s)"
  by (simp add: slice_reserve_def reservableSize_def Let_def)

end
