(* ===== verification/SliceDeque.thy ===== *)
theory SliceDeque
  imports Slice
begin

text \<open>
  The class \<open>SliceDeque\<close> of \<open>common/buffer/BufferImpl.h\<close>: a ring of slices that starts with
  eight inline slots and doubles when it is full. \<open>dq_ring\<close> is the array \<open>ring_\<close> points at
  (inline or external), \<open>dq_start\<close>, \<open>dq_size\<close> and \<open>dq_capacity\<close> its three counters. An operation
  that overwrites a slot runs the drain trackers and credits of the slice it overwrites; it
  returns those callbacks with the new deque.

  The theory proves that the ring is the sequence \<open>dq_list\<close> of its live slots: the interface
  \<open>sequence\<close> states what the buffer relies on, with the ring as its instance.
\<close>

section \<open>The ring\<close>

record deque =
  dq_ring :: "slice list"
  dq_start :: nat
  dq_size :: nat
  dq_capacity :: nat

definition InlineRingCapacity :: nat where
  "InlineRingCapacity = 8"

definition deque_new :: deque where
  "deque_new = \<lparr>dq_ring = replicate InlineRingCapacity empty_slice, dq_start = 0, dq_size = 0,
     dq_capacity = InlineRingCapacity\<rparr>"

definition internalIndex :: "deque \<Rightarrow> nat \<Rightarrow> nat" where
  "internalIndex d index =
     (let internal_index = dq_start d + index
      in if internal_index \<ge> dq_capacity d then internal_index - dq_capacity d else internal_index)"

text \<open>The copying loop of \<open>growRing\<close>: \<open>n\<close> slices still to move, from slot \<open>src\<close> to slot \<open>dst\<close>.\<close>

fun grow_copy :: "slice list \<Rightarrow> nat \<Rightarrow> nat \<Rightarrow> nat \<Rightarrow> nat \<Rightarrow> slice list \<Rightarrow> slice list" where
  "grow_copy ring cap 0 src dst new_ring = new_ring"
| "grow_copy ring cap (Suc n) src dst new_ring =
     grow_copy ring cap n (if src + 1 = cap then 0 else src + 1) (dst + 1)
       (new_ring[dst := ring ! src])"

definition growRing :: "deque \<Rightarrow> deque" where
  "growRing d =
     (if dq_size d < dq_capacity d then d
      else let new_capacity = dq_capacity d * 2;
               new_ring = grow_copy (dq_ring d) (dq_capacity d) (dq_size d) (dq_start d) 0
                 (replicate new_capacity empty_slice)
           in d\<lparr>dq_ring := new_ring, dq_start := 0, dq_capacity := new_capacity\<rparr>)"

definition emplace_back :: "slice \<Rightarrow> deque \<Rightarrow> deque \<times> buf_event list" where
  "emplace_back s d =
     (let d1 = growRing d; index = internalIndex d1 (dq_size d1)
      in (d1\<lparr>dq_ring := (dq_ring d1)[index := s], dq_size := dq_size d1 + 1\<rparr>,
          release_events (dq_ring d1 ! index)))"

definition emplace_front :: "slice \<Rightarrow> deque \<Rightarrow> deque \<times> buf_event list" where
  "emplace_front s d =
     (let d1 = growRing d;
          start = (if dq_start d1 = 0 then dq_capacity d1 - 1 else dq_start d1 - 1)
      in (d1\<lparr>dq_start := start, dq_ring := (dq_ring d1)[start := s], dq_size := dq_size d1 + 1\<rparr>,
          release_events (dq_ring d1 ! start)))"

definition dq_empty :: "deque \<Rightarrow> bool" where
  "dq_empty d = (dq_size d = 0)"

definition dq_front :: "deque \<Rightarrow> slice" where
  "dq_front d = dq_ring d ! dq_start d"

definition dq_back :: "deque \<Rightarrow> slice" where
  "dq_back d = dq_ring d ! internalIndex d (dq_size d - 1)"

definition dq_nth :: "deque \<Rightarrow> nat \<Rightarrow> slice" where
  "dq_nth d i = dq_ring d ! internalIndex d i"

text \<open>A change made through the reference \<open>slices_[i]\<close>, \<open>front()\<close> or \<open>back()\<close> returns.\<close>

definition dq_set_nth :: "nat \<Rightarrow> slice \<Rightarrow> deque \<Rightarrow> deque" where
  "dq_set_nth i s d = d\<lparr>dq_ring := (dq_ring d)[internalIndex d i := s]\<rparr>"

definition pop_front :: "deque \<Rightarrow> deque \<times> buf_event list" where
  "pop_front d =
     (if dq_size d = 0 then (d, [])
      else let d1 = d\<lparr>dq_ring := (dq_ring d)[dq_start d := empty_slice],
                 dq_size := dq_size d - 1, dq_start := dq_start d + 1\<rparr>;
               d2 = (if dq_start d1 = dq_capacity d1 then d1\<lparr>dq_start := 0\<rparr> else d1)
           in (d2, release_events (dq_front d)))"

definition pop_back :: "deque \<Rightarrow> deque \<times> buf_event list" where
  "pop_back d =
     (if dq_size d = 0 then (d, [])
      else (d\<lparr>dq_ring := (dq_ring d)[internalIndex d (dq_size d - 1) := empty_slice],
              dq_size := dq_size d - 1\<rparr>,
            release_events (dq_back d)))"

section \<open>The sequence a ring stands for\<close>

definition dq_list :: "deque \<Rightarrow> slice list" where
  "dq_list d = map (dq_nth d) [0..<dq_size d]"

text \<open>Slots outside the live range hold an empty slice, so that overwriting one calls nothing.\<close>

definition dq_wf :: "deque \<Rightarrow> bool" where
  "dq_wf d \<longleftrightarrow> dq_start d < dq_capacity d \<and> dq_size d \<le> dq_capacity d
     \<and> length (dq_ring d) = dq_capacity d
     \<and> (\<forall>i \<in> {dq_size d..<dq_capacity d}. dq_nth d i = empty_slice)"

text \<open>What a client of a double-ended sequence relies on.\<close>

locale sequence =
  fixes push_back :: "'a \<Rightarrow> 'q \<Rightarrow> 'q"
    and push_front :: "'a \<Rightarrow> 'q \<Rightarrow> 'q"
    and drop_front :: "'q \<Rightarrow> 'q"
    and drop_back :: "'q \<Rightarrow> 'q"
    and get :: "'q \<Rightarrow> nat \<Rightarrow> 'a"
    and put :: "nat \<Rightarrow> 'a \<Rightarrow> 'q \<Rightarrow> 'q"
    and count :: "'q \<Rightarrow> nat"
    and to_list :: "'q \<Rightarrow> 'a list"
    and inv :: "'q \<Rightarrow> bool"
  assumes to_list_push_back: "inv q \<Longrightarrow> to_list (push_back x q) = to_list q @ [x]"
    and to_list_push_front: "inv q \<Longrightarrow> to_list (push_front x q) = x # to_list q"
    and to_list_drop_front: "inv q \<Longrightarrow> to_list (drop_front q) = tl (to_list q)"
    and to_list_drop_back: "inv q \<Longrightarrow> to_list (drop_back q) = butlast (to_list q)"
    and get: "inv q \<Longrightarrow> i < count q \<Longrightarrow> get q i = to_list q ! i"
    and to_list_put: "inv q \<Longrightarrow> i < count q \<Longrightarrow> to_list (put i x q) = (to_list q)[i := x]"
    and count: "count q = length (to_list q)"
    and inv_push_back: "inv q \<Longrightarrow> inv (push_back x q)"
    and inv_push_front: "inv q \<Longrightarrow> inv (push_front x q)"
    and inv_drop_front: "inv q \<Longrightarrow> inv (drop_front q)"
    and inv_drop_back: "inv q \<Longrightarrow> inv (drop_back q)"
    and inv_put: "inv q \<Longrightarrow> i < count q \<Longrightarrow> inv (put i x q)"
begin

lemma empty_iff: "count q = 0 \<longleftrightarrow> to_list q = []"
  by (simp add: count)

lemma first: "inv q \<Longrightarrow> to_list q \<noteq> [] \<Longrightarrow> get q 0 = hd (to_list q)"
  by (simp add: get count hd_conv_nth)

lemma final: "inv q \<Longrightarrow> to_list q \<noteq> [] \<Longrightarrow> get q (count q - 1) = last (to_list q)"
  by (simp add: get count last_conv_nth)

lemma put_first: "inv q \<Longrightarrow> to_list q \<noteq> [] \<Longrightarrow> to_list (put 0 x q) = x # tl (to_list q)"
  by (cases "to_list q") (simp_all add: to_list_put count)

lemma put_final:
  "inv q \<Longrightarrow> to_list q \<noteq> [] \<Longrightarrow> to_list (put (count q - 1) x q) = butlast (to_list q) @ [x]"
  by (cases "to_list q" rule: rev_cases) (simp_all add: to_list_put count)

lemma push_back_all: "inv q \<Longrightarrow> inv (fold push_back xs q) \<and> to_list (fold push_back xs q) = to_list q @ xs"
  by (induction xs arbitrary: q) (simp_all add: inv_push_back to_list_push_back)

lemma drop_front_n: "inv q \<Longrightarrow> inv ((drop_front ^^ n) q) \<and> to_list ((drop_front ^^ n) q) = drop n (to_list q)"
  by (induction n) (simp_all add: inv_drop_front to_list_drop_front drop_Suc tl_drop)

end

section \<open>The ring is such a sequence\<close>

lemma internalIndex_update [simp]:
  "internalIndex (d\<lparr>dq_ring := r\<rparr>) = internalIndex d"
  "internalIndex (d\<lparr>dq_size := n\<rparr>) = internalIndex d"
  by (simp_all add: internalIndex_def fun_eq_iff Let_def)

lemma internalIndex_0 [simp]: "dq_start d < dq_capacity d \<Longrightarrow> internalIndex d 0 = dq_start d"
  by (simp add: internalIndex_def)

lemma internalIndex_less:
  "dq_start d < dq_capacity d \<Longrightarrow> i \<le> dq_capacity d \<Longrightarrow> internalIndex d i < dq_capacity d"
  by (auto simp: internalIndex_def Let_def)

lemma internalIndex_inj:
  "dq_start d < dq_capacity d \<Longrightarrow> i < dq_capacity d \<Longrightarrow> j < dq_capacity d \<Longrightarrow>
   internalIndex d i = internalIndex d j \<longleftrightarrow> i = j"
  by (auto simp: internalIndex_def Let_def split: if_splits)

lemma dq_nth_set:
  assumes "dq_start d < dq_capacity d" "length (dq_ring d) = dq_capacity d"
    and "i < dq_capacity d" "j < dq_capacity d"
  shows "(dq_ring d)[internalIndex d i := s] ! internalIndex d j = (if i = j then s else dq_nth d j)"
  using assms by (auto simp: nth_list_update internalIndex_less internalIndex_inj dq_nth_def)

lemma length_dq_list [simp]: "length (dq_list d) = dq_size d"
  by (simp add: dq_list_def)

lemma dq_wfD:
  assumes "dq_wf d"
  shows "dq_start d < dq_capacity d" "dq_size d \<le> dq_capacity d"
    "length (dq_ring d) = dq_capacity d"
    "dq_size d \<le> i \<Longrightarrow> i < dq_capacity d \<Longrightarrow> dq_nth d i = empty_slice"
  using assms by (simp_all add: dq_wf_def)

lemma dq_wf_deque_new [simp]: "dq_wf deque_new"
  by (auto simp: dq_wf_def deque_new_def InlineRingCapacity_def dq_nth_def internalIndex_def Let_def)

lemma dq_list_deque_new [simp]: "dq_list deque_new = []"
  by (simp add: dq_list_def deque_new_def)

subsection \<open>Growing\<close>

lemma grow_copy_eq:
  assumes "src < cap" "n \<le> cap" "dst + n \<le> length new_ring"
  shows "grow_copy ring cap n src dst new_ring =
    take dst new_ring @
    map (\<lambda>i. ring ! (if src + i \<ge> cap then src + i - cap else src + i)) [0..<n] @
    drop (dst + n) new_ring"
  using assms
proof (induction n arbitrary: src dst new_ring)
  case 0
  then show ?case by simp
next
  case (Suc n)
  let ?src = "if src + 1 = cap then 0 else src + 1"
  let ?f = "\<lambda>i. ring ! (if src + i \<ge> cap then src + i - cap else src + i)"
  have map_shift: "map (\<lambda>i. ring ! (if ?src + i \<ge> cap then ?src + i - cap else ?src + i)) [0..<n]
      = map (\<lambda>i. ?f (Suc i)) [0..<n]"
    using Suc.prems by (auto intro!: map_cong)
  have take_upd: "take (Suc dst) (new_ring[dst := ring ! src]) = take dst new_ring @ [ring ! src]"
    using Suc.prems by (simp add: take_Suc_conv_app_nth)
  have "map ?f [0..<Suc n] = ?f 0 # map (\<lambda>i. ?f (Suc i)) [0..<n]"
    by (simp only: map_upt_Suc)
  moreover have "?f 0 = ring ! src" using Suc.prems by simp
  moreover have "grow_copy ring cap (Suc n) src dst new_ring =
      take (Suc dst) (new_ring[dst := ring ! src]) @ map (\<lambda>i. ?f (Suc i)) [0..<n] @
      drop (Suc dst + n) (new_ring[dst := ring ! src])"
    using Suc.prems by (simp only: grow_copy.simps map_shift [symmetric] Suc_eq_plus1 [symmetric])
      (subst Suc.IH; simp)
  ultimately show ?case
    using Suc.prems by (simp only: take_upd) simp
qed

lemma growRing_wf:
  assumes "dq_wf d"
  shows "dq_wf (growRing d)" "dq_list (growRing d) = dq_list d"
    "dq_size (growRing d) = dq_size d" "dq_size (growRing d) < dq_capacity (growRing d)"
proof -
  note wf = dq_wfD [OF assms]
  have full: "dq_wf (growRing d) \<and> dq_list (growRing d) = dq_list d \<and>
      dq_size (growRing d) = dq_size d \<and> dq_size (growRing d) < dq_capacity (growRing d)"
  proof (cases "dq_size d < dq_capacity d")
    case True
    then show ?thesis using assms by (simp add: growRing_def)
  next
    case False
    with wf have sz: "dq_size d = dq_capacity d" by simp
    let ?c = "dq_capacity d"
    have ring: "dq_ring (growRing d) = dq_list d @ replicate ?c empty_slice"
      using wf(1) sz by (simp add: growRing_def Let_def grow_copy_eq dq_list_def dq_nth_def
          [abs_def] internalIndex_def [abs_def])
    have sel: "dq_start (growRing d) = 0" "dq_size (growRing d) = ?c" "dq_capacity (growRing d) = 2 * ?c"
      using sz by (simp_all add: growRing_def Let_def)
    have idx: "i < 2 * ?c \<Longrightarrow> internalIndex (growRing d) i = i" for i
      by (simp add: internalIndex_def sel)
    have nth: "i < 2 * ?c \<Longrightarrow> dq_nth (growRing d) i = (dq_list d @ replicate ?c empty_slice) ! i" for i
      by (simp add: dq_nth_def idx ring)
    have "dq_list (growRing d) = dq_list d"
      unfolding dq_list_def [of "growRing d"] using sz
      by (intro nth_equalityI) (simp_all add: sel nth nth_append)
    moreover have "dq_wf (growRing d)"
      using wf(1) sz by (auto simp: dq_wf_def sel ring nth nth_append)
    ultimately show ?thesis using wf(1) sz sel by simp
  qed
  then show "dq_wf (growRing d)" "dq_list (growRing d) = dq_list d"
    "dq_size (growRing d) = dq_size d" "dq_size (growRing d) < dq_capacity (growRing d)"
    by blast+
qed

subsection \<open>The four ends\<close>

lemma emplace_back_wf:
  assumes "dq_wf d"
  shows "dq_wf (fst (emplace_back s d)) \<and> dq_list (fst (emplace_back s d)) = dq_list d @ [s]
    \<and> snd (emplace_back s d) = []"
proof -
  let ?d = "growRing d"
  note g = growRing_wf [OF assms] note wf = dq_wfD [OF g(1)]
  have nth: "j < dq_capacity ?d \<Longrightarrow> dq_nth (fst (emplace_back s d)) j =
      (if dq_size ?d = j then s else dq_nth ?d j)" for j
    using dq_nth_set [OF wf(1,3) g(4), of j s]
    by (simp add: emplace_back_def Let_def dq_nth_def)
  have sz: "dq_size (fst (emplace_back s d)) = Suc (dq_size ?d)"
    by (simp add: emplace_back_def Let_def)
  have "dq_list (fst (emplace_back s d)) = dq_list ?d @ [s]"
    unfolding dq_list_def sz using g(4) nth by auto
  moreover have "dq_wf (fst (emplace_back s d))"
    using wf g(4) nth by (auto simp: dq_wf_def emplace_back_def Let_def)
  moreover have "snd (emplace_back s d) = []"
    using wf(4) [of "dq_size ?d"] g(4) by (simp add: emplace_back_def Let_def dq_nth_def)
  ultimately show ?thesis using g(2) by simp
qed

lemma emplace_front_wf:
  assumes "dq_wf d"
  shows "dq_wf (fst (emplace_front s d)) \<and> dq_list (fst (emplace_front s d)) = s # dq_list d
    \<and> snd (emplace_front s d) = []"
proof -
  let ?d = "growRing d" let ?e = "fst (emplace_front s d)"
  note g = growRing_wf [OF assms] note wf = dq_wfD [OF g(1)]
  let ?c = "dq_capacity ?d"
  have start: "dq_start ?e = internalIndex ?d (?c - 1)" "dq_capacity ?e = ?c"
    "dq_size ?e = Suc (dq_size ?d)" "dq_ring ?e = (dq_ring ?d)[internalIndex ?d (?c - 1) := s]"
    using wf(1) by (auto simp: emplace_front_def Let_def internalIndex_def)
  have less: "dq_start ?e < dq_capacity ?e"
    using start wf(1) internalIndex_less by simp
  have shift: "i < ?c \<Longrightarrow> internalIndex ?e (Suc i) = internalIndex ?d i" for i
    using wf(1) by (auto simp: emplace_front_def Let_def internalIndex_def)
  have nth: "Suc i < ?c \<Longrightarrow> dq_nth ?e (Suc i) = dq_nth ?d i" for i
    using dq_nth_set [OF wf(1,3), of "?c - 1" i s] by (simp add: dq_nth_def shift start)
  have nth0: "dq_nth ?e 0 = s"
    using less wf(3) by (simp add: dq_nth_def start)
  have "dq_list ?e = s # dq_list ?d"
    unfolding dq_list_def start(3) using g(4) nth nth0 by (simp only: map_upt_Suc) (auto intro!: map_cong)
  moreover have "dq_wf ?e"
    unfolding dq_wf_def
  proof (intro conjI ballI)
    fix i assume "i \<in> {dq_size ?e..<dq_capacity ?e}"
    then obtain k where "i = Suc k" "dq_size ?d \<le> k" "Suc k < ?c"
      using start by (cases i) auto
    then show "dq_nth ?e i = empty_slice" using nth wf(4) by simp
  qed (use less start g(4) wf(3) in simp_all)
  moreover have "snd (emplace_front s d) = []"
    using wf(4) [of "?c - 1"] wf(1) g(4) start(1)
    by (simp add: emplace_front_def Let_def dq_nth_def)
  ultimately show ?thesis using g(2) by simp
qed

lemma pop_front_wf:
  assumes "dq_wf d"
  shows "dq_wf (fst (pop_front d)) \<and> dq_list (fst (pop_front d)) = tl (dq_list d)
    \<and> snd (pop_front d) = (if dq_list d = [] then [] else release_events (hd (dq_list d)))"
proof (cases "dq_size d")
  case 0
  then show ?thesis using assms by (simp add: pop_front_def dq_list_def)
next
  case (Suc n)
  note wf = dq_wfD [OF assms]
  let ?e = "fst (pop_front d)" let ?c = "dq_capacity d"
  have sel: "dq_size ?e = n" "dq_capacity ?e = ?c" "dq_start ?e < ?c"
    "dq_ring ?e = (dq_ring d)[internalIndex d 0 := empty_slice]"
    using Suc wf(1) by (auto simp: pop_front_def Let_def)
  have shift: "i < ?c \<Longrightarrow> internalIndex ?e i = internalIndex d (Suc i)" for i
    using Suc wf(1) by (auto simp: pop_front_def Let_def internalIndex_def)
  have nth: "Suc i < ?c \<Longrightarrow> dq_nth ?e i = dq_nth d (Suc i)" for i
    using dq_nth_set [OF wf(1,3), of 0 "Suc i" empty_slice] wf(1) by (simp add: dq_nth_def shift sel)
  have nth_last: "dq_nth ?e (?c - 1) = empty_slice"
  proof -
    have "internalIndex d ?c = internalIndex d 0" using wf(1) by (simp add: internalIndex_def)
    then show ?thesis using wf(1,3) by (simp add: dq_nth_def shift sel)
  qed
  have list: "dq_list d = dq_nth d 0 # map (\<lambda>i. dq_nth d (Suc i)) [0..<n]"
    unfolding dq_list_def Suc by (simp only: map_upt_Suc)
  have "dq_list ?e = tl (dq_list d)"
    unfolding list using nth wf(2) Suc by (auto simp: dq_list_def sel intro!: map_cong)
  moreover have "dq_wf ?e"
    unfolding dq_wf_def
  proof (intro conjI ballI)
    fix i assume i: "i \<in> {dq_size ?e..<dq_capacity ?e}"
    show "dq_nth ?e i = empty_slice"
    proof (cases "i = ?c - 1")
      case False
      with i sel Suc have "dq_size d \<le> Suc i" "Suc i < ?c" by auto
      then show ?thesis using nth wf(4) by simp
    qed (use nth_last in simp)
  qed (use sel wf Suc in simp_all)
  moreover have "snd (pop_front d) = release_events (dq_nth d 0)"
    using Suc wf(1) by (simp add: pop_front_def dq_front_def dq_nth_def Let_def)
  ultimately show ?thesis using list by simp
qed

lemma pop_back_wf:
  assumes "dq_wf d"
  shows "dq_wf (fst (pop_back d)) \<and> dq_list (fst (pop_back d)) = butlast (dq_list d)
    \<and> snd (pop_back d) = (if dq_list d = [] then [] else release_events (last (dq_list d)))"
proof (cases "dq_size d")
  case 0
  then show ?thesis using assms by (simp add: pop_back_def dq_list_def)
next
  case (Suc n)
  note wf = dq_wfD [OF assms]
  let ?e = "fst (pop_back d)" let ?c = "dq_capacity d"
  have nth: "i < ?c \<Longrightarrow> dq_nth ?e i = (if n = i then empty_slice else dq_nth d i)" for i
    using dq_nth_set [OF wf(1,3), of n i empty_slice] wf(2) Suc by (simp add: pop_back_def dq_nth_def)
  have list: "dq_list d = map (dq_nth d) [0..<n] @ [dq_nth d n]"
    by (simp add: dq_list_def Suc)
  have "dq_list ?e = butlast (dq_list d)"
    unfolding list using nth wf(2) Suc by (auto simp: dq_list_def pop_back_def intro!: map_cong)
  moreover have "dq_wf ?e"
    using wf nth Suc by (auto simp: dq_wf_def) (auto simp: pop_back_def)
  moreover have "snd (pop_back d) = release_events (dq_nth d n)"
    using Suc by (simp add: pop_back_def dq_back_def dq_nth_def)
  ultimately show ?thesis using list by simp
qed

lemma dq_set_nth_wf:
  assumes "dq_wf d" "i < dq_size d"
  shows "dq_wf (dq_set_nth i s d) \<and> dq_list (dq_set_nth i s d) = (dq_list d)[i := s]"
proof -
  note wf = dq_wfD [OF assms(1)]
  have nth: "j < dq_capacity d \<Longrightarrow> dq_nth (dq_set_nth i s d) j = (if i = j then s else dq_nth d j)" for j
    using dq_nth_set [OF wf(1,3), of i j s] wf(2) assms(2) by (simp add: dq_set_nth_def dq_nth_def)
  have sz: "dq_size (dq_set_nth i s d) = dq_size d" by (simp add: dq_set_nth_def)
  have "dq_list (dq_set_nth i s d) = (dq_list d)[i := s]"
    using nth wf(2) assms(2)
    by (intro nth_equalityI) (simp_all add: sz dq_list_def nth_list_update)
  moreover have "dq_wf (dq_set_nth i s d)"
    unfolding dq_wf_def
    by (intro conjI ballI) (use wf nth assms(2) in \<open>auto simp: sz dq_set_nth_def\<close>)
  ultimately show ?thesis by simp
qed

interpretation dq: sequence
  "\<lambda>s d. fst (emplace_back s d)" "\<lambda>s d. fst (emplace_front s d)"
  "\<lambda>d. fst (pop_front d)" "\<lambda>d. fst (pop_back d)"
  dq_nth dq_set_nth dq_size dq_list dq_wf
  by unfold_locales
    (simp_all add: emplace_back_wf emplace_front_wf pop_front_wf pop_back_wf dq_set_nth_wf,
      simp add: dq_list_def)

end
