(* ===== verification/OwnedBuffer.thy ===== *)
theory OwnedBuffer
  imports SliceDeque
begin

text \<open>
  The state of the class \<open>OwnedImpl\<close> (\<open>common/buffer/BufferImpl.h\<close> and \<open>.cpp\<close>), the primitive
  steps its operations are made of, and what every operation conserves. \<open>o_slices\<close> is
  \<open>slices_\<close>, \<open>o_length\<close> the 64-bit \<open>length_\<close> (an \<open>OverflowDetectingUInt64\<close>, whose overflow
  checks are commented out, so that it wraps), \<open>o_account\<close> is \<open>account_\<close>. \<open>o_trace\<close> is not a
  field of the class: it records, in order, the drain trackers, charges and credits that the
  operations on this buffer have called.

  Two books are kept. \<open>tracker_total\<close> counts each drain tracker once, whether it still waits in
  a slice or has been called; \<open>acct_gap\<close> is what an account has been charged and not credited,
  less the capacity of the slices that hold a charge. Operations on a buffer leave both as
  they were, except where a tracker is added.
\<close>

section \<open>State\<close>

record owned =
  o_slices :: deque
  o_length :: u64
  o_account :: "account option"
  o_trace :: "buf_event list"

definition owned_new :: "account option \<Rightarrow> owned" where
  "owned_new acct = \<lparr>o_slices = deque_new, o_length = 0, o_account = acct, o_trace = []\<rparr>"

abbreviation slist :: "owned \<Rightarrow> slice list" where
  "slist b \<equiv> dq_list (o_slices b)"

definition content :: "owned \<Rightarrow> byte list" where
  "content b = concat (map slice_bytes (slist b))"

text \<open>\<open>OverflowDetectingUInt64\<close>: \<open>operator+=\<close> and \<open>operator-=\<close>.\<close>

definition length_add :: "nat \<Rightarrow> owned \<Rightarrow> owned" where
  "length_add n b = b\<lparr>o_length := o_length b + word_of_nat n\<rparr>"

definition length_sub :: "nat \<Rightarrow> owned \<Rightarrow> owned" where
  "length_sub n b = b\<lparr>o_length := o_length b - word_of_nat n\<rparr>"

section \<open>Primitive steps\<close>

definition o_log :: "buf_event list \<Rightarrow> owned \<Rightarrow> owned" where
  "o_log ev b = b\<lparr>o_trace := o_trace b @ ev\<rparr>"

definition o_emplace_back :: "slice \<Rightarrow> owned \<Rightarrow> owned" where
  "o_emplace_back s b =
     (let (d, ev) = emplace_back s (o_slices b) in o_log ev (b\<lparr>o_slices := d\<rparr>))"

definition o_emplace_front :: "slice \<Rightarrow> owned \<Rightarrow> owned" where
  "o_emplace_front s b =
     (let (d, ev) = emplace_front s (o_slices b) in o_log ev (b\<lparr>o_slices := d\<rparr>))"

definition o_pop_front :: "owned \<Rightarrow> owned" where
  "o_pop_front b = (let (d, ev) = pop_front (o_slices b) in o_log ev (b\<lparr>o_slices := d\<rparr>))"

definition o_pop_back :: "owned \<Rightarrow> owned" where
  "o_pop_back b = (let (d, ev) = pop_back (o_slices b) in o_log ev (b\<lparr>o_slices := d\<rparr>))"

definition o_front :: "owned \<Rightarrow> slice" where
  "o_front b = dq_front (o_slices b)"

definition o_back :: "owned \<Rightarrow> slice" where
  "o_back b = dq_back (o_slices b)"

definition o_empty :: "owned \<Rightarrow> bool" where
  "o_empty b = dq_empty (o_slices b)"

definition o_set_front :: "slice \<Rightarrow> owned \<Rightarrow> owned" where
  "o_set_front s b = b\<lparr>o_slices := dq_set_nth 0 s (o_slices b)\<rparr>"

definition o_set_back :: "slice \<Rightarrow> owned \<Rightarrow> owned" where
  "o_set_back s b = b\<lparr>o_slices := dq_set_nth (dq_size (o_slices b) - 1) s (o_slices b)\<rparr>"

text \<open>\<open>slices_.emplace_back(Slice(size, account_))\<close> and its front twin.\<close>

definition o_new_back :: "u64 \<Rightarrow> owned \<Rightarrow> owned" where
  "o_new_back n b = (let (s, ev) = slice_new n (o_account b) in o_emplace_back s (o_log ev b))"

definition o_new_front :: "u64 \<Rightarrow> owned \<Rightarrow> owned" where
  "o_new_front n b = (let (s, ev) = slice_new n (o_account b) in o_emplace_front s (o_log ev b))"

section \<open>Invariant and books\<close>

definition own_inv :: "owned \<Rightarrow> bool" where
  "own_inv b \<longleftrightarrow> dq_wf (o_slices b) \<and> list_all slice_wf (slist b)
     \<and> o_length b = word_of_nat (length (content b))"

fun called :: "buf_event list \<Rightarrow> tracker list" where
  "called [] = []"
| "called (Tracker_called t # evs) = t # called evs"
| "called (_ # evs) = called evs"

fun balance :: "account \<Rightarrow> buf_event list \<Rightarrow> int" where
  "balance a [] = 0"
| "balance a (Charge c n # evs) = (if c = a then int n else 0) + balance a evs"
| "balance a (Credit c n # evs) = (if c = a then - int n else 0) + balance a evs"
| "balance a (Tracker_called t # evs) = balance a evs"

definition pending :: "slice list \<Rightarrow> tracker list" where
  "pending ss = concat (map s_trackers ss)"

definition held_by :: "account \<Rightarrow> slice \<Rightarrow> int" where
  "held_by a s = (if s_account s = Some a then int (s_capacity s) else 0)"

definition tracker_total :: "owned \<Rightarrow> tracker multiset" where
  "tracker_total b = mset (called (o_trace b)) + mset (pending (slist b))"

definition acct_gap :: "owned \<Rightarrow> account \<Rightarrow> int" where
  "acct_gap b a = balance a (o_trace b) - sum_list (map (held_by a) (slist b))"

lemma called_append [simp]: "called (xs @ ys) = called xs @ called ys"
  by (induction xs rule: called.induct) auto

lemma balance_append [simp]: "balance a (xs @ ys) = balance a xs + balance a ys"
  by (induction a xs rule: balance.induct) auto

lemma called_map_Tracker [simp]: "called (map Tracker_called ts) = ts"
  by (induction ts) auto

lemma balance_map_Tracker [simp]: "balance a (map Tracker_called ts) = 0"
  by (induction ts) auto

lemma called_release_events [simp]: "called (release_events s) = s_trackers s"
  by (simp add: release_events_def split: option.split)

lemma balance_release_events [simp]: "balance a (release_events s) = - held_by a s"
  by (simp add: release_events_def held_by_def split: option.split)

lemma called_charge_events [simp]: "called (charge_events acct n) = []"
  by (simp add: charge_events_def split: option.split)

lemma balance_charge_events [simp]:
  "balance a (charge_events acct n) = (if acct = Some a then int n else 0)"
  by (simp add: charge_events_def split: option.split)

lemma pending_simps [simp]:
  "pending [] = []" "pending (s # ss) = s_trackers s @ pending ss"
  "pending (ss @ ts) = pending ss @ pending ts"
  by (simp_all add: pending_def)

section \<open>What the primitive steps do\<close>

lemma dq_empty_iff: "dq_empty d \<longleftrightarrow> dq_list d = []"
  by (simp add: dq_empty_def dq.empty_iff)

lemma dq_size_pos: "dq_list d \<noteq> [] \<Longrightarrow> 0 < dq_size d"
  using length_dq_list [of d] by (metis length_greater_0_conv)

lemma o_empty_iff [owned_simps]: "o_empty b \<longleftrightarrow> slist b = []"
  by (simp add: o_empty_def dq_empty_iff)

lemma o_front_hd [owned_simps]: "dq_wf (o_slices b) \<Longrightarrow> slist b \<noteq> [] \<Longrightarrow> o_front b = hd (slist b)"
  using dq.first [of "o_slices b"] by (simp add: o_front_def dq_front_def dq_nth_def dq_wf_def)

lemma o_back_last [owned_simps]: "dq_wf (o_slices b) \<Longrightarrow> slist b \<noteq> [] \<Longrightarrow> o_back b = last (slist b)"
  using dq.final [of "o_slices b"] by (simp add: o_back_def dq_back_def dq_nth_def)

lemma o_log_sel [owned_simps]:
  "o_slices (o_log ev b) = o_slices b" "o_length (o_log ev b) = o_length b"
  "o_account (o_log ev b) = o_account b" "o_trace (o_log ev b) = o_trace b @ ev"
  by (simp_all add: o_log_def)

lemma length_add_sel [owned_simps]:
  "o_slices (length_add n b) = o_slices b" "o_length (length_add n b) = o_length b + word_of_nat n"
  "o_account (length_add n b) = o_account b" "o_trace (length_add n b) = o_trace b"
  "o_slices (length_sub n b) = o_slices b" "o_length (length_sub n b) = o_length b - word_of_nat n"
  "o_account (length_sub n b) = o_account b" "o_trace (length_sub n b) = o_trace b"
  by (simp_all add: length_add_def length_sub_def)

lemma o_emplace_back_sel [owned_simps]:
  assumes "dq_wf (o_slices b)"
  shows "dq_wf (o_slices (o_emplace_back s b))" "slist (o_emplace_back s b) = slist b @ [s]"
    "o_length (o_emplace_back s b) = o_length b" "o_account (o_emplace_back s b) = o_account b"
    "o_trace (o_emplace_back s b) = o_trace b"
  using emplace_back_wf [OF assms, of s]
  by (simp_all add: o_emplace_back_def o_log_def Let_def case_prod_beta)

lemma o_emplace_front_sel [owned_simps]:
  assumes "dq_wf (o_slices b)"
  shows "dq_wf (o_slices (o_emplace_front s b))" "slist (o_emplace_front s b) = s # slist b"
    "o_length (o_emplace_front s b) = o_length b" "o_account (o_emplace_front s b) = o_account b"
    "o_trace (o_emplace_front s b) = o_trace b"
  using emplace_front_wf [OF assms, of s]
  by (simp_all add: o_emplace_front_def o_log_def Let_def case_prod_beta)

lemma o_pop_front_sel [owned_simps]:
  assumes "dq_wf (o_slices b)"
  shows "dq_wf (o_slices (o_pop_front b))" "slist (o_pop_front b) = tl (slist b)"
    "o_length (o_pop_front b) = o_length b" "o_account (o_pop_front b) = o_account b"
    "o_trace (o_pop_front b) =
      o_trace b @ (if slist b = [] then [] else release_events (hd (slist b)))"
  using pop_front_wf [OF assms] by (simp_all add: o_pop_front_def o_log_def Let_def case_prod_beta)

lemma o_pop_back_sel [owned_simps]:
  assumes "dq_wf (o_slices b)"
  shows "dq_wf (o_slices (o_pop_back b))" "slist (o_pop_back b) = butlast (slist b)"
    "o_length (o_pop_back b) = o_length b" "o_account (o_pop_back b) = o_account b"
    "o_trace (o_pop_back b) =
      o_trace b @ (if slist b = [] then [] else release_events (last (slist b)))"
  using pop_back_wf [OF assms] by (simp_all add: o_pop_back_def o_log_def Let_def case_prod_beta)

lemma o_set_front_sel [owned_simps]:
  assumes "dq_wf (o_slices b)" "slist b \<noteq> []"
  shows "dq_wf (o_slices (o_set_front s b))" "slist (o_set_front s b) = s # tl (slist b)"
    "o_length (o_set_front s b) = o_length b" "o_account (o_set_front s b) = o_account b"
    "o_trace (o_set_front s b) = o_trace b"
  using assms dq.put_first [of "o_slices b" s] dq.inv_put [of "o_slices b" 0 s]
    dq_size_pos [OF assms(2)]
  by (simp_all add: o_set_front_def)

lemma o_set_back_sel [owned_simps]:
  assumes "dq_wf (o_slices b)" "slist b \<noteq> []"
  shows "dq_wf (o_slices (o_set_back s b))" "slist (o_set_back s b) = butlast (slist b) @ [s]"
    "o_length (o_set_back s b) = o_length b" "o_account (o_set_back s b) = o_account b"
    "o_trace (o_set_back s b) = o_trace b"
  using assms dq.put_final [of "o_slices b" s] dq.inv_put [of "o_slices b" "dq_size (o_slices b) - 1" s]
    dq_size_pos [OF assms(2)]
  by (simp_all add: o_set_back_def)

lemma o_new_back_sel [owned_simps]:
  assumes "dq_wf (o_slices b)"
  shows "dq_wf (o_slices (o_new_back n b))"
    "slist (o_new_back n b) = slist b @ [fst (slice_new n (o_account b))]"
    "o_length (o_new_back n b) = o_length b" "o_account (o_new_back n b) = o_account b"
    "o_trace (o_new_back n b) = o_trace b @ charge_events (o_account b) (unat (sliceSize n))"
  using assms slice_new_simps(11) [of n "o_account b"]
  by (simp_all add: o_new_back_def owned_simps Let_def case_prod_beta)

lemma o_new_front_sel [owned_simps]:
  assumes "dq_wf (o_slices b)"
  shows "dq_wf (o_slices (o_new_front n b))"
    "slist (o_new_front n b) = fst (slice_new n (o_account b)) # slist b"
    "o_length (o_new_front n b) = o_length b" "o_account (o_new_front n b) = o_account b"
    "o_trace (o_new_front n b) = o_trace b @ charge_events (o_account b) (unat (sliceSize n))"
  using assms slice_new_simps(11) [of n "o_account b"]
  by (simp_all add: o_new_front_def owned_simps Let_def case_prod_beta)

lemma own_invD:
  assumes "own_inv b"
  shows "dq_wf (o_slices b)" "list_all slice_wf (slist b)"
    "s \<in> set (slist b) \<Longrightarrow> slice_wf s" "o_length b = word_of_nat (length (content b))"
  using assms by (auto simp: own_inv_def list_all_iff)

lemma own_inv_new [simp]: "own_inv (owned_new acct)" "content (owned_new acct) = []"
  by (simp_all add: own_inv_def owned_new_def content_def)

text \<open>The last slice before and after a change in place.\<close>

lemma slist_last_split: "slist b \<noteq> [] \<Longrightarrow> slist b = butlast (slist b) @ [last (slist b)]"
  by simp

lemma sum_list_butlast_last:
  "xs \<noteq> [] \<Longrightarrow> sum_list (map f xs) = sum_list (map f (butlast xs)) + (f (last xs) :: int)"
  by (cases xs rule: rev_cases) auto

lemma pending_butlast_last: "xs \<noteq> [] \<Longrightarrow> pending xs = pending (butlast xs) @ s_trackers (last xs)"
  by (cases xs rule: rev_cases) auto

lemma held_by_cong:
  "s_account s = s_account t \<Longrightarrow> s_capacity s = s_capacity t \<Longrightarrow> held_by a s = held_by a t"
  by (simp add: held_by_def)

lemma list_all_butlast: "list_all P xs \<Longrightarrow> list_all P (butlast xs)"
  by (auto simp: list_all_iff dest: in_set_butlastD)

lemma list_all_tl: "list_all P xs \<Longrightarrow> list_all P (tl xs)"
  by (cases xs) auto

end
