(* ===== verification/BufferAdd.thy ===== *)
theory BufferAdd
  imports OwnedBuffer
begin

text \<open>
  The operations of \<open>OwnedImpl\<close> that put bytes into a buffer at either end, and \<open>drain\<close>:
  \<open>addImpl\<close>, \<open>add\<close>, \<open>addBufferFragment\<close>, \<open>addDrainTracker\<close>, \<open>bindAccount\<close>,
  \<open>prepend(string_view)\<close>, \<open>appendSliceForTest\<close>, \<open>addFragments\<close>, \<open>drainImpl\<close>.

  The loops of \<open>addImpl\<close> and \<open>prepend\<close> are partial functions: with more than
  \<open>2 ^ 64 - 4096\<close> bytes left, \<open>sliceSize\<close> wraps to 0 and they add empty slices for ever
  (\<open>Does_not_return\<close>). Up to that bound they are proved to return.
\<close>

section \<open>Appending\<close>

partial_function (option) addImpl_loop :: "byte list \<Rightarrow> bool \<Rightarrow> owned \<Rightarrow> owned option" where
  "addImpl_loop src new_slice_needed b =
     (if src = [] then Some b
      else let b1 = (if new_slice_needed then o_new_back (word_of_nat (length src)) b else b);
               (copy_size, s) = slice_append src (o_back b1)
           in addImpl_loop (drop copy_size src) True (length_add copy_size (o_set_back s b1)))"

definition addImpl :: "byte list \<Rightarrow> owned \<Rightarrow> owned result" where
  "addImpl bytes b =
     (case addImpl_loop bytes (o_empty b) b of None \<Rightarrow> Inl Does_not_return | Some b' \<Rightarrow> Inr b')"

definition own_add :: "byte list \<Rightarrow> owned \<Rightarrow> owned result" where
  "own_add bytes b = addImpl bytes b"

text \<open>\<open>add(const Instance&)\<close>, over the raw slices of the other buffer in order.\<close>

fun own_add_all :: "byte list list \<Rightarrow> owned \<Rightarrow> owned result" where
  "own_add_all [] b = Inr b"
| "own_add_all (raw # raws) b = res_bind (own_add raw b) (own_add_all raws)"

definition addDrainTracker :: "tracker \<Rightarrow> owned \<Rightarrow> owned result" where
  "addDrainTracker t b =
     assert_then (\<not> o_empty b) (Inr (o_set_back (slice_addDrainTracker t (o_back b)) b))"

definition bindAccount :: "account option \<Rightarrow> owned \<Rightarrow> owned result" where
  "bindAccount acct b = assert_then (o_empty b) (Inr (b\<lparr>o_account := acct\<rparr>))"

definition addBufferFragment :: "byte list \<Rightarrow> tracker \<Rightarrow> owned \<Rightarrow> owned" where
  "addBufferFragment fragment done b =
     o_emplace_back (slice_of_fragment fragment done) (length_add (length fragment) b)"

definition appendSliceForTest :: "byte list \<Rightarrow> owned \<Rightarrow> owned" where
  "appendSliceForTest bytes b =
     (let b1 = o_new_back (word_of_nat (length bytes)) b;
          b2 = o_set_back (snd (slice_append bytes (o_back b1))) b1
      in length_add (length bytes) b2)"

section \<open>Prepending\<close>

partial_function (option) prepend_loop :: "byte list \<Rightarrow> bool \<Rightarrow> owned \<Rightarrow> owned option" where
  "prepend_loop bytes new_slice_needed b =
     (if bytes = [] then Some b
      else let b1 = (if new_slice_needed then o_new_front (word_of_nat (length bytes)) b else b);
               (copy_size, s) = slice_prepend bytes (o_front b1)
           in prepend_loop (take (length bytes - copy_size) bytes) True
                (length_add copy_size (o_set_front s b1)))"

definition own_prepend :: "byte list \<Rightarrow> owned \<Rightarrow> owned result" where
  "own_prepend bytes b =
     (case prepend_loop bytes (o_empty b) b of None \<Rightarrow> Inl Does_not_return | Some b' \<Rightarrow> Inr b')"

section \<open>Draining\<close>

lemma dq_size_pop_front: "dq_size (fst (pop_front d)) = dq_size d - 1"
  by (simp add: pop_front_def Let_def)

lemma dq_size_o_pop_front: "dq_size (o_slices (o_pop_front b)) = dq_size (o_slices b) - 1"
  by (simp add: o_pop_front_def o_log_def dq_size_pop_front Let_def case_prod_beta)

text \<open>The two loops of \<open>drainImpl\<close>.\<close>

function drain_loop :: "nat \<Rightarrow> owned \<Rightarrow> owned" where
  "drain_loop sz b =
     (if sz = 0 then b
      else if o_empty b then b
      else let slice_size = dataSize (o_front b) in
        if slice_size \<le> sz then drain_loop (sz - slice_size) (length_sub slice_size (o_pop_front b))
        else drain_loop 0 (length_sub sz (o_set_front (slice_drain sz (o_front b)) b)))"
  by pat_completeness auto

termination
  by (relation "measures [\<lambda>(sz, b). dq_size (o_slices b), \<lambda>(sz, b). sz]")
    (auto simp: dq_size_o_pop_front length_sub_def o_set_front_def dq_set_nth_def o_empty_def
      dq_empty_def)

function pop_empty_front :: "owned \<Rightarrow> owned" where
  "pop_empty_front b =
     (if \<not> o_empty b \<and> dataSize (o_front b) = 0 then pop_empty_front (o_pop_front b) else b)"
  by pat_completeness auto
termination
  by (relation "measure (\<lambda>b. dq_size (o_slices b))")
    (auto simp: dq_size_o_pop_front o_empty_def dq_empty_def)

declare drain_loop.simps [simp del] pop_empty_front.simps [simp del]

definition drainImpl :: "nat \<Rightarrow> owned \<Rightarrow> owned" where
  "drainImpl sz b = pop_empty_front (drain_loop sz b)"

definition own_drain :: "nat \<Rightarrow> owned \<Rightarrow> owned" where
  "own_drain sz b = drainImpl sz b"

section \<open>Fragments in one reservation\<close>

fun write_fragments :: "nat \<Rightarrow> byte list list \<Rightarrow> slice \<Rightarrow> slice" where
  "write_fragments off [] s = s"
| "write_fragments off (f # fs) s = write_fragments (off + length f) fs (slice_write off f s)"

fun ptr_offset :: "mem_ptr \<Rightarrow> nat" where
  "ptr_offset (At_offset i) = i"
| "ptr_offset p = 0"

fun add_fragments_slow :: "byte list list \<Rightarrow> owned \<Rightarrow> owned result" where
  "add_fragments_slow [] b = Inr b"
| "add_fragments_slow (f # fs) b = res_bind (addImpl f b) (add_fragments_slow fs)"

definition addFragments :: "byte list list \<Rightarrow> owned \<Rightarrow> (nat \<times> owned) result" where
  "addFragments fragments b =
     (let total_size_to_copy = sum_list (map length fragments);
          b1 = (if o_empty b then o_new_back (word_of_nat total_size_to_copy) b else b);
          back = o_back b1;
          reservation = slice_reserve total_size_to_copy back
      in if rs_len reservation = total_size_to_copy
         then let off = ptr_offset (rs_mem reservation);
                  back1 = write_fragments off fragments back;
                  back2 = snd (slice_commit_unsafe reservation back1)
              in Inr (total_size_to_copy, length_add total_size_to_copy (o_set_back back2 b1))
         else res_bind (add_fragments_slow fragments b1) (\<lambda>b2. Inr (total_size_to_copy, b2)))"

section \<open>What the operations conserve\<close>

definition keeps_books :: "owned \<Rightarrow> owned \<Rightarrow> bool" where
  "keeps_books b b' \<longleftrightarrow> o_account b' = o_account b
     \<and> tracker_total b' = tracker_total b \<and> acct_gap b' = acct_gap b"

definition immutables :: "owned \<Rightarrow> slice list" where
  "immutables b = filter (\<lambda>s. \<not> s_storage s) (slist b)"

text \<open>The largest request that \<open>sliceSize\<close> rounds up without wrapping.\<close>

definition max_request :: nat where
  "max_request = 2 ^ 64 - 4096"

lemma keeps_books_refl [simp, intro]: "keeps_books b b"
  by (simp add: keeps_books_def)

lemma keeps_books_trans [trans]: "keeps_books a b \<Longrightarrow> keeps_books b c \<Longrightarrow> keeps_books a c"
  by (simp add: keeps_books_def)

lemma unat_request:
  assumes "n \<le> max_request"
  shows "unat (word_of_nat n :: u64) = n"
proof -
  have "n < 2 ^ 64" using assms by (simp add: max_request_def)
  then show ?thesis by (rule unat_le_of_nat)
qed

lemma sliceSize_request: "n \<le> max_request \<Longrightarrow> n \<le> unat (sliceSize (word_of_nat n))"
  using sliceSize_ge [of "word_of_nat n"] unat_request [of n] by (simp add: max_request_def)

lemma own_invI:
  assumes "dq_wf (o_slices b)" "list_all slice_wf (slist b)"
    "o_length b = word_of_nat (length (content b))"
  shows "own_inv b"
  using assms by (simp add: own_inv_def)

text \<open>Replacing the last slice by one with the same account, trackers, capacity and storage.\<close>

lemma set_back_step:
  assumes inv: "own_inv b" and ne: "slist b \<noteq> []" and wf: "slice_wf s"
    and bytes: "slice_bytes s = slice_bytes (last (slist b)) @ bs"
    and same: "s_account s = s_account (last (slist b))" "s_trackers s = s_trackers (last (slist b))"
      "s_capacity s = s_capacity (last (slist b))"
  defines "b' \<equiv> length_add (length bs) (o_set_back s b)"
  shows "own_inv b'" "content b' = content b @ bs" "keeps_books b b'"
    "slist b' = butlast (slist b) @ [s]"
proof -
  note dq = own_invD [OF inv]
  show sl: "slist b' = butlast (slist b) @ [s]"
    using dq(1) ne by (simp add: b'_def owned_simps)
  have "content b = concat (map slice_bytes (butlast (slist b))) @ slice_bytes (last (slist b))"
    unfolding content_def using ne by (rule concat_map_butlast)
  then show cont: "content b' = content b @ bs"
    by (simp add: content_def sl bytes)
  have sel: "dq_wf (o_slices b')" "o_length b' = o_length b + word_of_nat (length bs)"
    "o_account b' = o_account b" "o_trace b' = o_trace b"
    using dq(1) ne by (simp_all add: b'_def owned_simps)
  have "list_all slice_wf (slist b')"
    using dq(2) wf by (simp add: sl list_all_butlast)
  then show "own_inv b'"
    by (simp add: own_inv_def sel cont dq(4))
  show "keeps_books b b'"
    using dq(1) ne held_by_cong [OF same(1,3)]
    by (simp add: keeps_books_def tracker_total_def acct_gap_def sl fun_eq_iff same(2)
        sum_list_butlast_last [of "slist b"] pending_butlast_last [of "slist b"] sel)
qed

lemma set_front_step:
  assumes inv: "own_inv b" and ne: "slist b \<noteq> []" and wf: "slice_wf s"
    and bytes: "slice_bytes s = bs @ slice_bytes (hd (slist b))"
    and same: "s_account s = s_account (hd (slist b))" "s_trackers s = s_trackers (hd (slist b))"
      "s_capacity s = s_capacity (hd (slist b))"
  defines "b' \<equiv> length_add (length bs) (o_set_front s b)"
  shows "own_inv b'" "content b' = bs @ content b" "keeps_books b b'"
    "slist b' = s # tl (slist b)"
proof -
  note dq = own_invD [OF inv]
  obtain h t where ht: "slist b = h # t" using ne by (cases "slist b") auto
  show sl: "slist b' = s # tl (slist b)"
    using dq(1) ne by (simp add: b'_def owned_simps)
  show cont: "content b' = bs @ content b"
    using bytes by (simp add: content_def sl ht)
  have sel: "dq_wf (o_slices b')" "o_length b' = o_length b + word_of_nat (length bs)"
    "o_account b' = o_account b" "o_trace b' = o_trace b"
    using dq(1) ne by (simp_all add: b'_def owned_simps)
  have "list_all slice_wf (slist b')"
    using dq(2) wf by (simp add: sl list_all_tl)
  then show "own_inv b'"
    by (simp add: own_inv_def sel cont dq(4))
  show "keeps_books b b'"
    using dq(1) ne held_by_cong [OF same(1,3)] same(2)
    by (simp add: keeps_books_def tracker_total_def acct_gap_def sl fun_eq_iff ht sel)
qed

lemma new_back_step:
  assumes inv: "own_inv b"
  shows "own_inv (o_new_back n b)" "content (o_new_back n b) = content b"
    "keeps_books b (o_new_back n b)" "immutables (o_new_back n b) = immutables b"
  using own_invD [OF inv]
  by (auto simp: own_inv_def content_def owned_simps slice_simps keeps_books_def tracker_total_def
      acct_gap_def held_by_def immutables_def fun_eq_iff)

lemma new_front_step:
  assumes inv: "own_inv b"
  shows "own_inv (o_new_front n b)" "content (o_new_front n b) = content b"
    "keeps_books b (o_new_front n b)" "immutables (o_new_front n b) = immutables b"
  using own_invD [OF inv]
  by (auto simp: own_inv_def content_def owned_simps slice_simps keeps_books_def tracker_total_def
      acct_gap_def held_by_def immutables_def fun_eq_iff)

section \<open>addImpl\<close>

text \<open>One round of the loop: append to the last slice.\<close>

definition append_round :: "byte list \<Rightarrow> owned \<Rightarrow> owned" where
  "append_round src b =
     (let (copy_size, s) = slice_append src (o_back b) in length_add copy_size (o_set_back s b))"

definition room_at_back :: "owned \<Rightarrow> nat" where
  "room_at_back b = reservableSize (last (slist b))"

lemma append_round_step:
  assumes inv: "own_inv b" and ne: "slist b \<noteq> []"
  shows "own_inv (append_round src b)"
    "content (append_round src b) = content b @ take (min (length src) (room_at_back b)) src"
    "keeps_books b (append_round src b)" "immutables (append_round src b) = immutables b"
proof -
  let ?s = "last (slist b)" let ?t = "snd (slice_append src ?s)"
  let ?bs = "take (min (length src) (room_at_back b)) src"
  have wf: "slice_wf ?s" using own_invD(3) [OF inv] ne by simp
  have eq: "append_round src b = length_add (length ?bs) (o_set_back ?t b)"
    using own_invD(1) [OF inv] ne
    by (simp add: append_round_def o_back_last case_prod_beta slice_simps room_at_back_def)
  note step = set_back_step [OF inv ne slice_append_wf [OF wf, of src], of ?bs, folded eq]
  have bytes: "slice_bytes ?t = slice_bytes ?s @ ?bs"
    using slice_append_bytes [OF wf, of src] by (simp add: room_at_back_def)
  show "own_inv (append_round src b)" "content (append_round src b) = content b @ ?bs"
    "keeps_books b (append_round src b)"
    by (rule step; simp add: bytes slice_simps)+
  have sl: "slist (append_round src b) = butlast (slist b) @ [?t]"
    by (rule step; simp add: bytes slice_simps)
  have "filter (\<lambda>s. \<not> s_storage s) [?t] = filter (\<lambda>s. \<not> s_storage s) [?s]"
    using slice_append_immutable [OF wf, of src] by (simp add: slice_simps)
  then show "immutables (append_round src b) = immutables b"
    unfolding immutables_def sl using ne by (cases "slist b" rule: rev_cases) (simp, simp only: filter_append butlast_snoc last_snoc)
qed

lemma addImpl_loop_unfold:
  "src \<noteq> [] \<Longrightarrow> addImpl_loop src new_slice_needed b =
     (let b1 = (if new_slice_needed then o_new_back (word_of_nat (length src)) b else b)
      in addImpl_loop (drop (fst (slice_append src (o_back b1))) src) True (append_round src b1))"
  by (subst addImpl_loop.simps) (simp add: append_round_def case_prod_beta Let_def)

lemma addImpl_loop_Nil [simp]: "addImpl_loop [] flag b = Some b"
  by (subst addImpl_loop.simps) simp

lemma room_new_back:
  "own_inv b \<Longrightarrow> room_at_back (o_new_back n b) = unat (sliceSize n)"
  by (simp add: room_at_back_def owned_simps own_invD slice_simps)

lemma addImpl_loop_fresh:
  assumes inv: "own_inv b" and len: "length src \<le> max_request"
  shows "\<exists>b'. addImpl_loop src True b = Some b' \<and> own_inv b' \<and> content b' = content b @ src
    \<and> keeps_books b b' \<and> immutables b' = immutables b"
proof (cases "src = []")
  case True
  then show ?thesis using inv by simp
next
  case False
  let ?b1 = "o_new_back (word_of_nat (length src)) b"
  note new = new_back_step [OF inv, of "word_of_nat (length src)"]
  have ne: "slist ?b1 \<noteq> []" by (simp add: owned_simps own_invD(1) [OF inv])
  note round = append_round_step [OF new(1) ne, of src]
  have room: "length src \<le> room_at_back ?b1"
    using sliceSize_request [OF len] by (simp add: room_new_back [OF inv])
  then have all: "fst (slice_append src (o_back ?b1)) = length src"
    using ne by (simp add: o_back_last own_invD(1) [OF new(1)] slice_simps room_at_back_def)
  have "addImpl_loop src True b = Some (append_round src ?b1)"
    using False by (simp add: addImpl_loop_unfold Let_def all)
  then show ?thesis
    using round new room by (auto intro: keeps_books_trans)
qed

lemma addImpl_total:
  assumes inv: "own_inv b" and len: "length src \<le> max_request"
  shows "\<exists>b'. addImpl src b = Inr b' \<and> own_inv b' \<and> content b' = content b @ src
    \<and> keeps_books b b' \<and> immutables b' = immutables b"
proof -
  have "\<exists>b'. addImpl_loop src (o_empty b) b = Some b' \<and> own_inv b' \<and> content b' = content b @ src
    \<and> keeps_books b b' \<and> immutables b' = immutables b"
  proof (cases "o_empty b \<or> src = []")
    case True
    then show ?thesis using addImpl_loop_fresh [OF assms] inv by (cases "src = []") auto
  next
    case False
    then have ne: "slist b \<noteq> []" by (simp add: o_empty_iff)
    let ?k = "min (length src) (room_at_back b)"
    note round = append_round_step [OF inv ne, of src]
    have k: "fst (slice_append src (o_back b)) = ?k"
      using ne by (simp add: o_back_last own_invD(1) [OF inv] slice_simps room_at_back_def)
    have "addImpl_loop src (o_empty b) b = addImpl_loop (drop ?k src) True (append_round src b)"
      using False by (simp add: addImpl_loop_unfold Let_def k)
    moreover have "length (drop ?k src) \<le> max_request" using len by simp
    from addImpl_loop_fresh [OF round(1) this] obtain b' where
      "addImpl_loop (drop ?k src) True (append_round src b) = Some b'" "own_inv b'"
      "content b' = content (append_round src b) @ drop ?k src"
      "keeps_books (append_round src b) b'" "immutables b' = immutables (append_round src b)"
      by auto
    ultimately show ?thesis using round keeps_books_trans [OF round(3)] by auto
  qed
  then show ?thesis by (auto simp: addImpl_def)
qed

section \<open>prepend\<close>

definition prepend_round :: "byte list \<Rightarrow> owned \<Rightarrow> owned" where
  "prepend_round src b =
     (let (copy_size, s) = slice_prepend src (o_front b) in length_add copy_size (o_set_front s b))"

definition room_at_front :: "owned \<Rightarrow> nat" where
  "room_at_front b = prepend_room (hd (slist b))"

lemma prepend_round_step:
  assumes inv: "own_inv b" and ne: "slist b \<noteq> []" and src: "src \<noteq> []"
  shows "own_inv (prepend_round src b)"
    "content (prepend_round src b) =
      drop (length src - min (length src) (room_at_front b)) src @ content b"
    "keeps_books b (prepend_round src b)"
proof -
  let ?s = "hd (slist b)" let ?t = "snd (slice_prepend src ?s)"
  let ?bs = "drop (length src - min (length src) (room_at_front b)) src"
  have wf: "slice_wf ?s" using own_invD(3) [OF inv] ne by simp
  have eq: "prepend_round src b = length_add (length ?bs) (o_set_front ?t b)"
    using own_invD(1) [OF inv] ne
    by (simp add: prepend_round_def o_front_hd case_prod_beta slice_simps room_at_front_def)
  have bytes: "slice_bytes ?t = ?bs @ slice_bytes ?s"
    using slice_prepend_bytes [OF wf, of src] by (simp add: room_at_front_def)
  note step = set_front_step [OF inv ne slice_prepend_wf [OF wf src], of ?bs, folded eq]
  show "own_inv (prepend_round src b)" "content (prepend_round src b) = ?bs @ content b"
    "keeps_books b (prepend_round src b)"
    by (rule step; simp add: bytes slice_simps)+
qed

lemma prepend_round_slist:
  assumes "own_inv b" and "slist b = s # t"
  shows "slist (prepend_round src b) = snd (slice_prepend src s) # t"
  using own_invD(1) [OF assms(1)] assms(2)
  by (simp add: prepend_round_def o_front_hd case_prod_beta owned_simps)

lemma prepend_loop_unfold:
  "src \<noteq> [] \<Longrightarrow> prepend_loop src new_slice_needed b =
     (let b1 = (if new_slice_needed then o_new_front (word_of_nat (length src)) b else b)
      in prepend_loop (take (length src - fst (slice_prepend src (o_front b1))) src) True
           (prepend_round src b1))"
  by (subst prepend_loop.simps) (simp add: prepend_round_def case_prod_beta Let_def)

lemma prepend_loop_Nil [simp]: "prepend_loop [] flag b = Some b"
  by (subst prepend_loop.simps) simp

lemma prepend_loop_fresh:
  assumes inv: "own_inv b" and len: "length src \<le> max_request"
  shows "\<exists>b'. prepend_loop src True b = Some b' \<and> own_inv b' \<and> content b' = src @ content b
    \<and> keeps_books b b'"
proof (cases "src = []")
  case True
  then show ?thesis using inv by simp
next
  case False
  let ?b1 = "o_new_front (word_of_nat (length src)) b"
  note new = new_front_step [OF inv, of "word_of_nat (length src)"]
  have ne: "slist ?b1 \<noteq> []" by (simp add: owned_simps own_invD(1) [OF inv])
  note round = prepend_round_step [OF new(1) ne False]
  have room: "length src \<le> room_at_front ?b1"
    using sliceSize_request [OF len]
    by (simp add: room_at_front_def owned_simps own_invD(1) [OF inv] prepend_room_def slice_simps)
  then have all: "fst (slice_prepend src (o_front ?b1)) = length src"
    using ne by (simp add: o_front_hd own_invD(1) [OF new(1)] slice_simps room_at_front_def)
  have "prepend_loop src True b = Some (prepend_round src ?b1)"
    using False by (simp add: prepend_loop_unfold Let_def all)
  then show ?thesis
    using round new room by (auto intro: keeps_books_trans)
qed

text \<open>Slices that are there already keep their place and stay as they are, but for what fits in front of the first.\<close>

lemma prepend_loop_slist:
  assumes inv: "own_inv b" and len: "length src \<le> max_request"
  shows "\<exists>b' fresh. prepend_loop src True b = Some b' \<and> slist b' = fresh @ slist b"
proof (cases "src = []")
  case False
  let ?b1 = "o_new_front (word_of_nat (length src)) b"
  note new = new_front_step [OF inv, of "word_of_nat (length src)"]
  have sl: "slist ?b1 = fst (slice_new (word_of_nat (length src)) (o_account b)) # slist b"
    by (simp add: owned_simps own_invD(1) [OF inv])
  have "length src \<le> room_at_front ?b1"
    using sliceSize_request [OF len]
    by (simp add: room_at_front_def owned_simps own_invD(1) [OF inv] prepend_room_def slice_simps)
  then have "fst (slice_prepend src (o_front ?b1)) = length src"
    using sl by (simp add: o_front_hd own_invD(1) [OF new(1)] slice_simps room_at_front_def)
  then have "prepend_loop src True b = Some (prepend_round src ?b1)"
    using False by (simp add: prepend_loop_unfold Let_def)
  then show ?thesis using prepend_round_slist [OF new(1) sl] by simp
qed simp

lemma own_prepend_slist:
  assumes inv: "own_inv b" and sl: "slist b = s # t" and len: "length src \<le> max_request"
  shows "\<exists>b' fresh. own_prepend src b = Inr b' \<and> slist b' = fresh @ (if src = [] then s else snd (slice_prepend src s)) # t"
proof (cases "src = []")
  case True
  then show ?thesis using sl by (simp add: own_prepend_def)
next
  case False
  have ne: "slist b \<noteq> []" using sl by simp
  then have empty: "\<not> o_empty b" by (simp add: o_empty_iff)
  let ?r = "length src - fst (slice_prepend src (o_front b))"
  have "prepend_loop src (o_empty b) b = prepend_loop (take ?r src) True (prepend_round src b)"
    using False empty by (simp add: prepend_loop_unfold Let_def)
  moreover have "length (take ?r src) \<le> max_request" using len by simp
  ultimately show ?thesis
    using prepend_loop_slist [OF prepend_round_step(1) [OF inv ne False], of "take ?r src"]
      prepend_round_slist [OF inv sl, of src] False
    by (auto simp: own_prepend_def)
qed

lemma own_prepend_total:
  assumes inv: "own_inv b" and len: "length src \<le> max_request"
  shows "\<exists>b'. own_prepend src b = Inr b' \<and> own_inv b' \<and> content b' = src @ content b
    \<and> keeps_books b b'"
proof -
  have "\<exists>b'. prepend_loop src (o_empty b) b = Some b' \<and> own_inv b' \<and> content b' = src @ content b
    \<and> keeps_books b b'"
  proof (cases "o_empty b \<or> src = []")
    case True
    then show ?thesis using prepend_loop_fresh [OF assms] inv by (cases "src = []") auto
  next
    case False
    then have ne: "slist b \<noteq> []" and src: "src \<noteq> []" by (simp_all add: o_empty_iff)
    let ?r = "length src - min (length src) (room_at_front b)"
    note round = prepend_round_step [OF inv ne src]
    have k: "fst (slice_prepend src (o_front b)) = min (length src) (room_at_front b)"
      using ne by (simp add: o_front_hd own_invD(1) [OF inv] slice_simps room_at_front_def)
    have "prepend_loop src (o_empty b) b = prepend_loop (take ?r src) True (prepend_round src b)"
      using False by (simp add: prepend_loop_unfold Let_def k)
    moreover have "length (take ?r src) \<le> max_request" using len by simp
    from prepend_loop_fresh [OF round(1) this] obtain b' where
      "prepend_loop (take ?r src) True (prepend_round src b) = Some b'" "own_inv b'"
      "content b' = take ?r src @ content (prepend_round src b)"
      "keeps_books (prepend_round src b) b'"
      by auto
    ultimately show ?thesis using round(2) keeps_books_trans [OF round(3)] by auto
  qed
  then show ?thesis by (auto simp: own_prepend_def)
qed

section \<open>drain\<close>

lemma pop_front_step:
  assumes inv: "own_inv b" and ne: "slist b \<noteq> []"
  defines "b' \<equiv> length_sub (dataSize (hd (slist b))) (o_pop_front b)"
  shows "own_inv b'" "content b' = drop (dataSize (hd (slist b))) (content b)" "keeps_books b b'"
    "slist b' = tl (slist b)"
proof -
  note dq = own_invD [OF inv]
  obtain h t where ht: "slist b = h # t" using ne by (cases "slist b") auto
  have wf: "slice_wf h" using dq(3) ht by simp
  have sel: "dq_wf (o_slices b')" "o_length b' = o_length b - word_of_nat (dataSize h)"
    "o_account b' = o_account b" "o_trace b' = o_trace b @ release_events h" "slist b' = t"
    using dq(1) ht by (simp_all add: b'_def owned_simps)
  show "content b' = drop (dataSize (hd (slist b))) (content b)"
    using length_slice_bytes [OF wf] by (simp add: content_def sel ht)
  moreover have "length (content b) = dataSize h + length (content b')"
    using length_slice_bytes [OF wf] by (simp add: content_def sel ht)
  ultimately show "own_inv b'"
    using dq(2,4) by (simp add: own_inv_def sel ht)
  show "keeps_books b b'"
    by (auto simp: keeps_books_def tracker_total_def acct_gap_def sel ht fun_eq_iff ac_simps)
  show "slist b' = tl (slist b)" by (simp add: sel ht)
qed

lemma drain_front_step:
  assumes inv: "own_inv b" and ne: "slist b \<noteq> []" and n: "n < dataSize (hd (slist b))"
  defines "b' \<equiv> length_sub n (o_set_front (slice_drain n (hd (slist b))) b)"
  shows "own_inv b'" "content b' = drop n (content b)" "keeps_books b b'"
    "slist b' = slice_drain n (hd (slist b)) # tl (slist b)"
proof -
  note dq = own_invD [OF inv]
  obtain h t where ht: "slist b = h # t" using ne by (cases "slist b") auto
  have wf: "slice_wf h" and n': "n < dataSize h" using dq(3) ht n by simp_all
  let ?h = "slice_drain n h"
  have sel: "dq_wf (o_slices b')" "o_length b' = o_length b - word_of_nat n"
    "o_account b' = o_account b" "o_trace b' = o_trace b" "slist b' = ?h # t"
    using dq(1) ht by (simp_all add: b'_def owned_simps)
  have bytes: "slice_bytes ?h = drop n (slice_bytes h)" and len: "n \<le> length (slice_bytes h)"
    using slice_drain_bytes [OF wf] n' length_slice_bytes [OF wf] by simp_all
  show cont: "content b' = drop n (content b)"
    using len by (simp add: content_def sel ht bytes)
  have "length (content b) = n + length (content b')"
    unfolding cont using len by (simp add: content_def ht)
  then show "own_inv b'"
    using dq(2,4) slice_drain_wf [OF wf] n' by (simp add: own_inv_def sel ht)
  show "keeps_books b b'"
    using held_by_cong [of ?h h]
    by (simp add: keeps_books_def tracker_total_def acct_gap_def sel ht fun_eq_iff slice_simps)
  show "slist b' = slice_drain n (hd (slist b)) # tl (slist b)" by (simp add: sel ht)
qed

lemma drain_loop_step:
  "own_inv b \<Longrightarrow> own_inv (drain_loop n b) \<and> content (drain_loop n b) = drop n (content b)
    \<and> keeps_books b (drain_loop n b)"
proof (induction n b rule: drain_loop.induct)
  case (1 n b)
  note inv = "1.prems"
  show ?case
  proof (cases "n = 0 \<or> slist b = []")
    case True
    then show ?thesis using inv
      by (auto simp: drain_loop.simps [of n b] o_empty_iff content_def)
  next
    case False
    then have ne: "slist b \<noteq> []" and n: "n \<noteq> 0" and e: "\<not> o_empty b"
      by (simp_all add: o_empty_iff)
    have front: "o_front b = hd (slist b)" using own_invD(1) [OF inv] ne by (simp add: o_front_hd)
    show ?thesis
    proof (cases "dataSize (hd (slist b)) \<le> n")
      case True
      let ?b = "length_sub (dataSize (hd (slist b))) (o_pop_front b)"
      note step = pop_front_step [OF inv ne]
      have eq: "drain_loop n b = drain_loop (n - dataSize (hd (slist b))) ?b"
        using True n e by (simp add: drain_loop.simps [of n b] front Let_def)
      have "own_inv (drain_loop (n - dataSize (hd (slist b))) ?b) \<and>
          content (drain_loop (n - dataSize (hd (slist b))) ?b) =
            drop (n - dataSize (hd (slist b))) (content ?b) \<and>
          keeps_books ?b (drain_loop (n - dataSize (hd (slist b))) ?b)"
        using "1.IH"(1) [of "dataSize (hd (slist b))"] n e True step(1) by (simp add: front)
      then show ?thesis
        using step(2,3) True by (auto simp: eq intro: keeps_books_trans)
    next
      case False
      note step = drain_front_step [OF inv ne, of n]
      show ?thesis
        using False n e step by (simp add: drain_loop.simps front)
    qed
  qed
qed

lemma length_sub_0 [simp]: "length_sub 0 b = b"
  by (simp add: length_sub_def)

lemma pop_empty_front_step:
  "own_inv b \<Longrightarrow> own_inv (pop_empty_front b) \<and> content (pop_empty_front b) = content b
    \<and> keeps_books b (pop_empty_front b)
    \<and> slist (pop_empty_front b) = dropWhile (\<lambda>s. dataSize s = 0) (slist b)"
proof (induction b rule: pop_empty_front.induct)
  case (1 b)
  note inv = "1.prems"
  show ?case
  proof (cases "slist b")
    case Nil
    then show ?thesis using inv by (simp add: pop_empty_front.simps [of b] o_empty_iff)
  next
    case (Cons h t)
    then have ne: "slist b \<noteq> []" by simp
    have front: "o_front b = h" using own_invD(1) [OF inv] Cons by (simp add: o_front_hd)
    show ?thesis
    proof (cases "dataSize h = 0")
      case True
      have eq: "pop_empty_front b = pop_empty_front (o_pop_front b)"
        using True ne by (subst pop_empty_front.simps) (simp add: o_empty_iff front)
      note step = pop_front_step [OF inv ne, unfolded Cons list.sel True length_sub_0 drop_0]
      show ?thesis
        using "1.IH" ne True step Cons unfolding eq
        by (auto simp: o_empty_iff front intro: keeps_books_trans)
    next
      case False
      then show ?thesis using inv Cons by (simp add: pop_empty_front.simps [of b] front)
    qed
  qed
qed

lemma drainImpl_step:
  assumes "own_inv b"
  shows "own_inv (drainImpl n b)" "content (drainImpl n b) = drop n (content b)"
    "keeps_books b (drainImpl n b)"
    "slist (drainImpl n b) \<noteq> [] \<Longrightarrow> dataSize (hd (slist (drainImpl n b))) \<noteq> 0"
  using drain_loop_step [OF assms, of n] pop_empty_front_step [of "drain_loop n b"]
    hd_dropWhile [of "\<lambda>s. dataSize s = 0" "slist (drain_loop n b)"]
  by (auto simp: drainImpl_def intro: keeps_books_trans)

section \<open>The other ways in\<close>

lemma own_add_all_total:
  assumes "own_inv b" and "length (concat raws) \<le> max_request"
  shows "\<exists>b'. own_add_all raws b = Inr b' \<and> own_inv b' \<and> content b' = content b @ concat raws
    \<and> keeps_books b b' \<and> immutables b' = immutables b"
  using assms
proof (induction raws arbitrary: b)
  case Nil
  then show ?case by simp
next
  case (Cons raw raws)
  from Cons.prems have "length raw \<le> max_request" and len: "length (concat raws) \<le> max_request"
    by simp_all
  from addImpl_total [OF Cons.prems(1) this(1)] obtain b1 where b1: "addImpl raw b = Inr b1"
    "own_inv b1" "content b1 = content b @ raw" "keeps_books b b1" "immutables b1 = immutables b"
    by blast
  from Cons.IH [OF b1(2) len] b1 show ?case
    by (auto simp: own_add_def intro: keeps_books_trans)
qed

lemma add_fragments_slow_eq: "add_fragments_slow fs b = own_add_all fs b"
  by (induction fs arbitrary: b) (simp_all add: own_add_def res_bind_def split: sum.split)

text \<open>Giving the last slice more drain trackers.\<close>

lemma add_trackers_step:
  assumes inv: "own_inv b" and ne: "slist b \<noteq> []"
    and s: "s = (last (slist b))\<lparr>s_trackers := s_trackers (last (slist b)) @ ts\<rparr>"
  defines "b' \<equiv> o_set_back s b"
  shows "own_inv b'" "content b' = content b" "o_account b' = o_account b"
    "tracker_total b' = tracker_total b + mset ts" "acct_gap b' = acct_gap b"
proof -
  let ?s = "last (slist b)"
  note dq = own_invD [OF inv]
  have sel: "dq_wf (o_slices b')" "o_length b' = o_length b" "o_trace b' = o_trace b"
    "slist b' = butlast (slist b) @ [s]" "o_account b' = o_account b"
    using dq(1) ne by (simp_all add: b'_def owned_simps)
  have same: "slice_wf s" "slice_bytes s = slice_bytes ?s" "held_by a s = held_by a ?s"
    "s_trackers s = s_trackers ?s @ ts" for a
    using dq(3) ne by (auto simp: s slice_wf_def slice_bytes_def dataSize_def held_by_def)
  show cont: "content b' = content b"
    unfolding content_def sel(4) concat_map_butlast [OF ne, of slice_bytes] by (simp add: same)
  have "list_all slice_wf (slist b')" using dq(2) same(1) by (simp add: sel list_all_butlast)
  then show "own_inv b'" using dq(4) sel cont by (simp add: own_inv_def)
  show "tracker_total b' = tracker_total b + mset ts" "acct_gap b' = acct_gap b"
    using ne by (simp_all add: tracker_total_def acct_gap_def sel same fun_eq_iff
        sum_list_butlast_last [of "slist b"] pending_butlast_last [of "slist b"])
  show "o_account b' = o_account b" by (rule sel)
qed

lemma addDrainTracker_step:
  assumes inv: "own_inv b" and ne: "slist b \<noteq> []"
  shows "\<exists>b'. addDrainTracker t b = Inr b' \<and> own_inv b' \<and> content b' = content b
    \<and> tracker_total b' = add_mset t (tracker_total b) \<and> acct_gap b' = acct_gap b"
  using add_trackers_step [OF inv ne refl, of "[t]"] own_invD(1) [OF inv] ne
  by (simp add: addDrainTracker_def o_empty_iff o_back_last slice_addDrainTracker_def)

lemma addBufferFragment_step:
  fixes fragment :: "byte list" and cb :: tracker
  assumes inv: "own_inv b"
  defines "b' \<equiv> addBufferFragment fragment cb b"
  shows "own_inv b'" "content b' = content b @ fragment"
    "tracker_total b' = add_mset cb (tracker_total b)" "acct_gap b' = acct_gap b"
    "immutables b' = immutables b @ [slice_of_fragment fragment cb]"
proof -
  let ?s = "slice_of_fragment fragment cb"
  note dq = own_invD [OF inv]
  have sel: "dq_wf (o_slices b')" "o_length b' = o_length b + word_of_nat (length fragment)"
    "o_trace b' = o_trace b" "slist b' = slist b @ [?s]"
    using dq(1) by (simp_all add: b'_def addBufferFragment_def owned_simps)
  show cont: "content b' = content b @ fragment"
    by (simp add: content_def sel slice_simps)
  show "own_inv b'" using dq(2,4) by (simp add: own_inv_def sel cont slice_simps)
  show "tracker_total b' = add_mset cb (tracker_total b)" "acct_gap b' = acct_gap b"
    by (simp_all add: tracker_total_def acct_gap_def sel slice_simps held_by_def fun_eq_iff)
  show "immutables b' = immutables b @ [?s]"
    by (simp add: immutables_def sel slice_of_fragment_def)
qed

lemma blit_blit:
  assumes "off + length xs + length ys \<le> length mem"
  shows "blit (off + length xs) ys (blit off xs mem) = blit off (xs @ ys) mem"
proof -
  have "take (off + length xs) (blit off xs mem) = take off mem @ xs"
    using assms by (simp add: blit_def)
  moreover have "drop (off + length xs + length ys) (blit off xs mem)
      = drop (off + length xs + length ys) mem"
    using assms by (intro drop_blit_after) simp_all
  ultimately show ?thesis
    unfolding blit_def [of "off + length xs"] by (simp add: blit_def [of off "xs @ ys"] add.assoc)
qed

lemma write_fragments_eq:
  "off + length (concat fs) \<le> length (s_base s) \<Longrightarrow>
   write_fragments off fs s = slice_write off (concat fs) s"
proof (induction fs arbitrary: off s)
  case Nil
  then show ?case by (simp add: slice_write_def)
next
  case (Cons f fs)
  then show ?case
    by (simp add: slice_write_def blit_blit)
qed

lemma fast_fragments_slice:
  assumes wf: "slice_wf s" and room: "length (concat fs) \<le> reservableSize s"
  shows "snd (slice_commit_unsafe (slice_reserve (length (concat fs)) s)
      (write_fragments (ptr_offset (rs_mem (slice_reserve (length (concat fs)) s))) fs s)) =
    snd (slice_append (concat fs) s)"
proof (cases "concat fs = []")
  case True
  then have "write_fragments off fs s = s" for off
    by (induction fs) (simp_all add: slice_write_def)
  then show ?thesis
    unfolding True by (simp add: slice_append_def slice_commit_unsafe_def slice_reserve_def Let_def)
next
  case False
  then have pos: "0 < length (concat fs)" by simp
  with room have off: "rs_mem (slice_reserve (length (concat fs)) s) = At_offset (s_reservable s)"
    by (intro rs_mem_slice_reserve) linarith+
  have fits: "s_reservable s + length (concat fs) \<le> length (s_base s)"
    using room slice_wfD [OF wf] unfolding reservableSize_def by linarith
  have min: "min (length (concat fs)) (reservableSize s) = length (concat fs)"
    using room by (rule min_absorb1)
  show ?thesis
    unfolding off ptr_offset.simps write_fragments_eq [OF fits]
    using pos by (simp add: slice_append_def slice_commit_unsafe_def slice_write_def min
        rs_len_slice_reserve Let_def del: length_concat length_greater_0_conv length_0_conv)
qed

lemma addFragments_total:
  assumes inv: "own_inv b" and len: "sum_list (map length fs) \<le> max_request"
  shows "\<exists>b'. addFragments fs b = Inr (sum_list (map length fs), b') \<and> own_inv b'
    \<and> content b' = content b @ concat fs \<and> keeps_books b b' \<and> immutables b' = immutables b"
proof -
  define n where "n = sum_list (map length fs)"
  define b1 where "b1 = (if o_empty b then o_new_back (word_of_nat n) b else b)"
  let ?s = "last (slist b1)"
  have n: "length (concat fs) = n" by (simp add: length_concat n_def)
  have b: "own_inv b1" "content b1 = content b" "keeps_books b b1" "immutables b1 = immutables b"
    "slist b1 \<noteq> []"
    using new_back_step [OF inv, of "word_of_nat n"] inv own_invD(1) [OF inv]
    by (auto simp: owned_simps b1_def)
  have bk: "o_back b1 = ?s" using own_invD(1) [OF b(1)] b(5) by (rule o_back_last)
  have wf: "slice_wf ?s" using own_invD(3) [OF b(1)] b(5) by simp
  show ?thesis
  proof (cases "n \<le> reservableSize ?s")
    case True
    have "addFragments fs b = Inr (n, length_add n (o_set_back (snd (slice_append (concat fs) ?s)) b1))"
      using True fast_fragments_slice [OF wf, of fs]
      by (simp add: addFragments_def Let_def bk n slice_simps flip: n_def b1_def)
    also have "length_add n (o_set_back (snd (slice_append (concat fs) ?s)) b1) =
        append_round (concat fs) b1"
      using True by (simp add: append_round_def case_prod_beta bk slice_simps n min_absorb1
          del: length_concat)
    finally show ?thesis
      using append_round_step [OF b(1,5), of "concat fs"] b True
      by (auto simp: room_at_back_def n min_absorb1 n_def [symmetric]
          simp del: length_concat intro: keeps_books_trans)
  next
    case False
    have "length (concat fs) \<le> max_request" using len by (simp only: n n_def)
    from own_add_all_total [OF b(1) this] obtain b' where b':
      "own_add_all fs b1 = Inr b'" "own_inv b'" "content b' = content b1 @ concat fs"
      "keeps_books b1 b'" "immutables b' = immutables b1"
      by blast
    moreover have "addFragments fs b = res_bind (own_add_all fs b1) (\<lambda>b2. Inr (n, b2))"
      using False by (simp add: addFragments_def Let_def bk add_fragments_slow_eq slice_simps
          flip: n_def b1_def)
    ultimately show ?thesis
      using b unfolding n_def [symmetric] by (auto intro: keeps_books_trans)
  qed
qed

text \<open>Draining as much as there is leaves no slice.\<close>

lemma drain_all_empties:
  assumes "own_inv b" and "length (content b) \<le> n"
  shows "own_inv (own_drain n b)" "keeps_books b (own_drain n b)" "slist (own_drain n b) = []"
proof -
  let ?d = "own_drain n b"
  have nil: "content ?d = []" and front: "slist ?d \<noteq> [] \<Longrightarrow> dataSize (hd (slist ?d)) \<noteq> 0"
    using drainImpl_step [OF assms(1), of n] assms(2) by (simp_all add: own_drain_def)
  show inv: "own_inv ?d" "keeps_books b ?d"
    using drainImpl_step [OF assms(1), of n] by (simp_all add: own_drain_def)
  show "slist ?d = []"
  proof (rule ccontr)
    assume ne: "slist ?d \<noteq> []"
    then have "slice_wf (hd (slist ?d))" using own_invD(3) [OF inv(1)] by simp
    then have "length (slice_bytes (hd (slist ?d))) \<noteq> 0" using front [OF ne] by (simp add: length_slice_bytes)
    moreover have "slice_bytes (hd (slist ?d)) = []" using nil ne by (simp add: content_def)
    ultimately show False by simp
  qed
qed

end
