(* ===== verification/BufferRead.thy ===== *)
theory BufferRead
  imports BufferAdd
begin

text \<open>
  The const operations of \<open>OwnedImpl\<close>: \<open>length\<close>, \<open>copyOut\<close>, \<open>copyOutToSlices\<close>, \<open>getRawSlices\<close>,
  \<open>frontSlice\<close>, \<open>startsWith\<close>, \<open>toString\<close> and \<open>describeSlicesForTest\<close>. A pointer they return or
  write through is represented by the bytes it designates. \<open>for (const auto& slice : slices_)\<close>
  runs over \<open>slist b\<close>. The lemmas say that each is the corresponding function of \<open>content b\<close>.
\<close>

section \<open>Definitions\<close>

definition own_length :: "owned \<Rightarrow> u64 result" where
  "own_length b =
     (let len = sum_list (map (\<lambda>s. word_of_nat (dataSize s)) (slist b))
      in assert_then (len = o_length b) (Inr (o_length b)))"

fun copyOut_loop :: "slice list \<Rightarrow> nat \<Rightarrow> nat \<Rightarrow> byte list \<Rightarrow> nat \<times> byte list" where
  "copyOut_loop [] bytes_to_skip sz dest = (sz, dest)"
| "copyOut_loop (s # ss) bytes_to_skip sz dest =
     (if sz = 0 then (sz, dest)
      else let data_size = dataSize s in
        if data_size \<le> bytes_to_skip then copyOut_loop ss (bytes_to_skip - data_size) sz dest
        else let copy_size = min sz (data_size - bytes_to_skip)
             in copyOut_loop ss 0 (sz - copy_size)
                  (dest @ take copy_size (drop bytes_to_skip (slice_bytes s))))"

definition copyOut :: "nat \<Rightarrow> nat \<Rightarrow> owned \<Rightarrow> byte list result" where
  "copyOut start sz b =
     (let (left, dest) = copyOut_loop (slist b) start sz [] in assert_then (left = 0) (Inr dest))"

fun getRawSlices_loop :: "slice list \<Rightarrow> nat \<Rightarrow> byte list list \<Rightarrow> byte list list" where
  "getRawSlices_loop [] max_out raw_slices = raw_slices"
| "getRawSlices_loop (s # ss) max_out raw_slices =
     (if length raw_slices \<ge> max_out then raw_slices
      else if dataSize s = 0 then getRawSlices_loop ss max_out raw_slices
      else getRawSlices_loop ss max_out (raw_slices @ [slice_bytes s]))"

definition getRawSlices :: "nat option \<Rightarrow> owned \<Rightarrow> byte list list" where
  "getRawSlices max_slices b =
     (let max_out = (case max_slices of None \<Rightarrow> dq_size (o_slices b)
                     | Some m \<Rightarrow> min (dq_size (o_slices b)) m)
      in getRawSlices_loop (slist b) max_out [])"

fun frontSlice_loop :: "slice list \<Rightarrow> byte list option" where
  "frontSlice_loop [] = None"
| "frontSlice_loop (s # ss) = (if dataSize s > 0 then Some (slice_bytes s) else frontSlice_loop ss)"

definition frontSlice :: "owned \<Rightarrow> byte list option" where
  "frontSlice b = frontSlice_loop (slist b)"

definition own_toString :: "owned \<Rightarrow> byte list" where
  "own_toString b = concat (getRawSlices None b)"

definition own_add_instance :: "owned \<Rightarrow> owned \<Rightarrow> owned result" where
  "own_add_instance other b = own_add_all (getRawSlices None other) b"

fun startsWith_loop :: "slice list \<Rightarrow> byte list \<Rightarrow> bool" where
  "startsWith_loop [] prefix = False"
| "startsWith_loop (s # ss) prefix =
     (let slice_size = dataSize s in
      if slice_size \<ge> length prefix then prefix = take (length prefix) (slice_bytes s)
      else if take slice_size prefix \<noteq> slice_bytes s then False
      else startsWith_loop ss (drop slice_size prefix))"

definition startsWith :: "byte list \<Rightarrow> owned \<Rightarrow> bool result" where
  "startsWith prefix b =
     res_bind (own_length b) (\<lambda>len.
       if len < word_of_nat (length prefix) then Inr False
       else if length prefix = 0 then Inr True
       else Inr (startsWith_loop (slist b) prefix))"

definition describeSlicesForTest :: "owned \<Rightarrow> slice_representation list" where
  "describeSlicesForTest b = map describeSliceForTest (slist b)"

text \<open>A round of the loop below copies a byte or finishes a source or a destination slice.\<close>

lemma copy_progress:
  fixes ls ld left k soff doff ns nd nsrcs ndests :: nat
  assumes "ns < nsrcs" "nd < ndests" "bytes_read < tot"
    and "k = min (ls - soff) (min (ld - doff) (tot - bytes_read))"
    and "(if soff + k = ls then 0 else soff + k) \<le> ls" "(if doff + k = ld then 0 else doff + k) \<le> ld"
  shows "(tot - (bytes_read + k)) + (ndests - (if doff + k = ld then nd + 1 else nd)) +
      (nsrcs - (if soff + k = ls then ns + 1 else ns))
    < (tot - bytes_read) + (ndests - nd) + (nsrcs - ns)"
proof (cases "k = 0")
  case True
  then have "ls - soff = 0 \<or> ld - doff = 0" using assms(3,4) by (auto simp: min_def split: if_splits)
  then have "soff = ls \<or> doff = ld" using assms(5,6) True by (auto split: if_splits)
  then show ?thesis using True assms(1,2) by auto
next
  case False
  have "k \<le> tot - bytes_read" using assms(4) by linarith
  then show ?thesis using False assms(1,2,3) by auto
qed

text \<open>
  \<open>copyOutToSlices\<close>: \<open>dests\<close> are the destination blocks, \<open>len_\<close> bytes each. Reading
  \<open>slices_[i]\<close> past the end is undefined behaviour.
\<close>

function copyOutToSlices_loop ::
  "slice list \<Rightarrow> nat \<Rightarrow> byte list list \<Rightarrow> nat \<Rightarrow> nat \<Rightarrow> nat \<Rightarrow> nat \<Rightarrow> nat \<Rightarrow> (nat \<times> byte list list) result"
  where
  "copyOutToSlices_loop srcs tot dests bytes_read nd ns doff soff =
     (if nd < length dests \<and> bytes_read < tot then
        (if ns \<ge> length srcs then Inl Undefined_behaviour
         else
           let src_slice = srcs ! ns; dest_slice = dests ! nd;
               left_to_read = tot - bytes_read;
               left_dst = length dest_slice - doff;
               left_src = dataSize src_slice - soff;
               length_to_copy = min left_src (min left_dst left_to_read);
               dests1 = dests[nd := blit doff (take length_to_copy (drop soff (slice_bytes src_slice)))
                          dest_slice];
               soff1 = soff + length_to_copy; doff1 = doff + length_to_copy;
               ns2 = (if soff1 = dataSize src_slice then ns + 1 else ns);
               soff2 = (if soff1 = dataSize src_slice then 0 else soff1);
               nd2 = (if doff1 = length dest_slice then nd + 1 else nd);
               doff2 = (if doff1 = length dest_slice then 0 else doff1)
           in if soff2 \<le> dataSize src_slice \<and> doff2 \<le> length dest_slice
              then copyOutToSlices_loop srcs tot dests1 (bytes_read + length_to_copy) nd2 ns2 doff2 soff2
              else Inl Assert_failed)
      else Inr (bytes_read, dests))"
  by pat_completeness auto

termination
proof (relation "measure (\<lambda>(srcs, tot, dests, bytes_read, nd, ns, doff, soff).
        (tot - bytes_read) + (length dests - nd) + (length srcs - ns))", goal_cases)
  case 1
  show ?case by simp
next
  case 2
  note p = this
  show ?case
    unfolding in_measure prod.case p(9) length_list_update p(12) p(14) p(10) p(11)
  proof (rule copy_progress)
  qed (use p(1,2,16) in \<open>simp_all only: p(5-8,10,11,13,15) not_le\<close>)
qed

declare copyOutToSlices_loop.simps [simp del]

definition copyOutToSlices :: "nat \<Rightarrow> byte list list \<Rightarrow> owned \<Rightarrow> (nat \<times> byte list list) result" where
  "copyOutToSlices sz dests b =
     res_bind (own_length b) (\<lambda>len.
       copyOutToSlices_loop (slist b) (min sz (unat len)) dests 0 0 0 0 0)"

section \<open>As functions of the content\<close>

lemma sum_of_nat_word: "sum_list (map (\<lambda>s. word_of_nat (f s)) ss) = word_of_nat (sum_list (map f ss))"
  by (induction ss) auto

lemma sum_dataSize: "list_all slice_wf ss \<Longrightarrow>
    sum_list (map dataSize ss) = length (concat (map slice_bytes ss))"
  by (induction ss) (auto simp: length_slice_bytes)

lemma own_length_eq: "own_inv b \<Longrightarrow> own_length b = Inr (word_of_nat (length (content b)))"
  using own_invD(2,4) [of b]
  by (simp add: own_length_def sum_of_nat_word sum_dataSize content_def)

lemma copyOut_loop_eq:
  "list_all slice_wf ss \<Longrightarrow> copyOut_loop ss skip sz dest =
     (sz - (length (concat (map slice_bytes ss)) - skip),
      dest @ take sz (drop skip (concat (map slice_bytes ss))))"
proof (induction ss arbitrary: skip sz dest)
  case Nil
  then show ?case by simp
next
  case (Cons s ss)
  then have len: "length (slice_bytes s) = dataSize s" by (simp add: length_slice_bytes)
  show ?case
    using Cons by (auto simp: Let_def len min_def take_Cons' not_le)
qed

lemma copyOut_eq:
  assumes "own_inv b"
  shows "copyOut start sz b =
    (if sz = 0 \<or> start + sz \<le> length (content b)
     then Inr (take sz (drop start (content b))) else Inl Assert_failed)"
  using own_invD(2) [OF assms]
  by (cases "sz = 0 \<or> start + sz \<le> length (content b)")
    (auto simp: copyOut_def copyOut_loop_eq assert_then_def simp flip: content_def)

lemma getRawSlices_loop_eq:
  "getRawSlices_loop ss m acc =
     acc @ take (m - length acc) (map slice_bytes (filter (\<lambda>s. dataSize s \<noteq> 0) ss))"
  by (induction ss arbitrary: acc) (auto simp: not_le take_Cons' Suc_diff_Suc)

lemma getRawSlices_eq:
  "getRawSlices None b = map slice_bytes (filter (\<lambda>s. dataSize s \<noteq> 0) (slist b))"
  "getRawSlices (Some m) b = take m (map slice_bytes (filter (\<lambda>s. dataSize s \<noteq> 0) (slist b)))"
proof -
  have "length (filter (\<lambda>s. dataSize s \<noteq> 0) (slist b)) \<le> dq_size (o_slices b)"
    using length_filter_le [of _ "slist b"] by simp
  then show "getRawSlices None b = map slice_bytes (filter (\<lambda>s. dataSize s \<noteq> 0) (slist b))"
    "getRawSlices (Some m) b = take m (map slice_bytes (filter (\<lambda>s. dataSize s \<noteq> 0) (slist b)))"
    by (simp_all add: getRawSlices_def getRawSlices_loop_eq Let_def min_def)
qed

lemma concat_filter_nonempty:
  "list_all slice_wf ss \<Longrightarrow>
   concat (map slice_bytes (filter (\<lambda>s. dataSize s \<noteq> 0) ss)) = concat (map slice_bytes ss)"
  by (induction ss) (auto simp: slice_bytes_empty_iff)

lemmas concat_filter_positive = concat_filter_nonempty [unfolded neq0_conv]

lemma concat_getRawSlices: "own_inv b \<Longrightarrow> concat (getRawSlices None b) = content b"
  using own_invD(2) [of b] by (simp add: getRawSlices_eq concat_filter_positive content_def)

lemma own_toString_eq: "own_inv b \<Longrightarrow> own_toString b = content b"
  by (simp add: own_toString_def concat_getRawSlices)

lemma frontSlice_loop_eq:
  "frontSlice_loop ss =
    (case filter (\<lambda>s. dataSize s \<noteq> 0) ss of [] \<Rightarrow> None | s # _ \<Rightarrow> Some (slice_bytes s))"
  by (induction ss) auto

lemma startsWith_loop_eq:
  "list_all slice_wf ss \<Longrightarrow> length p \<le> length (concat (map slice_bytes ss)) \<Longrightarrow> p \<noteq> [] \<Longrightarrow>
   startsWith_loop ss p \<longleftrightarrow> take (length p) (concat (map slice_bytes ss)) = p"
proof (induction ss arbitrary: p)
  case Nil
  then show ?case by simp
next
  case (Cons s ss)
  then have len: "length (slice_bytes s) = dataSize s" by (simp add: length_slice_bytes)
  show ?case
  proof (cases "length p \<le> dataSize s")
    case True
    then show ?thesis using len by (auto simp: Let_def)
  next
    case False
    let ?p = "drop (dataSize s) p"
    have IH: "startsWith_loop ss ?p \<longleftrightarrow> take (length ?p) (concat (map slice_bytes ss)) = ?p"
      using Cons False len by (intro Cons.IH) auto
    have "startsWith_loop (s # ss) p \<longleftrightarrow>
        take (dataSize s) p = slice_bytes s \<and> take (length ?p) (concat (map slice_bytes ss)) = ?p"
      using False IH by (simp add: Let_def)
    also have "\<dots> \<longleftrightarrow> slice_bytes s @ take (length ?p) (concat (map slice_bytes ss)) = p"
      by (simp only: append_eq_conv_conj len eq_commute [of "slice_bytes s"])
    also have "slice_bytes s @ take (length ?p) (concat (map slice_bytes ss)) =
        take (length p) (concat (map slice_bytes (s # ss)))"
      using False len by simp
    finally show ?thesis .
  qed
qed

lemma startsWith_eq:
  assumes inv: "own_inv b" and len: "length (content b) < 2 ^ 64" "length p < 2 ^ 64"
  shows "startsWith p b = Inr (take (length p) (content b) = p)"
proof -
  have "unat (word_of_nat (length (content b)) :: u64) = length (content b)"
    and "unat (word_of_nat (length p) :: u64) = length p"
    using len by (simp_all only: unat_le_of_nat)
  then have less: "(word_of_nat (length (content b)) :: u64) < word_of_nat (length p) \<longleftrightarrow>
      length (content b) < length p"
    by (simp only: word_less_nat_alt)
  have eq: "startsWith p b = Inr (if length (content b) < length p then False
      else if length p = 0 then True else startsWith_loop (slist b) p)"
    by (simp only: startsWith_def own_length_eq [OF inv] res_bind_simps less if_distrib [of Inr])
  have loop: "length p \<le> length (content b) \<Longrightarrow> p \<noteq> [] \<Longrightarrow>
      startsWith_loop (slist b) p = (take (length p) (content b) = p)"
    using startsWith_loop_eq [OF own_invD(2) [OF inv], of p] unfolding content_def by blast
  show ?thesis
  proof (cases "length (content b) < length p")
    case True
    then have "take (length p) (content b) \<noteq> p"
      by (metis length_take min.strict_order_iff min.commute less_irrefl)
    with True show ?thesis by (simp only: eq if_True)
  next
    case False
    then show ?thesis unfolding eq using loop by (cases "p = []") simp_all
  qed
qed

section \<open>copyOutToSlices\<close>

text \<open>A write into block \<open>i\<close> of a list of blocks is a write into their concatenation.\<close>

lemma concat_blit_nth:
  assumes "i < length ds" and "off + length xs \<le> length (ds ! i)"
  shows "concat (ds[i := blit off xs (ds ! i)]) = blit (length (concat (take i ds)) + off) xs (concat ds)"
proof -
  let ?A = "concat (take i ds)" let ?B = "concat (drop (Suc i) ds)"
  have ds: "concat ds = ?A @ ds ! i @ ?B"
    using assms(1) by (subst id_take_nth_drop [of i ds]) simp_all
  have "concat (ds[i := blit off xs (ds ! i)]) = ?A @ blit off xs (ds ! i) @ ?B"
    using assms(1) by (simp add: upd_conv_take_nth_drop)
  also have "\<dots> = blit (length ?A + off) xs (?A @ ds ! i @ ?B)"
    using assms(2) by (simp add: blit_def)
  finally show ?thesis by (simp only: ds)
qed

lemma length_concat_take:
  "i < length ds \<Longrightarrow> length (concat (take (Suc i) ds)) = length (concat (take i ds)) + length (ds ! i)"
  by (simp add: take_Suc_conv_app_nth)

lemma take_drop_concat_nth:
  assumes "i < length vs" and "off + k \<le> length (vs ! i)"
  shows "take k (drop (length (concat (take i vs)) + off) (concat vs)) = take k (drop off (vs ! i))"
proof -
  have "concat vs = concat (take i vs) @ vs ! i @ concat (drop (Suc i) vs)"
    using assms(1) by (subst id_take_nth_drop [of i vs]) simp_all
  then show ?thesis using assms(2) by simp
qed

text \<open>What holds at the head of the loop; \<open>vs\<close> are the bytes of the source slices.\<close>

definition cots_inv where
  "cots_inv vs ds0 tot dests bytes_read nd ns doff soff \<longleftrightarrow>
     ns \<le> length vs \<and> bytes_read = length (concat (take ns vs)) + soff
     \<and> soff \<le> (if ns < length vs then length (vs ! ns) else 0)
     \<and> nd \<le> length dests \<and> bytes_read = length (concat (take nd dests)) + doff
     \<and> doff \<le> (if nd < length dests then length (dests ! nd) else 0)
     \<and> map length dests = map length (ds0 :: byte list list) \<and> bytes_read \<le> tot
     \<and> concat dests = take bytes_read (concat vs) @ drop bytes_read (concat ds0)"

lemma cots_inv_step:
  assumes inv: "cots_inv vs ds0 tot dests bytes_read nd ns doff soff"
    and go: "nd < length dests" "ns < length vs"
  defines "k \<equiv> min (length (vs ! ns) - soff) (min (length (dests ! nd) - doff) (tot - bytes_read))"
  shows "cots_inv vs ds0 tot
    (dests[nd := blit doff (take k (drop soff (vs ! ns))) (dests ! nd)]) (bytes_read + k)
    (if doff + k = length (dests ! nd) then nd + 1 else nd)
    (if soff + k = length (vs ! ns) then ns + 1 else ns)
    (if doff + k = length (dests ! nd) then 0 else doff + k)
    (if soff + k = length (vs ! ns) then 0 else soff + k)"
proof -
  let ?xs = "take k (drop soff (vs ! ns))"
  let ?ds = "dests[nd := blit doff ?xs (dests ! nd)]"
  note I = inv [unfolded cots_inv_def]
  have le: "soff + k \<le> length (vs ! ns)" "doff + k \<le> length (dests ! nd)" "bytes_read + k \<le> tot"
    using I go unfolding k_def by (auto simp: min_def)
  have lx: "length ?xs = k" using le(1) by simp
  then have lb: "length (blit doff ?xs (dests ! nd)) = length (dests ! nd)"
    using le(2) by simp
  have ml: "map length ?ds = map length dests"
    using go(1) lb by (simp add: map_update list_update_same_conv)
  have tk: "take nd ?ds = take nd dests" by simp
  have cont: "concat ?ds = take (bytes_read + k) (concat vs) @ drop (bytes_read + k) (concat ds0)"
  proof -
    have br: "bytes_read = length (concat (take nd dests)) + doff" "bytes_read = length (concat (take ns vs)) + soff"
      using I by blast+
    have "concat ?ds = blit bytes_read ?xs (concat dests)"
      using concat_blit_nth [OF go(1), of doff ?xs] le(2) unfolding lx br(1) by blast
    moreover have "?xs = take k (drop bytes_read (concat vs))"
      using take_drop_concat_nth [OF go(2) le(1)] unfolding br(2) by simp
    moreover have "bytes_read \<le> length (concat vs)"
    proof -
      have "concat vs = concat (take ns vs) @ vs ! ns @ concat (drop (Suc ns) vs)"
        using go(2) by (subst id_take_nth_drop [of ns vs]) simp_all
      then have "length (concat vs) = length (concat (take ns vs)) + length (vs ! ns)
          + length (concat (drop (Suc ns) vs))" by simp
      with le(1) show ?thesis unfolding br(2) by linarith
    qed
    moreover have "length (concat ds0) = length (concat dests)"
    proof -
      have "map length dests = map length ds0" using I by blast
      then show ?thesis by (simp only: length_concat)
    qed
    ultimately have "concat ?ds = take bytes_read (concat dests) @
        take k (drop bytes_read (concat vs)) @ drop (bytes_read + k) (concat dests)"
      and "bytes_read \<le> length (concat vs)"
      using lx by (simp_all only: blit_def)
    moreover have D: "concat dests = take bytes_read (concat vs) @ drop bytes_read (concat ds0)"
      using I by blast
    ultimately show ?thesis
      unfolding D take_add by (simp add: add.commute del: concat_blit_nth)
  qed
  show ?thesis
    unfolding cots_inv_def
    using I go le lb by (auto simp: length_concat_take ml cont simp del: length_blit)
qed

lemma copyOutToSlices_loop_inv:
  assumes wf: "list_all slice_wf srcs" and tot: "tot \<le> length (concat (map slice_bytes srcs))"
    and inv: "cots_inv (map slice_bytes srcs) ds0 tot dests bytes_read nd ns doff soff"
  shows "\<exists>ds. copyOutToSlices_loop srcs tot dests bytes_read nd ns doff soff
      = Inr (min tot (length (concat ds0)), ds)
    \<and> concat ds = take (min tot (length (concat ds0))) (concat (map slice_bytes srcs))
        @ drop (min tot (length (concat ds0))) (concat ds0)"
  using inv
proof (induction "(tot - bytes_read) + (length dests - nd) + (length srcs - ns)"
    arbitrary: dests bytes_read nd ns doff soff rule: less_induct)
  case less
  let ?vs = "map slice_bytes srcs"
  note I = less.prems [unfolded cots_inv_def]
  have "map length dests = map length ds0" using I by blast
  then have same_len: "length (concat dests) = length (concat ds0)" by (simp only: length_concat)
  show ?case
  proof (cases "nd < length dests \<and> bytes_read < tot")
    case True
    have ns: "ns < length srcs"
    proof (rule ccontr)
      assume "\<not> ns < length srcs"
      then have "bytes_read = length (concat ?vs)" using I by auto
      with True tot show False by simp
    qed
    define k where "k = min (length (?vs ! ns) - soff) (min (length (dests ! nd) - doff) (tot - bytes_read))"
    have ds: "length (?vs ! ns) = dataSize (srcs ! ns)" "?vs ! ns = slice_bytes (srcs ! ns)"
      using ns wf by (simp_all add: length_slice_bytes list_all_length)
    have le: "soff \<le> length (?vs ! ns)" "doff \<le> length (dests ! nd)"
      using I True ns by auto
    let ?ds = "dests[nd := blit doff (take k (drop soff (slice_bytes (srcs ! ns)))) (dests ! nd)]"
    have step: "cots_inv ?vs ds0 tot ?ds (bytes_read + k)
        (if doff + k = length (dests ! nd) then nd + 1 else nd)
        (if soff + k = length (?vs ! ns) then ns + 1 else ns)
        (if doff + k = length (dests ! nd) then 0 else doff + k)
        (if soff + k = length (?vs ! ns) then 0 else soff + k)"
      using cots_inv_step [OF less.prems, folded k_def] True ns by (simp add: ds)
    have smaller: "(tot - (bytes_read + k)) +
        (length ?ds - (if doff + k = length (dests ! nd) then nd + 1 else nd)) +
        (length srcs - (if soff + k = length (?vs ! ns) then ns + 1 else ns))
      < (tot - bytes_read) + (length dests - nd) + (length srcs - ns)"
      unfolding length_list_update
      by (rule copy_progress [OF ns _ _ k_def]) (use True le in \<open>auto simp: k_def min_def\<close>)
    have "copyOutToSlices_loop srcs tot dests bytes_read nd ns doff soff =
        copyOutToSlices_loop srcs tot ?ds (bytes_read + k)
          (if doff + k = length (dests ! nd) then nd + 1 else nd)
          (if soff + k = length (?vs ! ns) then ns + 1 else ns)
          (if doff + k = length (dests ! nd) then 0 else doff + k)
          (if soff + k = length (?vs ! ns) then 0 else soff + k)"
    proof -
      have c1: "(nd < length dests \<and> bytes_read < tot) = True" using True by blast
      have c2: "(length srcs \<le> ns) = False" using ns by simp
      have k: "min (dataSize (srcs ! ns) - soff) (min (length (dests ! nd) - doff) (tot - bytes_read)) = k"
        by (simp only: k_def ds(1))
      have "soff + k \<le> dataSize (srcs ! ns)" "doff + k \<le> length (dests ! nd)"
        using le unfolding k [symmetric] ds(1) by linarith+
      then have c3: "((if soff + k = dataSize (srcs ! ns) then 0 else soff + k) \<le> dataSize (srcs ! ns) \<and>
          (if doff + k = length (dests ! nd) then 0 else doff + k) \<le> length (dests ! nd)) = True"
        by simp
      show ?thesis
        by (subst copyOutToSlices_loop.simps) (simp only: c1 c2 Let_def k c3 if_True if_False ds(1))
    qed
    with less.hyps [OF smaller step] show ?thesis by simp
  next
    case False
    then have "copyOutToSlices_loop srcs tot dests bytes_read nd ns doff soff = Inr (bytes_read, dests)"
      by (subst copyOutToSlices_loop.simps) (simp only: False if_False)
    moreover have "bytes_read = min tot (length (concat ds0))"
    proof -
      have le: "length (concat (take nd dests)) + doff \<le> length (concat dests)"
      proof (cases "nd < length dests")
        case True
        then have "concat dests = concat (take nd dests) @ dests ! nd @ concat (drop (Suc nd) dests)"
          by (subst id_take_nth_drop [of nd dests]) simp_all
        then have "length (concat dests) = length (concat (take nd dests)) + length (dests ! nd)
            + length (concat (drop (Suc nd) dests))" by simp
        with True I show ?thesis by simp
      next
        case False
        then show ?thesis using I by simp
      qed
      show ?thesis
      proof (cases "nd < length dests")
        case True
        with False I le same_len show ?thesis by (auto simp: min_def)
      next
        case nd: False
        have "bytes_read = length (concat (take nd dests)) + doff" "nd \<le> length dests"
          "doff \<le> (if nd < length dests then length (dests ! nd) else 0)"
          using I by blast+
        with nd have "bytes_read = length (concat dests)" by simp
        with I same_len show ?thesis by (auto simp: min_def)
      qed
    qed
    ultimately show ?thesis using I by auto
  qed
qed

lemma copyOutToSlices_eq:
  fixes sz :: nat and dests :: "byte list list"
  assumes inv: "own_inv b" and len: "length (content b) < 2 ^ 64"
  defines "n \<equiv> min (min sz (length (content b))) (length (concat dests))"
  shows "\<exists>ds. copyOutToSlices sz dests b = Inr (n, ds)
    \<and> concat ds = take n (content b) @ drop n (concat dests)"
proof -
  have u: "unat (word_of_nat (length (content b)) :: u64) = length (content b)"
    using len by (rule unat_le_of_nat)
  have "cots_inv (map slice_bytes (slist b)) dests (min sz (length (content b))) dests 0 0 0 0 0"
    by (simp add: cots_inv_def)
  from copyOutToSlices_loop_inv [OF own_invD(2) [OF inv] _ this] show ?thesis
    by (simp only: copyOutToSlices_def own_length_eq [OF inv] res_bind_simps u n_def)
      (simp add: content_def)
qed

end
