(* ===== verification/BufferMove.thy ===== *)
theory BufferMove
  imports BufferRead
begin

text \<open>
  The operations of \<open>OwnedImpl\<close> that move slices: \<open>prepend(Instance&)\<close>, \<open>coalesceOrAddSlice\<close>,
  \<open>move\<close> (whole buffer and by length), \<open>extractMutableFrontSlice\<close> and \<open>linearize\<close>. An operation
  on two buffers takes and returns both; the theorems state what it conserves across the pair.
\<close>

section \<open>Definitions\<close>

definition CopyThreshold :: nat where
  "CopyThreshold = 512"

text \<open>\<open>slices_.emplace_front(std::move(other.slices_.back())); other.slices_.pop_back()\<close>\<close>

definition prepend_slice_step :: "owned \<Rightarrow> owned \<Rightarrow> owned \<times> owned" where
  "prepend_slice_step b other =
     (let s = o_back other; slice_size = dataSize s;
          b1 = length_add slice_size b;
          b2 = o_emplace_front s b1;
          other1 = o_set_back empty_slice other;
          (s', ev) = maybeChargeAccount (o_account b2) (o_front b2);
          b3 = o_log ev (o_set_front s' b2);
          other2 = length_sub slice_size (o_pop_back other1)
      in (b3, other2))"

lemma dq_size_set [simp]: "dq_size (dq_set_nth i s d) = dq_size d"
  by (simp add: dq_set_nth_def)

lemma dq_size_o_pop_back: "dq_size (o_slices (o_pop_back b)) = dq_size (o_slices b) - 1"
  by (simp add: o_pop_back_def o_log_def pop_back_def case_prod_beta Let_def)

function prepend_instance :: "owned \<Rightarrow> owned \<Rightarrow> owned \<times> owned" where
  "prepend_instance b other =
     (if o_empty other then (b, other)
      else let p = prepend_slice_step b other in prepend_instance (fst p) (snd p))"
  by pat_completeness auto
termination
  by (relation "measure (\<lambda>(b, other). dq_size (o_slices other))")
    (simp_all add: prepend_slice_step_def case_prod_beta Let_def length_sub_def
      dq_size_o_pop_back o_set_back_def o_empty_def dq_empty_def)

text \<open>
  \<open>coalesceOrAddSlice(std::move(s))\<close>: the new buffer and what is left of the slice (emptied
  when its ownership is taken; without its trackers when it was copied).
\<close>

definition coalesceOrAddSlice :: "slice \<Rightarrow> owned \<Rightarrow> (owned \<times> slice) result" where
  "coalesceOrAddSlice s b =
     (let slice_size = dataSize s in
      if canCoalesce s \<and> \<not> o_empty b \<and> slice_size < CopyThreshold
         \<and> reservableSize (o_back b) \<ge> slice_size
      then res_bind (addImpl (slice_bytes s) b) (\<lambda>b1.
             let (s1, back1) = transferDrainTrackersTo s (o_back b1)
             in Inr (o_set_back back1 b1, s1))
      else let (s1, ev) = maybeChargeAccount (o_account b) s
           in Inr (length_add slice_size (o_emplace_back s1 (o_log ev b)), empty_slice))"

text \<open>One round of \<open>move(rhs)\<close>: the front slice of \<open>other\<close> goes to \<open>b\<close> and is popped.\<close>

definition move_slice_step :: "owned \<Rightarrow> owned \<Rightarrow> (owned \<times> owned) result" where
  "move_slice_step b other =
     (let s = o_front other; slice_size = dataSize s in
      res_bind (coalesceOrAddSlice s b) (\<lambda>(b1, s1).
        Inr (b1, o_pop_front (length_sub slice_size (o_set_front s1 other)))))"

lemma move_slice_step_size:
  "move_slice_step b other = Inr (b', other') \<Longrightarrow>
   dq_size (o_slices other') = dq_size (o_slices other) - 1"
  by (auto simp: move_slice_step_def Let_def res_bind_Inr_iff dq_size_o_pop_front length_sub_def
      o_set_front_def)

function own_move :: "owned \<Rightarrow> owned \<Rightarrow> (owned \<times> owned) result" where
  "own_move b other =
     (if o_empty other then Inr (b, other)
      else case move_slice_step b other of
          Inl e \<Rightarrow> Inl e
        | Inr (b1, other1) \<Rightarrow> own_move b1 other1)"
  by pat_completeness auto
termination
  by (relation "measure (\<lambda>(b, other). dq_size (o_slices other))")
    (auto simp: move_slice_step_size o_empty_def dq_empty_def)

text \<open>One round of \<open>move(rhs, length)\<close>: the buffers and the number of bytes it dealt with.\<close>

definition move_length_step :: "nat \<Rightarrow> owned \<Rightarrow> owned \<Rightarrow> (owned \<times> owned \<times> nat) result" where
  "move_length_step len b other =
     (let s = o_front other; slice_size = dataSize s; copy_size = min slice_size len in
      if copy_size = 0 then Inr (b, o_pop_front other, copy_size)
      else if copy_size < slice_size then
        res_bind (own_add (take copy_size (slice_bytes s)) b) (\<lambda>b1.
          Inr (b1, length_sub copy_size (o_set_front (slice_drain copy_size s) other), copy_size))
      else
        res_bind (coalesceOrAddSlice s b) (\<lambda>(b1, s1).
          Inr (b1, length_sub slice_size (o_pop_front (o_set_front s1 other)), copy_size)))"

lemma move_length_step_size:
  assumes "move_length_step len b other = Inr (b', other', n)" "0 < len"
  shows "n \<le> len" "n = 0 \<or> n = dataSize (o_front other) \<Longrightarrow>
      dq_size (o_slices other') = dq_size (o_slices other) - 1"
    "n \<noteq> 0 \<and> n \<noteq> dataSize (o_front other) \<Longrightarrow>
      dq_size (o_slices other') = dq_size (o_slices other) \<and> n = len"
  using assms
  by (auto simp: move_length_step_def Let_def res_bind_Inr_iff dq_size_o_pop_front length_sub_def
      o_set_front_def split: if_splits)

function own_move_length :: "owned \<Rightarrow> owned \<Rightarrow> nat \<Rightarrow> (owned \<times> owned) result" where
  "own_move_length b other len =
     (if len \<noteq> 0 \<and> \<not> o_empty other
      then case move_length_step len b other of
          Inl e \<Rightarrow> Inl e
        | Inr (b1, other1, copy_size) \<Rightarrow> own_move_length b1 other1 (len - copy_size)
      else Inr (b, other))"
  by pat_completeness auto
termination
proof (relation "measures [\<lambda>(b, other, len). dq_size (o_slices other), \<lambda>(b, other, len). len]",
    goal_cases)
  case (2 b other len p b1 q other1 n)
  then have "move_length_step len b other = Inr (b1, other1, n)" "0 < len"
    and "0 < dq_size (o_slices other)" by (auto simp: o_empty_def dq_empty_def)
  with move_length_step_size [OF this(1,2)] show ?case
    by (cases "n = 0 \<or> n = dataSize (o_front other)") auto
qed simp

declare prepend_instance.simps [simp del] own_move.simps [simp del] own_move_length.simps [simp del]

text \<open>
  \<open>extractMutableFrontSlice\<close>: the slice given to the caller (\<open>SliceDataImpl\<close>) and the buffer.
\<close>

definition extractMutableFrontSlice :: "owned \<Rightarrow> (slice \<times> owned) result" where
  "extractMutableFrontSlice b =
     release_assert_then (o_length b > 0)
       (let b1 = pop_empty_front b in
        assert_then (\<not> o_empty b1)
          (let s = o_front b1; sz = dataSize s;
               b2 = o_pop_front (length_sub sz (o_set_front empty_slice b1))
           in if \<not> isMutable s then
                let (fresh, ev) = slice_new (word_of_nat sz) None;
                    (copy_size, mutable_slice) = slice_append (slice_bytes s) fresh
                in assert_then (copy_size = sz)
                     (Inr (mutable_slice, o_log (ev @ release_events s) b2))
              else
                let (s1, ev) = callAndClearDrainTrackersAndCharges s
                in Inr (s1, o_log ev b2)))"

text \<open>
  \<open>SliceDataImpl\<close>, what the caller holds of a slice: the bytes it may write to, as where they are and how many; the
  assertion that the slice is mutable is commented out.
\<close>

definition SliceDataImpl_new :: "slice \<Rightarrow> slice" where
  "SliceDataImpl_new s = s"

definition getMutableData :: "slice \<Rightarrow> nat \<times> nat" where
  "getMutableData s = (s_data s, dataSize s)"

text \<open>
  \<open>linearize\<close>: the pointer it returns, as the bytes of the front slice (\<open>None\<close>: null), and the
  buffer. Its argument is a \<open>uint32_t\<close>.
\<close>

definition linearize :: "u32 \<Rightarrow> owned \<Rightarrow> (byte list option \<times> owned) result" where
  "linearize size32 b =
     (let sz = unat size32 in
      res_bind (own_length b) (\<lambda>len.
        release_assert_then (word_of_nat sz \<le> len)
          (if o_empty b then Inr (None, b)
           else if dataSize (dq_nth (o_slices b) 0) < sz then
             let (new_slice, ev) = slice_new (word_of_nat sz) (o_account b);
                 b1 = o_log ev b;
                 reservation = slice_reserve sz new_slice
             in assert_then (rs_mem reservation \<noteq> Null_ptr)
                  (assert_then (rs_len reservation = sz)
                    (res_bind (copyOut 0 sz b1) (\<lambda>bytes.
                      let filled = slice_write (ptr_offset (rs_mem reservation)) bytes new_slice;
                          (ok, new_slice1) = slice_commit_safe reservation filled;
                          b2 = length_add sz (o_emplace_front new_slice1 (drainImpl sz b1))
                      in Inr (Some (slice_bytes (o_front b2)), b2))))
           else Inr (Some (slice_bytes (o_front b)), b))))"

section \<open>What moving a slice conserves\<close>

definition keeps_joint_books :: "owned \<Rightarrow> owned \<Rightarrow> owned \<Rightarrow> owned \<Rightarrow> bool" where
  "keeps_joint_books b c b' c' \<longleftrightarrow> o_account b' = o_account b \<and> o_account c' = o_account c
     \<and> tracker_total b' + tracker_total c' = tracker_total b + tracker_total c
     \<and> (\<forall>a. acct_gap b' a + acct_gap c' a = acct_gap b a + acct_gap c a)"

lemma keeps_joint_books_refl [simp, intro]: "keeps_joint_books b c b c"
  by (simp add: keeps_joint_books_def)

lemma keeps_joint_books_trans:
  "keeps_joint_books b c b' c' \<Longrightarrow> keeps_joint_books b' c' b'' c'' \<Longrightarrow> keeps_joint_books b c b'' c''"
  by (simp add: keeps_joint_books_def)

lemma held_by_empty_slice [simp]: "held_by a empty_slice = 0"
  by (simp add: held_by_def)

lemma length_sub_pop: "length_sub n (o_pop_front b) = o_pop_front (length_sub n b)"
  by (simp add: length_sub_def o_pop_front_def o_log_def case_prod_beta)

text \<open>The front slice \<open>s\<close> leaves: what is left of it (\<open>s1\<close>) is destroyed with its slot.\<close>

lemma front_leaves_step:
  fixes s1 :: slice
  assumes inv: "own_inv c" and cons: "slist c = s # t"
  defines "c' \<equiv> o_pop_front (length_sub (dataSize s) (o_set_front s1 c))"
  shows "own_inv c'" "content c' = drop (dataSize s) (content c)" "slist c' = t"
    "o_account c' = o_account c"
    "tracker_total c' + mset (s_trackers s) = tracker_total c + mset (s_trackers s1)"
    "acct_gap c' a + held_by a s1 = acct_gap c a + held_by a s"
proof -
  note dq = own_invD [OF inv]
  have ne: "slist c \<noteq> []" using cons by simp
  have sel: "dq_wf (o_slices c')" "o_length c' = o_length c - word_of_nat (dataSize s)"
    "o_account c' = o_account c" "o_trace c' = o_trace c @ release_events s1" "slist c' = t"
    using dq(1) ne cons by (simp_all add: c'_def owned_simps)
  have len: "length (slice_bytes s) = dataSize s"
    using dq(3) cons by (simp add: length_slice_bytes)
  then show cont: "content c' = drop (dataSize s) (content c)"
    by (simp add: content_def sel cons)
  have "length (content c) = dataSize s + length (content c')"
    using len by (simp add: content_def sel cons)
  then show "own_inv c'" using dq(2,4) by (simp add: own_inv_def sel cons)
  show "tracker_total c' + mset (s_trackers s) = tracker_total c + mset (s_trackers s1)"
    by (simp add: tracker_total_def sel cons ac_simps)
  show "acct_gap c' a + held_by a s1 = acct_gap c a + held_by a s"
    by (simp add: acct_gap_def sel cons)
  show "slist c' = t" "o_account c' = o_account c" by (simp_all add: sel)
qed

lemma maybeChargeAccount_sel:
  "slice_wf (fst (maybeChargeAccount acct s)) = slice_wf s"
  "slice_bytes (fst (maybeChargeAccount acct s)) = slice_bytes s"
  "s_trackers (fst (maybeChargeAccount acct s)) = s_trackers s"
  "dataSize (fst (maybeChargeAccount acct s)) = dataSize s"
  "called (snd (maybeChargeAccount acct s)) = []"
  "balance a (snd (maybeChargeAccount acct s)) = held_by a (fst (maybeChargeAccount acct s)) - held_by a s"
  by (auto simp: maybeChargeAccount_def slice_wf_def slice_bytes_def dataSize_def held_by_def)

text \<open>A slice is taken over at the back.\<close>

lemma take_over_step:
  assumes inv: "own_inv b" and wf: "slice_wf s"
  defines "m \<equiv> maybeChargeAccount (o_account b) s"
  defines "b' \<equiv> length_add (dataSize s) (o_emplace_back (fst m) (o_log (snd m) b))"
  shows "own_inv b'" "content b' = content b @ slice_bytes s" "o_account b' = o_account b"
    "tracker_total b' = tracker_total b + mset (s_trackers s)"
    "acct_gap b' a + held_by a s = acct_gap b a"
proof -
  note dq = own_invD [OF inv] note m = maybeChargeAccount_sel [where acct = "o_account b" and s = s, folded m_def]
  have sel: "dq_wf (o_slices b')" "o_length b' = o_length b + word_of_nat (dataSize s)"
    "o_account b' = o_account b" "o_trace b' = o_trace b @ snd m" "slist b' = slist b @ [fst m]"
    using dq(1) by (simp_all add: b'_def owned_simps)
  show cont: "content b' = content b @ slice_bytes s"
    by (simp add: content_def sel m)
  then show "own_inv b'"
    using dq(2,4) wf by (simp add: own_inv_def sel m length_slice_bytes)
  show "tracker_total b' = tracker_total b + mset (s_trackers s)"
    by (simp add: tracker_total_def sel m)
  show "acct_gap b' a + held_by a s = acct_gap b a"
    by (simp add: acct_gap_def sel m)
  show "o_account b' = o_account b" by (rule sel)
qed

lemma coalesceOrAddSlice_total:
  assumes inv: "own_inv b" and wf: "slice_wf s"
  shows "\<exists>b1 s1. coalesceOrAddSlice s b = Inr (b1, s1) \<and> own_inv b1
    \<and> content b1 = content b @ slice_bytes s \<and> o_account b1 = o_account b
    \<and> tracker_total b1 + mset (s_trackers s1) = tracker_total b + mset (s_trackers s)
    \<and> (\<forall>a. acct_gap b1 a + held_by a s = acct_gap b a + held_by a s1)"
proof (cases "canCoalesce s \<and> \<not> o_empty b \<and> dataSize s < CopyThreshold
         \<and> reservableSize (o_back b) \<ge> dataSize s")
  case True
  then have ne: "slist b \<noteq> []" and small: "length (slice_bytes s) \<le> max_request"
    using length_slice_bytes [OF wf]
    by (auto simp: o_empty_iff CopyThreshold_def max_request_def)
  obtain b1 where b1: "addImpl (slice_bytes s) b = Inr b1" "own_inv b1"
    "content b1 = content b @ slice_bytes s" "keeps_books b b1"
    using addImpl_total [OF inv small] by blast
  have ne1: "slist b1 \<noteq> []"
  proof (cases "slice_bytes s = []")
    case True
    then show ?thesis using b1(1) ne by (simp add: addImpl_def)
  next
    case False
    then have "content b1 \<noteq> []" using b1(3) by simp
    then show ?thesis by (auto simp: content_def)
  qed
  have bk: "o_back b1 = last (slist b1)" using own_invD(1) [OF b1(2)] ne1 by (rule o_back_last)
  note add = add_trackers_step [OF b1(2) ne1 refl, of "s_trackers s"]
  have "coalesceOrAddSlice s b = Inr (o_set_back ((last (slist b1))
      \<lparr>s_trackers := s_trackers (last (slist b1)) @ s_trackers s\<rparr>) b1, s\<lparr>s_trackers := []\<rparr>)"
    using True by (simp add: coalesceOrAddSlice_def b1(1) bk transferDrainTrackersTo_def)
  with add b1 show ?thesis
    by (auto simp: keeps_books_def held_by_def)
next
  case False
  then have "coalesceOrAddSlice s b = Inr (length_add (dataSize s)
      (o_emplace_back (fst (maybeChargeAccount (o_account b) s))
        (o_log (snd (maybeChargeAccount (o_account b) s)) b)), empty_slice)"
    by (auto simp: coalesceOrAddSlice_def case_prod_beta Let_def)
  with take_over_step [OF inv wf] show ?thesis by simp
qed

lemma move_slice_step_total:
  assumes b: "own_inv b" and c: "own_inv c" and cons: "slist c = s # t"
  shows "\<exists>b' c'. move_slice_step b c = Inr (b', c') \<and> own_inv b' \<and> own_inv c'
    \<and> content b' = content b @ slice_bytes s \<and> content c' = concat (map slice_bytes t)
    \<and> slist c' = t \<and> keeps_joint_books b c b' c'"
proof -
  have wf: "slice_wf s" and front: "o_front c = s"
    using own_invD(1,3) [OF c] cons by (simp_all add: o_front_hd)
  obtain b1 s1 where co: "coalesceOrAddSlice s b = Inr (b1, s1)" "own_inv b1"
    "content b1 = content b @ slice_bytes s" "o_account b1 = o_account b"
    "tracker_total b1 + mset (s_trackers s1) = tracker_total b + mset (s_trackers s)"
    "\<And>a. acct_gap b1 a + held_by a s = acct_gap b a + held_by a s1"
    using coalesceOrAddSlice_total [OF b wf] by blast
  let ?c = "o_pop_front (length_sub (dataSize s) (o_set_front s1 c))"
  note fl = front_leaves_step [OF c cons, of s1]
  have "tracker_total b1 + tracker_total ?c + (mset (s_trackers s1) + mset (s_trackers s)) =
      tracker_total b + tracker_total c + (mset (s_trackers s1) + mset (s_trackers s))"
    using arg_cong2 [OF co(5) fl(5), of "(+)"] by (simp add: ac_simps)
  then have tt: "tracker_total b1 + tracker_total ?c = tracker_total b + tracker_total c" by simp
  have gap: "acct_gap b1 a + acct_gap ?c a = acct_gap b a + acct_gap c a" for a
    using co(6) [of a] fl(6) [of a] by linarith
  have "content ?c = concat (map slice_bytes t)" by (simp add: content_def fl(3))
  with fl co tt gap show ?thesis
    by (simp add: move_slice_step_def front keeps_joint_books_def)
qed

lemma own_move_total:
  "own_inv b \<Longrightarrow> own_inv c \<Longrightarrow>
   \<exists>b' c'. own_move b c = Inr (b', c') \<and> own_inv b' \<and> own_inv c'
     \<and> content b' = content b @ content c \<and> slist c' = [] \<and> keeps_joint_books b c b' c'"
proof (induction "slist c" arbitrary: b c)
  case Nil
  then show ?case by (subst own_move.simps) (simp add: o_empty_iff content_def)
next
  case (Cons s t)
  obtain b1 c1 where step: "move_slice_step b c = Inr (b1, c1)" "own_inv b1" "own_inv c1"
    "content b1 = content b @ slice_bytes s" "slist c1 = t" "keeps_joint_books b c b1 c1"
    using move_slice_step_total [OF Cons.prems Cons.hyps(2) [symmetric]] by blast
  have "own_move b c = own_move b1 c1"
    using Cons.hyps(2) [symmetric] by (subst own_move.simps) (simp add: o_empty_iff step(1))
  moreover have "content c = slice_bytes s @ content c1"
    using Cons.hyps(2) [symmetric] step(5) by (simp add: content_def)
  ultimately show ?case
    using Cons.hyps(1) [OF step(5) [symmetric] step(2,3)] step
    by (auto intro: keeps_joint_books_trans)
qed

section \<open>Moving a number of bytes\<close>

lemma move_length_step_total:
  assumes b: "own_inv b" and c: "own_inv c" and cons: "slist c = s # t" and len: "0 < len"
    and small: "length (content c) \<le> max_request"
  defines "n \<equiv> min (dataSize s) len"
  shows "\<exists>b' c'. move_length_step len b c = Inr (b', c', n) \<and> own_inv b' \<and> own_inv c'
    \<and> content b' = content b @ take n (content c) \<and> content c' = drop n (content c)
    \<and> keeps_joint_books b c b' c'"
proof -
  have ne: "slist c \<noteq> []" and hd: "hd (slist c) = s" using cons by simp_all
  have wf: "slice_wf s" and front: "o_front c = s"
    using own_invD(1,3) [OF c] cons by (simp_all add: o_front_hd)
  have bytes: "length (slice_bytes s) = dataSize s" using wf by (rule length_slice_bytes)
  have cont: "content c = slice_bytes s @ concat (map slice_bytes t)"
    by (simp add: content_def cons)
  consider (zero) "n = 0" | (part) "n \<noteq> 0" "n < dataSize s" | (full) "n \<noteq> 0" "n = dataSize s"
    unfolding n_def by linarith
  then show ?thesis
  proof cases
    case zero
    then have d0: "dataSize s = 0" using len by (simp add: n_def min_def split: if_splits)
    note pop = pop_front_step [OF c ne, unfolded hd d0 length_sub_0 drop_0]
    have "move_length_step len b c = Inr (b, o_pop_front c, n)"
      using zero by (simp add: move_length_step_def front n_def Let_def)
    then show ?thesis
      using b pop zero by (auto simp: keeps_joint_books_def keeps_books_def)
  next
    case part
    let ?xs = "take n (slice_bytes s)"
    have "length ?xs \<le> max_request" using small bytes cont part by simp
    from addImpl_total [OF b this] obtain b' where b': "addImpl ?xs b = Inr b'" "own_inv b'"
      "content b' = content b @ ?xs" "keeps_books b b'" by blast
    note dr = drain_front_step [OF c ne, of n, unfolded hd, OF part(2)]
    have "move_length_step len b c = Inr (b', length_sub n (o_set_front (slice_drain n s) c), n)"
      using part b'(1) by (simp add: move_length_step_def front own_add_def Let_def flip: n_def)
    then show ?thesis
      using b' dr part bytes by (auto simp: keeps_joint_books_def keeps_books_def cont)
  next
    case full
    from move_slice_step_total [OF b c cons] obtain b' c' where
      step: "move_slice_step b c = Inr (b', c')" "own_inv b'" "own_inv c'"
      "content b' = content b @ slice_bytes s" "content c' = concat (map slice_bytes t)"
      "keeps_joint_books b c b' c'" by blast
    from step(1) have "move_length_step len b c = Inr (b', c', n)"
      using full by (auto simp: move_length_step_def move_slice_step_def front Let_def
          length_sub_pop res_bind_Inr_iff simp flip: n_def)
    then show ?thesis using step full bytes by (auto simp: cont)
  qed
qed

lemma own_move_length_total:
  "own_inv b \<Longrightarrow> own_inv c \<Longrightarrow> length (content c) \<le> max_request \<Longrightarrow>
   \<exists>b' c'. own_move_length b c len = Inr (b', c') \<and> own_inv b' \<and> own_inv c'
     \<and> content b' = content b @ take len (content c) \<and> content c' = drop len (content c)
     \<and> keeps_joint_books b c b' c'"
proof (induction b c len rule: own_move_length.induct)
  case (1 b c len)
  note prems = "1.prems"
  show ?case
  proof (cases "len \<noteq> 0 \<and> \<not> o_empty c")
    case False
    then have "own_move_length b c len = Inr (b, c)" by (subst own_move_length.simps) auto
    moreover have "len = 0 \<or> content c = []" using False by (auto simp: o_empty_iff content_def)
    ultimately show ?thesis using prems by auto
  next
    case True
    then obtain s t where cons: "slist c = s # t" by (cases "slist c") (auto simp: o_empty_iff)
    let ?n = "min (dataSize s) len"
    from move_length_step_total [OF prems(1,2) cons _ prems(3)] True obtain b1 c1 where
      step: "move_length_step len b c = Inr (b1, c1, ?n)" "own_inv b1" "own_inv c1"
      "content b1 = content b @ take ?n (content c)" "content c1 = drop ?n (content c)"
      "keeps_joint_books b c b1 c1" by blast
    have eq: "own_move_length b c len = own_move_length b1 c1 (len - ?n)"
      using True by (subst own_move_length.simps) (simp add: step(1))
    have small: "length (content c1) \<le> max_request" using prems(3) step(5) by simp
    have "\<exists>b' c'. own_move_length b1 c1 (len - ?n) = Inr (b', c') \<and> own_inv b' \<and> own_inv c'
       \<and> content b' = content b1 @ take (len - ?n) (content c1)
       \<and> content c' = drop (len - ?n) (content c1) \<and> keeps_joint_books b1 c1 b' c'"
      by (rule "1.IH" [OF True step(1) refl refl step(2,3) small])
    then obtain b' c' where fin: "own_move_length b1 c1 (len - ?n) = Inr (b', c')" "own_inv b'"
      "own_inv c'" "content b' = content b1 @ take (len - ?n) (content c1)"
      "content c' = drop (len - ?n) (content c1)" "keeps_joint_books b1 c1 b' c'" by blast
    have "len = ?n + (len - ?n)" by simp
    then have "take len (content c) = take ?n (content c) @ take (len - ?n) (drop ?n (content c))"
      and "drop len (content c) = drop (len - ?n) (drop ?n (content c))"
      by (metis take_add, metis drop_drop add.commute)
    then have "content b' = content b @ take len (content c)" "content c' = drop len (content c)"
      by (simp_all only: fin(4,5) step(4,5) append_assoc)
    moreover have "keeps_joint_books b c b' c'" using step(6) fin(6) by (rule keeps_joint_books_trans)
    ultimately show ?thesis unfolding eq using fin(1,2,3) by blast
  qed
qed

section \<open>prepend(Instance&)\<close>

lemma take_over_front_step:
  assumes inv: "own_inv b" and wf: "slice_wf s"
  defines "b' \<equiv> length_add (dataSize s) (o_emplace_front s b)"
  shows "own_inv b'" "content b' = slice_bytes s @ content b" "o_account b' = o_account b"
    "tracker_total b' = tracker_total b + mset (s_trackers s)"
    "acct_gap b' a + held_by a s = acct_gap b a" "slist b' = s # slist b"
proof -
  note dq = own_invD [OF inv]
  have sel: "dq_wf (o_slices b')" "o_length b' = o_length b + word_of_nat (dataSize s)"
    "o_account b' = o_account b" "o_trace b' = o_trace b" "slist b' = s # slist b"
    using dq(1) by (simp_all add: b'_def owned_simps)
  show cont: "content b' = slice_bytes s @ content b" by (simp add: content_def sel)
  show "own_inv b'"
    using dq(2,4) wf by (simp add: own_inv_def sel cont length_slice_bytes add.commute)
  show "tracker_total b' = tracker_total b + mset (s_trackers s)"
    by (simp add: tracker_total_def sel ac_simps)
  show "acct_gap b' a + held_by a s = acct_gap b a" by (simp add: acct_gap_def sel)
  show "o_account b' = o_account b" "slist b' = s # slist b" by (simp_all add: sel)
qed

lemma charge_front_step:
  assumes inv: "own_inv b" and cons: "slist b = s # t"
  defines "m \<equiv> maybeChargeAccount (o_account b) s"
  defines "b' \<equiv> o_log (snd m) (o_set_front (fst m) b)"
  shows "own_inv b'" "content b' = content b" "keeps_books b b'"
proof -
  note dq = own_invD [OF inv]
  note m = maybeChargeAccount_sel [where acct = "o_account b" and s = s, folded m_def]
  have sel: "dq_wf (o_slices b')" "o_length b' = o_length b" "o_account b' = o_account b"
    "o_trace b' = o_trace b @ snd m" "slist b' = fst m # t"
    using dq(1) cons by (simp_all add: b'_def owned_simps)
  show cont: "content b' = content b" by (simp add: content_def sel cons m)
  show "own_inv b'" using dq(2,4) by (simp add: own_inv_def sel cont cons m)
  show "keeps_books b b'"
    by (simp add: keeps_books_def tracker_total_def acct_gap_def sel cons m fun_eq_iff)
qed

text \<open>The back slice leaves, moved from.\<close>

lemma back_leaves_step:
  assumes inv: "own_inv c" and snoc: "slist c = t @ [s]"
  defines "c' \<equiv> length_sub (dataSize s) (o_pop_back (o_set_back empty_slice c))"
  shows "own_inv c'" "slist c' = t" "o_account c' = o_account c"
    "tracker_total c' + mset (s_trackers s) = tracker_total c"
    "acct_gap c' a = acct_gap c a + held_by a s"
proof -
  note dq = own_invD [OF inv]
  have ne: "slist c \<noteq> []" using snoc by simp
  have sel: "dq_wf (o_slices c')" "o_length c' = o_length c - word_of_nat (dataSize s)"
    "o_account c' = o_account c" "o_trace c' = o_trace c" "slist c' = t"
    using dq(1) ne snoc by (simp_all add: c'_def owned_simps)
  have "length (slice_bytes s) = dataSize s"
    using dq(3) snoc by (simp add: length_slice_bytes)
  then have "length (content c) = length (content c') + dataSize s"
    by (simp add: content_def sel snoc)
  then show "own_inv c'" using dq(2,4) by (simp add: own_inv_def sel snoc)
  show "tracker_total c' + mset (s_trackers s) = tracker_total c"
    by (simp add: tracker_total_def sel snoc ac_simps)
  show "acct_gap c' a = acct_gap c a + held_by a s" by (simp add: acct_gap_def sel snoc)
  show "slist c' = t" "o_account c' = o_account c" by (simp_all add: sel)
qed

lemma prepend_slice_step_eq:
  assumes b: "own_inv b" and c: "own_inv c" and snoc: "slist c = t @ [s]"
  defines "b' \<equiv> fst (prepend_slice_step b c)" and "c' \<equiv> snd (prepend_slice_step b c)"
  shows "own_inv b'" "own_inv c'" "content b' = slice_bytes s @ content b" "slist c' = t"
    "keeps_joint_books b c b' c'"
proof -
  have wf: "slice_wf s" and bk: "o_back c = s"
    using own_invD(1,3) [OF c] snoc by (simp_all add: o_back_last)
  let ?b2 = "length_add (dataSize s) (o_emplace_front s b)"
  note tf = take_over_front_step [OF b wf] note cf = charge_front_step [OF tf(1) tf(6)]
  note bl = back_leaves_step [OF c snoc]
  have front: "o_front ?b2 = s" using own_invD(1) [OF tf(1)] tf(6) by (simp add: o_front_hd)
  have comm: "o_emplace_front s (length_add (dataSize s) b) = ?b2"
    by (simp add: o_emplace_front_def length_add_def o_log_def case_prod_beta)
  have b': "b' = o_log (snd (maybeChargeAccount (o_account ?b2) s))
      (o_set_front (fst (maybeChargeAccount (o_account ?b2) s)) ?b2)"
    by (simp add: b'_def prepend_slice_step_def bk comm front case_prod_beta Let_def)
  have c': "c' = length_sub (dataSize s) (o_pop_back (o_set_back empty_slice c))"
    by (simp add: c'_def prepend_slice_step_def bk case_prod_beta Let_def)
  show "own_inv b'" "content b' = slice_bytes s @ content b"
    unfolding b' using cf tf by simp_all
  show "own_inv c'" "slist c' = t" unfolding c' by (rule bl)+
  have "acct_gap b' a + acct_gap c' a = acct_gap b a + acct_gap c a" for a
    using cf(3) tf(5) [of a] bl(5) [of a] unfolding b' c' keeps_books_def by simp
  moreover have "tracker_total b' + tracker_total c' = tracker_total b + tracker_total c"
    using cf(3) tf(4) bl(4) unfolding b' c' keeps_books_def by (simp flip: bl(4))
  ultimately show "keeps_joint_books b c b' c'"
    using cf(3) tf(3) bl(3) unfolding b' c' by (simp add: keeps_joint_books_def keeps_books_def)
qed

lemma prepend_instance_step:
  "own_inv b \<Longrightarrow> own_inv c \<Longrightarrow>
   own_inv (fst (prepend_instance b c)) \<and> own_inv (snd (prepend_instance b c))
   \<and> content (fst (prepend_instance b c)) = content c @ content b
   \<and> slist (snd (prepend_instance b c)) = []
   \<and> keeps_joint_books b c (fst (prepend_instance b c)) (snd (prepend_instance b c))"
proof (induction "slist c" arbitrary: b c rule: rev_induct)
  case Nil
  then show ?case by (subst (1 2 3 4 5 6) prepend_instance.simps) (simp add: o_empty_iff content_def)
next
  case (snoc s t)
  note step = prepend_slice_step_eq [OF snoc.prems snoc.hyps(2) [symmetric]]
  have eq: "prepend_instance b c =
      prepend_instance (fst (prepend_slice_step b c)) (snd (prepend_slice_step b c))"
    using snoc.hyps(2) [symmetric] by (subst prepend_instance.simps) (simp add: o_empty_iff Let_def)
  have "content c = content (snd (prepend_slice_step b c)) @ slice_bytes s"
    using snoc.hyps(2) [symmetric] step(4) by (simp add: content_def)
  with snoc.hyps(1) [OF step(4) [symmetric] step(1,2)] step show ?case
    unfolding eq by (auto intro: keeps_joint_books_trans)
qed

section \<open>extractMutableFrontSlice\<close>

lemma own_inv_o_log [simp]: "own_inv (o_log ev b) = own_inv b" "content (o_log ev b) = content b"
  by (simp_all add: own_inv_def content_def owned_simps)

lemma o_length_pos_iff:
  assumes "own_inv b" "length (content b) < 2 ^ 64"
  shows "0 < o_length b \<longleftrightarrow> content b \<noteq> []"
proof -
  have "unat (o_length b) = length (content b)"
    using assms(2) unfolding own_invD(4) [OF assms(1)] by (rule unat_le_of_nat)
  then show ?thesis by (simp add: word_neq_0_conv [symmetric] flip: unat_eq_0)
qed

lemma extract_front_eq:
  assumes inv: "own_inv b" and cons: "slist b = s # t" and nz: "dataSize s \<noteq> 0"
    and small: "dataSize s \<le> max_request"
  defines "b2 \<equiv> o_pop_front (length_sub (dataSize s) (o_set_front empty_slice b))"
  defines "ext \<equiv> (if isMutable s then (s\<lparr>s_trackers := [], s_account := None\<rparr>,
        o_log (release_events s) b2)
      else (snd (slice_append (slice_bytes s) (fst (slice_new (word_of_nat (dataSize s)) None))),
        o_log (release_events s) b2))"
  shows "own_inv (snd ext)" "content (snd ext) = concat (map slice_bytes t)"
    "slist (snd ext) = t" "keeps_books b (snd ext)"
    "slice_bytes (fst ext) = slice_bytes s" "s_storage (fst ext)" "slice_wf (fst ext)"
    "s_trackers (fst ext) = []" "s_account (fst ext) = None"
proof -
  note fl = front_leaves_step [OF inv cons, of empty_slice, folded b2_def]
  have wf: "slice_wf s" using own_invD(3) [OF inv] cons by simp
  have snd: "snd ext = o_log (release_events s) b2" by (simp add: ext_def)
  show "own_inv (snd ext)" "content (snd ext) = concat (map slice_bytes t)" "slist (snd ext) = t"
    using fl(1,3) by (simp_all add: snd owned_simps content_def)
  have "tracker_total (snd ext) = tracker_total b2 + mset (s_trackers s)"
    by (simp add: tracker_total_def snd owned_simps)
  moreover have "acct_gap (snd ext) a = acct_gap b2 a - held_by a s" for a
    by (simp add: acct_gap_def snd owned_simps)
  ultimately show "keeps_books b (snd ext)"
    using fl(4,5,6) by (simp add: keeps_books_def fun_eq_iff) (simp add: snd owned_simps)
  let ?f = "fst (slice_new (word_of_nat (dataSize s)) None)"
  have room: "length (slice_bytes s) \<le> reservableSize ?f"
    using sliceSize_request [OF small] length_slice_bytes [OF wf] by (simp add: slice_simps)
  show "slice_bytes (fst ext) = slice_bytes s"
  proof (cases "isMutable s")
    case True
    then show ?thesis by (simp add: ext_def slice_bytes_def dataSize_def)
  next
    case False
    then show ?thesis
      using room by (simp add: ext_def slice_append_bytes slice_simps min_absorb1)
  qed
  show "slice_wf (fst ext)"
  proof (cases "isMutable s")
    case True
    then show ?thesis using wf by (simp add: ext_def slice_wf_def)
  next
    case False
    then show ?thesis by (simp add: ext_def slice_append_wf slice_simps)
  qed
  show "s_storage (fst ext)" "s_trackers (fst ext) = []" "s_account (fst ext) = None"
    by (simp_all add: ext_def isMutable_def slice_simps)
qed

lemma extractMutableFrontSlice_total:
  assumes inv: "own_inv b" and ne: "content b \<noteq> []" and small: "length (content b) \<le> max_request"
  shows "\<exists>s b'. extractMutableFrontSlice b = Inr (s, b') \<and> own_inv b' \<and> keeps_books b b'
    \<and> content b = slice_bytes s @ content b' \<and> slice_bytes s \<noteq> [] \<and> isMutable s
    \<and> s_trackers s = [] \<and> s_account s = None"
proof -
  let ?b1 = "pop_empty_front b"
  note pe = pop_empty_front_step [OF inv]
  have inv1: "own_inv ?b1" and cont1: "content ?b1 = content b" using pe by blast+
  obtain s t where cons: "slist ?b1 = s # t"
    using ne cont1 by (cases "slist ?b1") (auto simp: content_def)
  have nz: "dataSize s \<noteq> 0"
  proof -
    have dw: "dropWhile (\<lambda>s. dataSize s = 0) (slist b) = s # t" using pe cons by simp
    then have "dropWhile (\<lambda>s. dataSize s = 0) (slist b) \<noteq> []" by simp
    from hd_dropWhile [OF this] show ?thesis unfolding dw by simp
  qed
  have wf: "slice_wf s" using own_invD(3) [OF inv1] cons by simp
  have split: "content b = slice_bytes s @ concat (map slice_bytes t)"
    using cont1 cons by (simp add: content_def)
  have ds: "dataSize s \<le> max_request"
    using small split length_slice_bytes [OF wf] by simp
  have pos: "0 < o_length b"
    using o_length_pos_iff [OF inv] ne small by (simp add: max_request_def)
  have front: "o_front ?b1 = s" using own_invD(1) [OF inv1] cons by (simp add: o_front_hd)
  have room: "min (length (slice_bytes s)) (unat (sliceSize (word_of_nat (dataSize s)))) = dataSize s"
    using sliceSize_request [OF ds] length_slice_bytes [OF wf] by simp
  let ?b2 = "o_pop_front (length_sub (dataSize s) (o_set_front empty_slice ?b1))"
  define ext where "ext = (if isMutable s then (s\<lparr>s_trackers := [], s_account := None\<rparr>,
        o_log (release_events s) ?b2)
      else (snd (slice_append (slice_bytes s) (fst (slice_new (word_of_nat (dataSize s)) None))),
        o_log (release_events s) ?b2))"
  note ex = extract_front_eq [OF inv1 cons nz ds, folded ext_def]
  have eq: "extractMutableFrontSlice b = Inr (fst ext, snd ext)"
    using pos cons room
    by (auto simp: extractMutableFrontSlice_def o_empty_iff front Let_def case_prod_beta ext_def
        slice_simps callAndClearDrainTrackersAndCharges_def charge_events_def)
  have "slice_bytes s \<noteq> []" using nz slice_bytes_empty_iff [OF wf] by simp
  moreover have "keeps_books b (snd ext)" using pe ex(4) by (blast intro: keeps_books_trans)
  ultimately show ?thesis
    by (intro exI [of _ "fst ext"] exI [of _ "snd ext"]) (simp add: eq ex split isMutable_def)
qed

text \<open>The assertion is not missed: a slice that is extracted has storage of its own.\<close>

lemma extracted_data_writable:
  assumes "own_inv b" "content b \<noteq> []" "length (content b) \<le> max_request"
    and "extractMutableFrontSlice b = Inr (s, b')" and "getMutableData (SliceDataImpl_new s) = (off, n)"
  shows "isMutable s \<and> content b = take n (drop off (s_base s)) @ content b'"
  using extractMutableFrontSlice_total [OF assms(1-3)] assms(4,5)
  by (auto simp: getMutableData_def SliceDataImpl_new_def slice_bytes_def)

lemma extractMutableFrontSlice_empty:
  assumes "own_inv b" "content b = []"
  shows "extractMutableFrontSlice b = Inl Release_assert_failed"
  using own_invD(4) [OF assms(1)] assms(2) by (simp add: extractMutableFrontSlice_def)

section \<open>linearize\<close>

lemma slice_commit_filled:
  assumes wf: "slice_wf s" and n: "0 < length bytes" "length bytes \<le> reservableSize s"
  shows "slice_commit_safe (slice_reserve (length bytes) s)
      (slice_write (ptr_offset (rs_mem (slice_reserve (length bytes) s))) bytes s)
    = (True, snd (slice_append bytes s))"
proof -
  have mem: "rs_mem (slice_reserve (length bytes) s) = At_offset (s_reservable s)"
    using n by (intro rs_mem_slice_reserve) linarith+
  have min: "min (length bytes) (reservableSize s) = length bytes" using n by simp
  have "s_reservable s + length bytes \<le> s_capacity s" "s_reservable s < s_capacity s"
    using n slice_wfD [OF wf] unfolding reservableSize_def by linarith+
  then show ?thesis
    using n(1) by (simp add: slice_commit_safe_def mem rs_len_slice_reserve min slice_append_def
        slice_write_def Let_def del: length_greater_0_conv)
qed

text \<open>The branch of \<open>linearize\<close> that builds a new front slice.\<close>

lemma linearize_build:
  fixes n :: nat
  assumes inv: "own_inv b" and n: "0 < n" "n \<le> length (content b)" "n \<le> max_request"
  defines "sl \<equiv> fst (slice_new (word_of_nat n) (o_account b))"
    and "b1 \<equiv> o_log (snd (slice_new (word_of_nat n) (o_account b))) b"
  defines "s' \<equiv> snd (slice_append (take n (content b)) sl)"
  defines "b' \<equiv> length_add n (o_emplace_front s' (drainImpl n b1))"
  shows "own_inv b'" "content b' = content b" "keeps_books b b'" "slice_bytes s' = take n (content b)"
    "o_front b' = s'"
proof -
  have room: "length (take n (content b)) \<le> reservableSize sl"
    using sliceSize_request [OF n(3)] by (simp add: sl_def slice_simps)
  have wf: "slice_wf s'" unfolding s'_def by (rule slice_append_wf) (simp add: sl_def slice_simps)
  show bytes: "slice_bytes s' = take n (content b)"
    unfolding s'_def using room n(2) by (simp add: sl_def slice_append_bytes slice_simps min_absorb1)
  have ds: "dataSize s' = n" using length_slice_bytes [OF wf] bytes n(2) by simp
  have inv1: "own_inv b1" "content b1 = content b" using inv by (simp_all add: b1_def)
  note dr = drainImpl_step [OF inv1(1), of n]
  note tf = take_over_front_step [OF dr(1) wf, unfolded ds, folded b'_def]
  show "own_inv b'" by (rule tf)
  show "content b' = content b" by (simp add: tf(2) dr(2) inv1(2) bytes)
  show "o_front b' = s'" using own_invD(1) [OF tf(1)] tf(6) by (simp add: o_front_hd)
  have fields: "s_trackers s' = []" "s_account s' = o_account b" "s_capacity s' = unat (sliceSize (word_of_nat n))"
    by (simp_all add: s'_def sl_def slice_simps)
  have "tracker_total b1 = tracker_total b"
    by (simp add: tracker_total_def b1_def owned_simps slice_simps)
  moreover have "acct_gap b1 a = acct_gap b a + held_by a s'" for a
    by (simp add: acct_gap_def b1_def owned_simps slice_simps held_by_def fields)
  moreover have "o_account b1 = o_account b" by (simp add: b1_def owned_simps)
  ultimately show "keeps_books b b'"
    using tf(3,4,5) dr(3) fields(1) by (simp add: keeps_books_def fun_eq_iff)
qed

lemma linearize_nat:
  assumes inv: "own_inv b" and len: "length (content b) < 2 ^ 64" and k_def: "k = unat n"
    and n: "k \<le> length (content b)"
  shows "\<exists>p b'. linearize n b = Inr (p, b') \<and> own_inv b' \<and> content b' = content b
    \<and> keeps_books b b'
    \<and> (case p of None \<Rightarrow> slist b = [] | Some bytes \<Rightarrow> take (k) bytes = take (k) (content b)
        \<and> k \<le> length bytes)"
proof -
  have n32: "k \<le> max_request" unfolding k_def using unat_less_two_power [of n] by (simp add: max_request_def)
  have u: "unat (word_of_nat (length (content b)) :: u64) = length (content b)"
    using len by (rule unat_le_of_nat)
  have ok: "(word_of_nat k :: u64) \<le> word_of_nat (length (content b))"
    using n unat_request [OF n32] by (simp only: word_le_nat_alt u)
  have unf: "linearize n b = (if o_empty b then Inr (None, b)
           else if dataSize (dq_nth (o_slices b) 0) < k then
             let new_slice = fst (slice_new (word_of_nat k) (o_account b));
                 b1 = o_log (snd (slice_new (word_of_nat k) (o_account b))) b;
                 reservation = slice_reserve k new_slice
             in assert_then (rs_mem reservation \<noteq> Null_ptr)
                  (assert_then (rs_len reservation = k)
                    (res_bind (copyOut 0 k b1) (\<lambda>bytes.
                      let filled = slice_write (ptr_offset (rs_mem reservation)) bytes new_slice;
                          b2 = length_add k (o_emplace_front (snd (slice_commit_safe reservation filled))
                            (drainImpl k b1))
                      in Inr (Some (slice_bytes (o_front b2)), b2))))
           else Inr (Some (slice_bytes (o_front b)), b))"
    using ok by (simp add: linearize_def own_length_eq [OF inv] Let_def case_prod_beta flip: k_def)
  show ?thesis
  proof (cases "slist b = []")
    case True
    then show ?thesis using inv by (simp add: unf o_empty_iff)
  next
    case False
    then obtain s t where cons: "slist b = s # t" by (cases "slist b") auto
    have wf: "slice_wf s" and front: "o_front b = s"
      using own_invD(1,3) [OF inv] cons by (simp_all add: o_front_hd)
    have nth: "dq_nth (o_slices b) 0 = s"
      using dq.first [OF own_invD(1) [OF inv]] cons by simp
    show ?thesis
    proof (cases "dataSize s < k")
      case True
      let ?sl = "fst (slice_new (word_of_nat k) (o_account b))"
      let ?xs = "take k (content b)"
      have xs: "length ?xs = k" using n by simp
      have room: "k \<le> reservableSize ?sl" using sliceSize_request [OF n32] by (simp add: slice_simps)
      have mem: "rs_mem (slice_reserve k ?sl) = At_offset (s_reservable ?sl)"
        using True room by (intro rs_mem_slice_reserve) linarith+
      have commit: "slice_commit_safe (slice_reserve k ?sl)
          (slice_write (ptr_offset (rs_mem (slice_reserve k ?sl))) ?xs ?sl) =
          (True, snd (slice_append ?xs ?sl))"
        using slice_commit_filled [of ?sl ?xs] True room unfolding xs by (simp add: slice_simps)
      note build = linearize_build [OF inv _ n n32]
      have pos: "0 < k" using True by simp
      have "linearize n b = Inr (Some ?xs, length_add k (o_emplace_front (snd (slice_append ?xs ?sl))
          (drainImpl k (o_log (snd (slice_new (word_of_nat k) (o_account b))) b))))"
        using True cons room n build(4,5) [OF pos] inv
        by (simp add: unf o_empty_iff nth Let_def mem rs_len_slice_reserve min_absorb1 copyOut_eq
            commit [unfolded mem ptr_offset.simps])
      then show ?thesis
        using build(1,2,3) [OF pos] xs by auto
    next
      case False
      then show ?thesis
        using inv length_slice_bytes [OF wf] cons
        by (simp add: unf o_empty_iff nth front content_def)
    qed
  qed
qed

lemmas linearize_total = linearize_nat [OF _ _ refl]

lemma linearize_too_long:
  assumes inv: "own_inv b" and n: "length (content b) < unat n"
  shows "linearize n b = Inl Release_assert_failed"
proof -
  have n32: "unat n \<le> max_request" using unat_less_two_power [of n] by (simp add: max_request_def)
  have "length (content b) \<le> max_request" using n n32 by linarith
  then have "\<not> (word_of_nat (unat n) :: u64) \<le> word_of_nat (length (content b))"
    using n unat_request [OF n32] unat_request by (simp only: word_le_nat_alt not_le)
  then show ?thesis by (simp add: linearize_def own_length_eq [OF inv] Let_def del: of_nat_unat)
qed

end
