(* ===== verification/BufferSearch.thy ===== *)
theory BufferSearch
  imports BufferMove
begin

text \<open>
  \<open>OwnedImpl::search\<close>. \<open>left\<close> is \<open>left_to_search\<close> (a \<open>size_t\<close>; only its initial value can
  wrap, when \<open>start\<close> lies past the end), a position in a slice is an offset from its
  \<open>data()\<close>. The theorem: the result is the least position that is not before \<open>start\<close>, at which
  the whole needle lies in the searched range, or -1.
\<close>

section \<open>Definitions\<close>

text \<open>The innermost loop: how many needle bytes match from position \<open>next\<close> of slice \<open>mi\<close>.\<close>

function match_loop :: "slice list \<Rightarrow> byte list \<Rightarrow> nat \<Rightarrow> nat \<Rightarrow> nat \<Rightarrow> nat \<Rightarrow> nat" where
  "match_loop ss needle i match_index next left =
     (if i < length needle \<and> 0 < left then
        (if next \<ge> dataSize (ss ! match_index) then
           (if match_index + 1 \<ge> length ss then i
            else match_loop ss needle i (match_index + 1) 0 left)
         else if slice_bytes (ss ! match_index) ! next \<noteq> needle ! i then i
         else match_loop ss needle (i + 1) match_index (next + 1) (left - 1))
      else i)"
  by pat_completeness auto
termination
  by (relation "measures [\<lambda>(ss, needle, i, mi, next, left). left,
        \<lambda>(ss, needle, i, mi, next, left). length ss - mi]") auto

text \<open>\<open>memchr(bytes, c, n)\<close>: the first position below \<open>n\<close> that holds \<open>c\<close>.\<close>

fun memchr :: "byte list \<Rightarrow> byte \<Rightarrow> nat \<Rightarrow> nat option" where
  "memchr xs c 0 = None"
| "memchr [] c (Suc n) = None"
| "memchr (x # xs) c (Suc n) = (if x = c then Some 0 else map_option Suc (memchr xs c n))"

lemma memchr_Some: "memchr xs c n = Some k \<Longrightarrow> k < n \<and> k < length xs \<and> xs ! k = c \<and> c \<notin> set (take k xs)"
  by (induction xs c n arbitrary: k rule: memchr.induct) (auto split: if_splits)

lemma memchr_None: "memchr xs c n = None \<longleftrightarrow> c \<notin> set (take n xs)"
  by (induction xs c n rule: memchr.induct) auto

text \<open>
  The loop over one slice from position \<open>hay\<close>: the position of a match in the slice (\<open>Inl\<close>), or
  the number of bytes left to search after it (\<open>Inr\<close>).
\<close>

function scan_loop :: "slice list \<Rightarrow> byte list \<Rightarrow> nat \<Rightarrow> nat \<Rightarrow> nat \<Rightarrow> nat + nat" where
  "scan_loop ss needle si hay left =
     (if hay < dataSize (ss ! si) then
        let limit = min (dataSize (ss ! si) - hay) left in
        case memchr (drop hay (slice_bytes (ss ! si))) (needle ! 0) limit of
          None \<Rightarrow> Inr (left - limit)
        | Some k \<Rightarrow>
            let left1 = left - (k + 1) in
            if match_loop ss needle 1 si (hay + k + 1) left1 = length needle then Inl (hay + k)
            else scan_loop ss needle si (hay + k + 1) left1
      else Inr left)"
  by pat_completeness auto
termination
  by (relation "measure (\<lambda>(ss, needle, si, hay, left). dataSize (ss ! si) - hay)")
    (auto dest: memchr_Some)

declare match_loop.simps [simp del] scan_loop.simps [simp del]

function search_loop :: "slice list \<Rightarrow> byte list \<Rightarrow> nat \<Rightarrow> nat \<Rightarrow> nat \<Rightarrow> nat \<Rightarrow> int" where
  "search_loop ss needle si start left offset =
     (if si < length ss \<and> left > 0 then
        let slice_size = dataSize (ss ! si) in
        if slice_size \<le> start then
          search_loop ss needle (si + 1) (start - slice_size) left (offset + slice_size)
        else case scan_loop ss needle si start left of
            Inl k \<Rightarrow> int (offset + k)
          | Inr left1 \<Rightarrow> search_loop ss needle (si + 1) 0 left1 (offset + slice_size)
      else -1)"
  by pat_completeness auto
termination
  by (relation "measure (\<lambda>(ss, needle, si, start, left, offset). length ss - si)") auto

declare search_loop.simps [simp del]

definition own_search :: "byte list \<Rightarrow> nat \<Rightarrow> nat \<Rightarrow> owned \<Rightarrow> int" where
  "own_search needle start len b =
     (if length needle = 0 then (if word_of_nat start \<le> o_length b then int start else -1)
      else let left_to_search = (if len = 0 then unat (o_length b - word_of_nat start) else len)
           in search_loop (slist b) needle 0 start left_to_search 0)"

section \<open>Matching, as a prefix test on the bytes that follow\<close>

text \<open>The bytes from position \<open>next\<close> of slice \<open>mi\<close> on.\<close>

definition bytes_from :: "slice list \<Rightarrow> nat \<Rightarrow> nat \<Rightarrow> byte list" where
  "bytes_from ss mi next = drop next (slice_bytes (ss ! mi)) @ concat (map slice_bytes (drop (Suc mi) ss))"

definition prefix_within :: "byte list \<Rightarrow> nat \<Rightarrow> byte list \<Rightarrow> bool" where
  "prefix_within p n xs \<longleftrightarrow> length p \<le> n \<and> take (length p) xs = p"

lemma prefix_within_Nil [simp]: "prefix_within [] n xs"
  by (simp add: prefix_within_def)

lemma prefix_within_0 [simp]: "prefix_within (p # ps) 0 xs = False"
  by (simp add: prefix_within_def)

lemma prefix_within_Cons [simp]:
  "prefix_within (p # ps) (Suc n) (x # xs) \<longleftrightarrow> x = p \<and> prefix_within ps n xs"
  by (auto simp: prefix_within_def)

lemma prefix_within_empty [simp]: "prefix_within (p # ps) n [] = False"
  by (simp add: prefix_within_def)

lemma bytes_from_next:
  assumes "slice_wf (ss ! mi)" "next < dataSize (ss ! mi)"
  shows "bytes_from ss mi next = slice_bytes (ss ! mi) ! next # bytes_from ss mi (Suc next)"
  using assms by (simp add: bytes_from_def Cons_nth_drop_Suc length_slice_bytes)

lemma bytes_from_end:
  assumes "slice_wf (ss ! mi)" "dataSize (ss ! mi) \<le> next"
  shows "bytes_from ss mi next = (if Suc mi < length ss then bytes_from ss (Suc mi) 0 else [])"
  using assms by (auto simp: bytes_from_def length_slice_bytes Cons_nth_drop_Suc [symmetric]
      simp flip: Cons_nth_drop_Suc)

lemma match_loop_le: "i \<le> length needle \<Longrightarrow> match_loop ss needle i mi next left \<le> length needle"
proof (induction ss needle i mi "next" left rule: match_loop.induct)
  case (1 ss needle i mi "next" left)
  then show ?case by (subst match_loop.simps) auto
qed

lemma match_loop_iff:
  "list_all slice_wf ss \<Longrightarrow> mi < length ss \<Longrightarrow> i \<le> length needle \<Longrightarrow>
   match_loop ss needle i mi next left = length needle \<longleftrightarrow>
   prefix_within (drop i needle) left (bytes_from ss mi next)"
proof (induction ss needle i mi "next" left rule: match_loop.induct)
  case (1 ss needle i mi "next" left)
  have wf: "slice_wf (ss ! mi)" using "1.prems" by (simp add: list_all_length)
  show ?case
  proof (cases "i < length needle \<and> 0 < left")
    case False
    then show ?thesis using "1.prems"
      by (subst match_loop.simps) (auto simp: prefix_within_def)
  next
    case True
    then have d: "drop i needle = needle ! i # drop (Suc i) needle" by (simp add: Cons_nth_drop_Suc)
    obtain l where l: "left = Suc l" using True by (cases left) auto
    show ?thesis
    proof (cases "dataSize (ss ! mi) \<le> next")
      case end_slice: True
      show ?thesis
      proof (cases "mi + 1 \<ge> length ss")
        case True': True
        then show ?thesis using True end_slice bytes_from_end [OF wf end_slice]
          by (subst match_loop.simps) (simp add: d)
      next
        case False
        then show ?thesis
          using "1.IH"(1) [OF True end_slice False] "1.prems" True end_slice bytes_from_end [OF wf end_slice]
          by (subst match_loop.simps) simp
      qed
    next
      case in_slice: False
      then have nx: "bytes_from ss mi next = slice_bytes (ss ! mi) ! next # bytes_from ss mi (Suc next)"
        using bytes_from_next [OF wf] by simp
      show ?thesis
      proof (cases "slice_bytes (ss ! mi) ! next = needle ! i")
        case False
        then show ?thesis using True in_slice
          by (subst match_loop.simps) (simp add: nx d l)
      next
        case eq: True
        then show ?thesis
          using "1.IH"(2) [OF True in_slice] "1.prems" True in_slice
          by (subst match_loop.simps) (simp add: nx d l)
      qed
    qed
  qed
qed

section \<open>Scanning one slice\<close>

text \<open>A match at position \<open>p\<close> of \<open>xs\<close>, found while searching \<open>left\<close> bytes from \<open>start\<close> on.\<close>

definition found_at :: "byte list \<Rightarrow> byte list \<Rightarrow> nat \<Rightarrow> nat \<Rightarrow> nat \<Rightarrow> bool" where
  "found_at needle xs start left p \<longleftrightarrow> start \<le> p \<and> prefix_within needle (left - (p - start)) (drop p xs)"

abbreviation suffix_bytes :: "slice list \<Rightarrow> nat \<Rightarrow> byte list" where
  "suffix_bytes ss si \<equiv> concat (map slice_bytes (drop si ss))"

lemma suffix_bytes_split:
  "si < length ss \<Longrightarrow> suffix_bytes ss si = slice_bytes (ss ! si) @ suffix_bytes ss (Suc si)"
  by (simp flip: Cons_nth_drop_Suc)

lemma bytes_from_drop:
  assumes "si < length ss" "slice_wf (ss ! si)" "k \<le> dataSize (ss ! si)"
  shows "bytes_from ss si k = drop k (suffix_bytes ss si)"
  using assms by (simp add: bytes_from_def suffix_bytes_split length_slice_bytes)

lemma not_found_first:
  assumes "needle \<noteq> []" and "p < length xs \<Longrightarrow> xs ! p \<noteq> needle ! 0"
  shows "\<not> found_at needle xs start left p"
proof
  assume "found_at needle xs start left p"
  then have t: "take (length needle) (drop p xs) = needle"
    by (simp add: found_at_def prefix_within_def)
  then have ne: "drop p xs \<noteq> []" using assms(1) by auto
  have "needle ! 0 = drop p xs ! 0" using assms(1) by (subst t [symmetric]) simp
  with ne assms(2) show False by simp
qed

lemma not_found_budget:
  "needle \<noteq> [] \<Longrightarrow> left \<le> p - start \<Longrightarrow> \<not> found_at needle xs start left p"
  by (cases needle) (auto simp: found_at_def)

lemma found_at_resume:
  "start \<le> start' \<Longrightarrow> start' \<le> p \<Longrightarrow>
   found_at needle xs start left p \<longleftrightarrow> found_at needle xs start' (left - (start' - start)) p"
  by (simp add: found_at_def)

lemma scan_loop_spec:
  assumes "list_all slice_wf ss" "si < length ss" "needle \<noteq> []"
  shows "case scan_loop ss needle si hay left of
      Inl k \<Rightarrow> hay \<le> k \<and> k < dataSize (ss ! si) \<and> found_at needle (suffix_bytes ss si) hay left k
        \<and> (\<forall>j<k. \<not> found_at needle (suffix_bytes ss si) hay left j)
    | Inr left' \<Rightarrow> left' = left - (dataSize (ss ! si) - hay)
        \<and> (\<forall>j<dataSize (ss ! si). \<not> found_at needle (suffix_bytes ss si) hay left j)"
  using assms
proof (induction ss needle si hay left rule: scan_loop.induct)
  case (1 ss needle si hay left)
  let ?s = "ss ! si" let ?C = "suffix_bytes ss si"
  have wf: "slice_wf ?s" using "1.prems" by (simp add: list_all_length)
  have nth: "j < dataSize ?s \<Longrightarrow> ?C ! j = slice_bytes ?s ! j" for j
    using "1.prems"(2) length_slice_bytes [OF wf] by (simp add: suffix_bytes_split nth_append)
  show ?case
  proof (cases "hay < dataSize ?s")
    case False
    then show ?thesis by (subst scan_loop.simps) (auto simp: found_at_def)
  next
    case hay: True
    define limit where "limit = min (dataSize ?s - hay) left"
    let ?m = "memchr (drop hay (slice_bytes ?s)) (needle ! 0) limit"
    show ?thesis
    proof (cases ?m)
      case None
      then have nomem: "needle ! 0 \<notin> set (take limit (drop hay (slice_bytes ?s)))"
        by (simp add: memchr_None)
      have "\<not> found_at needle ?C hay left j" if "j < dataSize ?s" for j
      proof (cases "hay \<le> j \<and> j - hay < limit")
        case True
        have "take limit (drop hay (slice_bytes ?s)) ! (j - hay) = slice_bytes ?s ! j"
          and "j - hay < length (take limit (drop hay (slice_bytes ?s)))"
          using True that length_slice_bytes [OF wf] by auto
        then have "slice_bytes ?s ! j \<noteq> needle ! 0" using nomem nth_mem by metis
        then show ?thesis using not_found_first "1.prems"(3) nth that by metis
      next
        case False
        show ?thesis
        proof (cases "hay \<le> j")
          case True
          then have "left \<le> j - hay" using False that by (simp add: limit_def min_def split: if_splits)
          then show ?thesis by (rule not_found_budget [OF "1.prems"(3)])
        next
          case False
          then show ?thesis by (simp add: found_at_def)
        qed
      qed
      moreover have "scan_loop ss needle si hay left = Inr (left - limit)"
        using hay None by (subst scan_loop.simps) (simp add: limit_def)
      ultimately show ?thesis by (simp add: limit_def min_def)
    next
      case (Some k)
      let ?p = "hay + k" let ?left = "left - (k + 1)"
      from memchr_Some [OF Some] have k: "k < limit" "?p < dataSize ?s"
        "slice_bytes ?s ! ?p = needle ! 0" "needle ! 0 \<notin> set (take k (drop hay (slice_bytes ?s)))"
        using length_slice_bytes [OF wf] by auto
      have before: "\<not> found_at needle ?C hay left j" if "j < ?p" for j
      proof (cases "hay \<le> j")
        case True
        have "take k (drop hay (slice_bytes ?s)) ! (j - hay) = slice_bytes ?s ! j"
          and "j - hay < length (take k (drop hay (slice_bytes ?s)))"
          using True that k length_slice_bytes [OF wf] by auto
        then have "slice_bytes ?s ! j \<noteq> needle ! 0" using k(4) nth_mem by metis
        then show ?thesis using not_found_first [OF "1.prems"(3)] nth that k(2) by simp
      next
        case False
        then show ?thesis by (simp add: found_at_def)
      qed
      have at: "match_loop ss needle 1 si (?p + 1) ?left = length needle \<longleftrightarrow>
          found_at needle ?C hay left ?p"
      proof -
        obtain x xs where needle: "needle = x # xs" using "1.prems"(3) by (cases needle) auto
        have "left - k = Suc ?left" using k(1) by (auto simp: limit_def)
        moreover have "bytes_from ss si ?p = x # bytes_from ss si (Suc ?p)"
          using bytes_from_next [OF wf k(2)] k(3) needle by simp
        moreover have "bytes_from ss si ?p = drop ?p ?C"
          using "1.prems"(2) wf k(2) by (intro bytes_from_drop) simp_all
        moreover have "match_loop ss needle 1 si (?p + 1) ?left = length needle \<longleftrightarrow>
            prefix_within xs ?left (bytes_from ss si (Suc ?p))"
          using match_loop_iff [OF "1.prems"(1,2), of 1 needle "?p + 1" ?left] needle by simp
        ultimately show ?thesis by (simp add: found_at_def needle)
      qed
      show ?thesis
      proof (cases "match_loop ss needle 1 si (?p + 1) ?left = length needle")
        case True
        then have "scan_loop ss needle si hay left = Inl ?p"
          using hay Some by (subst scan_loop.simps) (simp add: limit_def)
        then show ?thesis using True at before k by simp
      next
        case False
        then have eq: "scan_loop ss needle si hay left = scan_loop ss needle si (?p + 1) ?left"
          using hay Some by (subst scan_loop.simps) (simp add: limit_def)
        have resume: "found_at needle ?C hay left j \<longleftrightarrow> found_at needle ?C (?p + 1) ?left j"
          if "?p + 1 \<le> j" for j
          using found_at_resume [of hay "?p + 1" j needle ?C left] that by simp
        have upto: "\<not> found_at needle ?C hay left j" if "j < ?p + 1" for j
          using before [of j] at False that by (cases "j = ?p") auto
        have lt: "?left - (dataSize ?s - (?p + 1)) = left - (dataSize ?s - hay)"
          using k by simp
        note IH = "1.IH" [OF hay limit_def Some refl False "1.prems"]
        show ?thesis
        proof (cases "scan_loop ss needle si (?p + 1) ?left")
          case (Inl j)
          with IH have j: "?p + 1 \<le> j" "j < dataSize ?s" "found_at needle ?C (?p + 1) ?left j"
            "\<And>i. i < j \<Longrightarrow> \<not> found_at needle ?C (?p + 1) ?left i" by auto
          have "\<not> found_at needle ?C hay left i" if "i < j" for i
            using upto [of i] resume [of i] j(4) [OF that] by (cases "i < ?p + 1") auto
          with j resume [of j] show ?thesis unfolding eq Inl by simp
        next
          case (Inr l)
          with IH have l: "l = ?left - (dataSize ?s - (?p + 1))"
            "\<And>i. i < dataSize ?s \<Longrightarrow> \<not> found_at needle ?C (?p + 1) ?left i" by auto
          have "\<not> found_at needle ?C hay left i" if "i < dataSize ?s" for i
            using upto [of i] resume [of i] l(2) [OF that] by (cases "i < ?p + 1") auto
          with l lt show ?thesis unfolding eq Inr by simp
        qed
      qed
    qed
  qed
qed

section \<open>The whole search\<close>

definition least_found :: "(nat \<Rightarrow> bool) \<Rightarrow> nat \<Rightarrow> int \<Rightarrow> bool" where
  "least_found P offset r \<longleftrightarrow>
     (\<exists>p. P p \<and> (\<forall>q<p. \<not> P q) \<and> r = int (offset + p)) \<or> ((\<forall>p. \<not> P p) \<and> r = -1)"

lemma least_found_shift:
  assumes "least_found P (offset + n) r" and "\<And>p. Q (n + p) = P p" and "\<And>p. p < n \<Longrightarrow> \<not> Q p"
  shows "least_found Q offset r"
  using assms(1) unfolding least_found_def
proof (elim disjE exE conjE)
  fix p assume P: "P p" "\<forall>q<p. \<not> P q" "r = int (offset + n + p)"
  have "\<not> Q q" if "q < n + p" for q
    using that P(2) assms(2) [of "q - n"] assms(3) [of q] by (cases "q < n") auto
  then show "(\<exists>p. Q p \<and> (\<forall>q<p. \<not> Q q) \<and> r = int (offset + p)) \<or> (\<forall>p. \<not> Q p) \<and> r = - 1"
    using P(1,3) assms(2) [of p] by (intro disjI1 exI [of _ "n + p"]) (simp add: add.assoc)
next
  assume P: "\<forall>p. \<not> P p" "r = -1"
  have "\<not> Q q" for q
    using P(1) assms(2) [of "q - n"] assms(3) [of q] by (cases "q < n") auto
  then show "(\<exists>p. Q p \<and> (\<forall>q<p. \<not> Q q) \<and> r = int (offset + p)) \<or> (\<forall>p. \<not> Q p) \<and> r = - 1"
    using P(2) by blast
qed

lemma search_loop_spec:
  "list_all slice_wf ss \<Longrightarrow> needle \<noteq> [] \<Longrightarrow>
   least_found (found_at needle (suffix_bytes ss si) start left) offset
     (search_loop ss needle si start left offset)"
proof (induction ss needle si start left offset rule: search_loop.induct)
  case (1 ss needle si start left offset)
  show ?case
  proof (cases "si < length ss \<and> left > 0")
    case False
    then have "\<not> found_at needle (suffix_bytes ss si) start left p" for p
      using "1.prems"(2) by (cases needle) (auto simp: found_at_def)
    then show ?thesis using False by (subst search_loop.simps) (auto simp: least_found_def)
  next
    case True
    let ?s = "ss ! si" let ?C = "suffix_bytes ss si" let ?D = "suffix_bytes ss (si + 1)"
    have wf: "slice_wf ?s" using "1.prems" True by (simp add: list_all_length)
    have C: "?C = slice_bytes ?s @ ?D" using True by (simp add: suffix_bytes_split)
    have drop: "drop (dataSize ?s + p) ?C = drop p ?D" for p
      using length_slice_bytes [OF wf] by (simp add: C)
    show ?thesis
    proof (cases "dataSize ?s \<le> start")
      case skip: True
      have eq: "search_loop ss needle si start left offset =
          search_loop ss needle (si + 1) (start - dataSize ?s) left (offset + dataSize ?s)"
        using True skip by (subst search_loop.simps) (simp add: Let_def)
      have "found_at needle ?C start left (dataSize ?s + p) =
          found_at needle ?D (start - dataSize ?s) left p" for p
      proof -
        have "dataSize ?s + p - start = p - (start - dataSize ?s)"
          and "start \<le> dataSize ?s + p \<longleftrightarrow> start - dataSize ?s \<le> p" using skip by linarith+
        then show ?thesis by (simp only: found_at_def drop)
      qed
      moreover have "\<not> found_at needle ?C start left p" if "p < dataSize ?s" for p
        using that skip by (simp add: found_at_def)
      ultimately show ?thesis
        unfolding eq using least_found_shift [OF "1.IH"(1) [OF True refl skip "1.prems"]] by blast
    next
      case scan: False
      note sp = scan_loop_spec [OF "1.prems"(1) _ "1.prems"(2), of si start left]
      show ?thesis
      proof (cases "scan_loop ss needle si start left")
        case (Inl k)
        then have "search_loop ss needle si start left offset = int (offset + k)"
          using True scan by (subst search_loop.simps) (simp add: Let_def)
        with sp True Inl show ?thesis by (auto simp: least_found_def)
      next
        case (Inr l)
        have eq: "search_loop ss needle si start left offset =
            search_loop ss needle (si + 1) 0 l (offset + dataSize ?s)"
          using True scan Inr by (subst search_loop.simps) (simp add: Let_def)
        have l: "l = left - (dataSize ?s - start)"
          and none: "\<And>p. p < dataSize ?s \<Longrightarrow> \<not> found_at needle ?C start left p"
          using sp True Inr by auto
        have "left - (dataSize ?s + p - start) = l - p" for p
          using scan unfolding l by linarith
        then have "found_at needle ?C start left (dataSize ?s + p) = found_at needle ?D 0 l p" for p
          using scan by (simp add: found_at_def drop)
        then show ?thesis
          unfolding eq
          using least_found_shift [OF "1.IH"(2) [OF True refl scan Inr "1.prems"]] none by blast
      qed
    qed
  qed
qed

text \<open>The first position from \<open>start\<close> on at which the needle lies within \<open>stop\<close> bytes of \<open>xs\<close>.\<close>

definition occurs_at :: "byte list \<Rightarrow> byte list \<Rightarrow> nat \<Rightarrow> nat \<Rightarrow> nat \<Rightarrow> bool" where
  "occurs_at needle xs start stop p \<longleftrightarrow>
     start \<le> p \<and> p + length needle \<le> stop \<and> take (length needle) (drop p xs) = needle"

lemma found_at_occurs:
  assumes "needle \<noteq> []"
  shows "found_at needle xs start left p = occurs_at needle xs start (start + left) p"
proof -
  have "0 < length needle" using assms by simp
  then have "start \<le> p \<Longrightarrow> length needle \<le> left - (p - start) \<longleftrightarrow> p + length needle \<le> start + left"
    by linarith
  then show ?thesis by (auto simp: found_at_def occurs_at_def prefix_within_def)
qed

lemma own_search_occurs:
  assumes inv: "own_inv b" and small: "length (content b) < 2 ^ 64" "start < 2 ^ 64"
    and ne: "needle \<noteq> []"
  shows "least_found
    (occurs_at needle (content b) start (if len = 0 then length (content b) else start + len)) 0
    (own_search needle start len b)"
proof -
  define L where "L = (if len = 0 then unat (o_length b - word_of_nat start) else len)"
  have r: "own_search needle start len b = search_loop (slist b) needle 0 start L 0"
    using ne by (simp add: own_search_def L_def Let_def)
  have "occurs_at needle (content b) start (start + L) p \<longleftrightarrow>
      occurs_at needle (content b) start (if len = 0 then length (content b) else start + len) p" for p
  proof (cases "len = 0")
    case False
    then show ?thesis by (simp add: L_def)
  next
    case True
    have inside: "p + length needle \<le> length (content b)"
      if "take (length needle) (drop p (content b)) = needle"
    proof -
      have "length (take (length needle) (drop p (content b))) = length needle" by (simp only: that)
      then have "length needle \<le> length (content b) - p" by simp
      moreover have "0 < length needle" using ne by simp
      ultimately show ?thesis by linarith
    qed
    show ?thesis
    proof (cases "start \<le> length (content b)")
      case le: True
      have "o_length b - word_of_nat start = word_of_nat (length (content b) - start)"
        using le own_invD(4) [OF inv] by simp
      moreover have "length (content b) - start < 2 ^ 64" using small by simp
      ultimately have "L = length (content b) - start"
        using True unfolding L_def by (simp only: if_True refl unat_le_of_nat)
      with le True show ?thesis by simp
    next
      case False
      then show ?thesis using inside True by (auto simp: occurs_at_def)
    qed
  qed
  then have "occurs_at needle (content b) start (start + L) =
      occurs_at needle (content b) start (if len = 0 then length (content b) else start + len)" by blast
  moreover have "found_at needle (suffix_bytes (slist b) 0) start L =
      occurs_at needle (content b) start (start + L)"
    using found_at_occurs [OF ne] by (simp add: content_def fun_eq_iff)
  ultimately show ?thesis
    using search_loop_spec [OF own_invD(2) [OF inv] ne, of 0 start L 0] by (simp only: r)
qed

end
