(* ===== verification/BufferReserve.thy ===== *)
theory BufferReserve
  imports BufferMove
begin

text \<open>
  The reservation interface: \<open>reserveForRead\<close> and \<open>reserveWithMaxLength\<close>, \<open>reserveSingleSlice\<close>,
  \<open>commit\<close>, the owners of the reserved storage and the thread-local free list
  (\<open>common/buffer/BufferImpl.h\<close>, \<open>.cpp\<close>), with \<open>Reservation\<close> and \<open>ReservationSingleSlice\<close> of
  \<open>include/buffer/Buffer.h\<close>. Between the two calls the user writes through the reserved slices:
  \<open>fill_slices\<close>. The theorem about a reservation is that committing what was written appends it.
\<close>

section \<open>Definitions\<close>

datatype slices_owner =
    Owner_multiple "sized_storage list"
  | Owner_single sized_storage

fun ownedStorages :: "slices_owner \<Rightarrow> sized_storage list" where
  "ownedStorages (Owner_multiple sts) = sts"
| "ownedStorages (Owner_single st) = [st]"

text \<open>
  \<open>Reservation\<close> and \<open>ReservationSingleSlice\<close>. \<open>r_length\<close> is \<open>length_\<close>: \<open>None\<close> while the
  constructor has left it uninitialised.
\<close>

record reservation =
  r_slices :: "raw_slice list"
  r_owner :: "slices_owner option"
  r_length :: "nat option"

definition reservation_new :: reservation where
  "reservation_new = \<lparr>r_slices = [], r_owner = None, r_length = None\<rparr>"

text \<open>\<open>free_list_\<close>, last element on top, and its bound.\<close>

type_synonym free_list = "byte list list"

definition MAX_SLICES :: nat where
  "MAX_SLICES = 8"

definition default_read_reservation_size :: nat where
  "default_read_reservation_size = MAX_SLICES * default_slice_size"

definition owner_newStorage :: "free_list \<Rightarrow> sized_storage \<times> free_list" where
  "owner_newStorage free =
     (if free \<noteq> [] then (\<lparr>ss_mem = Some (last free), ss_len = default_slice_size\<rparr>, butlast free)
      else (\<lparr>ss_mem = Some (new_bytes default_slice_size), ss_len = default_slice_size\<rparr>, free))"

text \<open>The destructor of an owner. A single owner just frees its storage.\<close>

fun recycle :: "sized_storage list \<Rightarrow> free_list \<Rightarrow> free_list" where
  "recycle [] free = free"
| "recycle (st # sts) free =
     (case ss_mem st of
        None \<Rightarrow> recycle sts free
      | Some m \<Rightarrow> recycle sts (if length free < MAX_SLICES then free @ [m] else free))"

fun destroy_owner :: "slices_owner \<Rightarrow> free_list \<Rightarrow> free_list" where
  "destroy_owner (Owner_multiple sts) free = recycle (rev sts) free"
| "destroy_owner (Owner_single st) free = free"

function pop_empty_back :: "owned \<Rightarrow> owned" where
  "pop_empty_back b =
     (if \<not> o_empty b \<and> dataSize (o_back b) = 0 then pop_empty_back (o_pop_back b) else b)"
  by pat_completeness auto
termination
  by (relation "measure (\<lambda>b. dq_size (o_slices b))")
    (auto simp: dq_size_o_pop_back o_empty_def dq_empty_def)

declare pop_empty_back.simps [simp del]

text \<open>The second loop of \<open>reserveWithMaxLength\<close>.\<close>

function reserve_loop ::
  "nat \<Rightarrow> nat \<Rightarrow> raw_slice list \<Rightarrow> sized_storage list \<Rightarrow> free_list
    \<Rightarrow> (raw_slice list \<times> sized_storage list \<times> nat \<times> free_list) result" where
  "reserve_loop bytes_remaining reserved slices storages free =
     (if bytes_remaining \<noteq> 0 \<and> length slices < MAX_SLICES then
        let sz = default_slice_size in
        if sz > bytes_remaining \<and> reserved \<ge> sz then Inr (slices, storages, reserved, free)
        else let (storage, free1) = owner_newStorage free in
          if ss_len storage = sz then
            reserve_loop (bytes_remaining - min sz bytes_remaining) (reserved + sz)
              (slices @ [\<lparr>rs_mem = Elsewhere, rs_len = sz\<rparr>]) (storages @ [storage]) free1
          else Inl Assert_failed
      else Inr (slices, storages, reserved, free))"
  by pat_completeness auto
termination
  by (relation "measure (\<lambda>(rem, res, slices, sts, free). MAX_SLICES - length slices)") auto

declare reserve_loop.simps [simp del]

definition reserveWithMaxLength ::
  "nat \<Rightarrow> free_list \<Rightarrow> owned \<Rightarrow> (reservation \<times> owned \<times> free_list) result" where
  "reserveWithMaxLength max_length free b =
     (if max_length = 0 then Inr (reservation_new, b, free)
      else let b1 = pop_empty_back b;
          reservable_size = (if o_empty b1 then 0 else reservableSize (o_back b1));
          (slices, storages, remaining, reserved) =
            (if reservable_size \<ge> max_length \<or> reservable_size \<ge> default_slice_size div 8 then
               let reserve_size = min reservable_size max_length;
                   slice = slice_reserve reserve_size (o_back b1)
               in ([slice], [\<lparr>ss_mem = None, ss_len = 0\<rparr>], max_length - rs_len slice, rs_len slice)
             else ([], [], max_length, 0))
        in res_bind (reserve_loop remaining reserved slices storages free)
             (\<lambda>(slices1, storages1, reserved1, free1).
               assert_then (length slices1 = length storages1)
                 (Inr (\<lparr>r_slices = slices1, r_owner = Some (Owner_multiple storages1),
                        r_length = Some reserved1\<rparr>, b1, free1))))"

definition reserveForRead :: "free_list \<Rightarrow> owned \<Rightarrow> (reservation \<times> owned \<times> free_list) result" where
  "reserveForRead free b = reserveWithMaxLength default_read_reservation_size free b"

definition reserveSingleSlice :: "nat \<Rightarrow> bool \<Rightarrow> owned \<Rightarrow> (reservation \<times> owned) result" where
  "reserveSingleSlice len separate_slice b =
     (if len = 0
      then Inr (\<lparr>r_slices = [\<lparr>rs_mem = Null_ptr, rs_len = 0\<rparr>], r_owner = None, r_length = Some 0\<rparr>, b)
      else let b1 = pop_empty_back b;
          reservable_size =
            (if separate_slice \<or> o_empty b1 then 0 else reservableSize (o_back b1))
        in if reservable_size \<ge> len then
             let r = slice_reserve len (o_back b1)
             in Inr (\<lparr>r_slices = [r], r_owner = Some (Owner_single \<lparr>ss_mem = None, ss_len = 0\<rparr>),
                      r_length = Some (rs_len r)\<rparr>, b1)
           else let storage = newStorage (word_of_nat len)
             in assert_then (ss_len storage \<ge> len)
                  (Inr (\<lparr>r_slices = [\<lparr>rs_mem = Elsewhere, rs_len = len\<rparr>],
                         r_owner = Some (Owner_single storage), r_length = Some len\<rparr>, b1)))"

text \<open>\<open>OwnedImpl::commit\<close>: its loop, then the whole function, with what the end of the owner does.\<close>

fun commit_loop ::
  "raw_slice list \<Rightarrow> sized_storage list \<Rightarrow> nat \<Rightarrow> owned \<Rightarrow> (sized_storage list \<times> owned) result"
  where
  "commit_loop (r # rs) (st # sts) bytes_remaining b =
     (if bytes_remaining = 0 then Inr (st # sts, b)
      else let len = min (rs_len r) bytes_remaining in
        case ss_mem st of
          Some m \<Rightarrow>
            if len \<le> ss_len st then
              let (s, ev) = slice_of_storage st len (o_account b);
                  b1 = length_add len (o_emplace_back s (o_log ev b))
              in res_bind (commit_loop rs sts (bytes_remaining - len) b1) (\<lambda>(sts1, b2).
                   Inr (st\<lparr>ss_mem := None\<rparr> # sts1, b2))
            else Inl Assert_failed
        | None \<Rightarrow>
            let (success, s) = slice_commit_unsafe (r\<lparr>rs_len := len\<rparr>) (o_back b)
            in if success then
                 res_bind (commit_loop rs sts (bytes_remaining - len)
                     (length_add len (o_set_back s b)))
                   (\<lambda>(sts1, b2). Inr (st # sts1, b2))
               else Inl Assert_failed)"
| "commit_loop rs sts bytes_remaining b = Inr (sts, b)"

fun with_storages :: "slices_owner \<Rightarrow> sized_storage list \<Rightarrow> slices_owner" where
  "with_storages (Owner_multiple _) sts = Owner_multiple sts"
| "with_storages (Owner_single st) sts = Owner_single (case sts of [] \<Rightarrow> st | s # _ \<Rightarrow> s)"

definition own_commit ::
  "nat \<Rightarrow> reservation \<Rightarrow> free_list \<Rightarrow> owned \<Rightarrow> (owned \<times> free_list) result" where
  "own_commit len r free b =
     (if len = 0 then
        Inr (b, case r_owner r of None \<Rightarrow> free | Some own \<Rightarrow> destroy_owner own free)
      else case r_owner r of
          None \<Rightarrow> Inl Assert_failed
        | Some own \<Rightarrow>
            assert_then (length (r_slices r) = length (ownedStorages own))
              (res_bind (commit_loop (r_slices r) (ownedStorages own) len b) (\<lambda>(sts, b1).
                 Inr (b1, destroy_owner (with_storages own sts) free))))"

text \<open>\<open>Reservation::commit\<close> and \<open>ReservationSingleSlice::commit\<close>: the reservation is used up.\<close>

definition reservation_commit ::
  "nat \<Rightarrow> reservation \<Rightarrow> free_list \<Rightarrow> owned \<Rightarrow> (reservation \<times> owned \<times> free_list) result" where
  "reservation_commit len r free b =
     res_bind (own_commit len r free b) (\<lambda>(b1, free1).
       Inr (\<lparr>r_slices = [], r_owner = None, r_length = Some 0\<rparr>, b1, free1))"

definition reservation_single_commit ::
  "nat \<Rightarrow> reservation \<Rightarrow> owned \<Rightarrow> (reservation \<times> owned) result" where
  "reservation_single_commit len r b =
     res_bind (own_commit len r [] b) (\<lambda>(b1, _).
       Inr (\<lparr>r_slices = [\<lparr>rs_mem = Null_ptr, rs_len = 0\<rparr>], r_owner = None, r_length = Some 0\<rparr>, b1))"

text \<open>The user's writes: the bytes go to the reserved slices, in order, until they run out.\<close>

fun fill_slices ::
  "byte list \<Rightarrow> raw_slice list \<Rightarrow> sized_storage list \<Rightarrow> owned \<Rightarrow> sized_storage list \<times> owned" where
  "fill_slices bytes (r # rs) (st # sts) b =
     (let chunk = take (rs_len r) bytes;
          (st1, b1) =
            (case ss_mem st of
               Some m \<Rightarrow> (st\<lparr>ss_mem := Some (blit 0 chunk m)\<rparr>, b)
             | None \<Rightarrow> (st, o_set_back (slice_write (ptr_offset (rs_mem r)) chunk (o_back b)) b));
          (sts1, b2) = fill_slices (drop (rs_len r) bytes) rs sts b1
      in (st1 # sts1, b2))"
| "fill_slices bytes rs sts b = (sts, b)"

definition fill_reservation :: "byte list \<Rightarrow> reservation \<Rightarrow> owned \<Rightarrow> reservation \<times> owned" where
  "fill_reservation bytes r b =
     (case r_owner r of
        None \<Rightarrow> (r, b)
      | Some own \<Rightarrow>
          let (sts, b1) = fill_slices bytes (r_slices r) (ownedStorages own) b
          in (r\<lparr>r_owner := Some (with_storages own sts)\<rparr>, b1))"

section \<open>Dropping empty slices at the back\<close>

lemma pop_back_step:
  assumes inv: "own_inv b" and ne: "slist b \<noteq> []" and nil: "dataSize (last (slist b)) = 0"
  shows "own_inv (o_pop_back b)" "content (o_pop_back b) = content b" "keeps_books b (o_pop_back b)"
proof -
  note dq = own_invD [OF inv]
  obtain t s where snoc: "slist b = t @ [s]" using ne by (cases "slist b" rule: rev_cases) auto
  have "slice_bytes s = []"
    using slice_bytes_empty_iff [of s] dq(3) nil snoc by simp
  then show cont: "content (o_pop_back b) = content b"
    using dq(1) by (simp add: content_def owned_simps snoc)
  show "own_inv (o_pop_back b)"
    using dq(1,2,4) cont by (intro own_invI) (simp_all add: owned_simps snoc)
  show "keeps_books b (o_pop_back b)"
    using dq(1) by (simp add: keeps_books_def tracker_total_def acct_gap_def owned_simps snoc
        fun_eq_iff ac_simps)
qed

lemma pop_empty_back_step:
  "own_inv b \<Longrightarrow> own_inv (pop_empty_back b) \<and> content (pop_empty_back b) = content b
    \<and> keeps_books b (pop_empty_back b)"
proof (induction b rule: pop_empty_back.induct)
  case (1 b)
  show ?case
  proof (cases "\<not> o_empty b \<and> dataSize (o_back b) = 0")
    case True
    then have ne: "slist b \<noteq> []" by (simp add: o_empty_iff)
    then have "dataSize (last (slist b)) = 0"
      using True own_invD(1) [OF "1.prems"] by (simp add: o_back_last)
    note step = pop_back_step [OF "1.prems" ne this]
    have eq: "pop_empty_back b = pop_empty_back (o_pop_back b)"
      using True by (subst pop_empty_back.simps) simp
    show ?thesis
      unfolding eq using "1.IH" [OF True step(1)] step(2) keeps_books_trans [OF step(3)] by simp
  next
    case False
    then have "pop_empty_back b = b" by (subst pop_empty_back.simps) auto
    then show ?thesis using "1.prems" by simp
  qed
qed

section \<open>Filling and committing owned storage\<close>

definition owned_pair :: "raw_slice \<Rightarrow> sized_storage \<Rightarrow> bool" where
  "owned_pair r st \<longleftrightarrow> (\<exists>m. ss_mem st = Some m \<and> length m = ss_len st) \<and> 0 < rs_len r
     \<and> rs_len r \<le> ss_len st"

text \<open>A storage that has been used: moved out, or still the same block with other bytes.\<close>

definition kept_block :: "sized_storage \<Rightarrow> sized_storage \<Rightarrow> bool" where
  "kept_block st st' \<longleftrightarrow> ss_mem st' = None
     \<or> ss_mem st \<noteq> None \<and> (\<exists>m. ss_mem st' = Some m \<and> length m = ss_len st)"

abbreviation kept_blocks :: "sized_storage list \<Rightarrow> sized_storage list \<Rightarrow> bool" where
  "kept_blocks \<equiv> list_all2 kept_block"

definition in_back :: "owned \<Rightarrow> raw_slice \<Rightarrow> sized_storage \<Rightarrow> bool" where
  "in_back b r st \<longleftrightarrow> ss_mem st = None \<and> slist b \<noteq> [] \<and> 0 < rs_len r
     \<and> rs_mem r = At_offset (s_reservable (last (slist b)))
     \<and> rs_len r \<le> reservableSize (last (slist b))"

lemma add_storage_step:
  assumes inv: "own_inv b" and st: "ss_mem st = Some m" "length m = ss_len st"
    and n: "0 < n" "n \<le> ss_len st"
  defines "p \<equiv> slice_of_storage st n (o_account b)"
  defines "b' \<equiv> length_add n (o_emplace_back (fst p) (o_log (snd p) b))"
  shows "own_inv b'" "content b' = content b @ take n m" "keeps_books b b'"
    "o_account b' = o_account b"
proof -
  note dq = own_invD [OF inv]
  have s: "slice_wf (fst p)" "slice_bytes (fst p) = take n m" "s_trackers (fst p) = []"
    "s_account (fst p) = o_account b" "s_capacity (fst p) = ss_len st"
    "snd p = charge_events (o_account b) (ss_len st)"
    using st n by (simp_all add: p_def slice_of_storage_def slice_wf_def slice_bytes_def dataSize_def)
  have sel: "dq_wf (o_slices b')" "o_length b' = o_length b + word_of_nat n"
    "o_trace b' = o_trace b @ snd p" "slist b' = slist b @ [fst p]"
    using dq(1) by (simp_all add: b'_def owned_simps)
  show acct: "o_account b' = o_account b" using dq(1) by (simp add: b'_def owned_simps)
  show cont: "content b' = content b @ take n m" by (simp add: content_def sel s)
  show "own_inv b'"
    using dq(2,4) n st s(1) by (intro own_invI) (simp_all add: sel cont min_def)
  show "keeps_books b b'"
    by (auto simp: keeps_books_def tracker_total_def acct_gap_def acct sel s held_by_def fun_eq_iff)
qed

lemma fill_owned_buffer:
  "list_all2 owned_pair rs sts \<Longrightarrow> snd (fill_slices bytes rs sts b) = b"
  by (induction rs sts arbitrary: bytes rule: list_all2_induct)
    (auto simp: owned_pair_def Let_def case_prod_beta)

lemma fill_slices_owned_step:
  "ss_mem st = Some m \<Longrightarrow> fst (fill_slices bytes (r # rs) (st # sts) b) =
    st\<lparr>ss_mem := Some (blit 0 (take (rs_len r) bytes) m)\<rparr> # fst (fill_slices (drop (rs_len r) bytes) rs sts b)"
  by (simp add: Let_def case_prod_beta)

lemma commit_loop_0 [simp]: "commit_loop rs sts 0 b = Inr (sts, b)"
  by (cases rs; cases sts) auto

lemma commit_owned:
  "list_all2 owned_pair rs sts \<Longrightarrow> own_inv b \<Longrightarrow> length bytes \<le> sum_list (map rs_len rs) \<Longrightarrow>
   \<exists>sts' b'. commit_loop rs (fst (fill_slices bytes rs sts c)) (length bytes) b = Inr (sts', b')
     \<and> own_inv b' \<and> content b' = content b @ bytes \<and> keeps_books b b'
     \<and> kept_blocks sts sts'"
proof (induction rs sts arbitrary: bytes b rule: list_all2_induct)
  case Nil
  then show ?case by simp
next
  case (Cons r rs st sts)
  obtain m where m: "ss_mem st = Some m" "length m = ss_len st" and r: "0 < rs_len r" "rs_len r \<le> ss_len st"
    using Cons.hyps(1) by (auto simp: owned_pair_def)
  let ?chunk = "take (rs_len r) bytes" let ?rest = "drop (rs_len r) bytes"
  let ?st = "st\<lparr>ss_mem := Some (blit 0 ?chunk m)\<rparr>"
  have len: "length (blit 0 ?chunk m) = ss_len st" using m(2) r by simp
  show ?case
  proof (cases "bytes = []")
    case True
    have "kept_blocks sts
        (fst (fill_slices [] rs sts c))"
      using Cons.hyps(2)
      by (induction rs sts rule: list_all2_induct) (auto simp: owned_pair_def Let_def case_prod_beta kept_block_def)
    then show ?thesis
      using True Cons.prems(1) len m unfolding fill_slices_owned_step [OF m(1)]
      by (auto simp: kept_block_def [of st])
  next
    case False
    define n where "n = min (rs_len r) (length bytes)"
    have n: "0 < n" "n \<le> ss_len st" "length ?chunk = n" using False r by (auto simp: n_def)
    have take: "take n (blit 0 ?chunk m) = ?chunk"
      unfolding n(3) [symmetric] using take_drop_blit_same [of 0 ?chunk m] m(2) r by simp
    note step = add_storage_step [of b ?st "blit 0 ?chunk m" n, OF Cons.prems(1)]
    let ?p = "slice_of_storage ?st n (o_account b)"
    let ?b = "length_add n (o_emplace_back (fst ?p) (o_log (snd ?p) b))"
    have b: "own_inv ?b" "content ?b = content b @ ?chunk" "keeps_books b ?b"
      using step n len take by simp_all
    have rest: "length bytes - n = length ?rest" using n(3) by simp
    have "length ?rest \<le> sum_list (map rs_len rs)" using Cons.prems(2) by simp
    from Cons.IH [OF b(1) this] obtain sts' b' where IH:
      "commit_loop rs (fst (fill_slices ?rest rs sts c)) (length ?rest) ?b = Inr (sts', b')"
      "own_inv b'" "content b' = content ?b @ ?rest" "keeps_books ?b b'"
      "kept_blocks sts sts'"
      by auto
    have "commit_loop (r # rs) (fst (fill_slices bytes (r # rs) (st # sts) c)) (length bytes) b =
        Inr (?st\<lparr>ss_mem := None\<rparr> # sts', b')"
      unfolding fill_slices_owned_step [OF m(1)]
      using False n IH(1) rest
      by (simp add: Let_def case_prod_beta n_def [symmetric])
    moreover have "content b' = content b @ bytes" using IH(3) b(2) by simp
    moreover have "kept_blocks (st # sts) (?st\<lparr>ss_mem := None\<rparr> # sts')"
      using IH(5) by (simp add: kept_block_def [of st])
    ultimately show ?thesis using IH(2) keeps_books_trans [OF b(3) IH(4)] by blast
  qed
qed

section \<open>Filling and committing the last slice\<close>

lemma fill_back_step:
  assumes inv: "own_inv b" and ne: "slist b \<noteq> []"
    and room: "length chunk \<le> reservableSize (last (slist b))"
  defines "s \<equiv> last (slist b)"
  defines "b1 \<equiv> o_set_back (slice_write (s_reservable s) chunk s) b"
  shows "own_inv b1" "content b1 = content b" "keeps_books b b1"
    "slist b1 = butlast (slist b) @ [slice_write (s_reservable s) chunk s]"
proof -
  have wf: "slice_wf s" using own_invD(3) [OF inv] ne by (simp add: s_def)
  have fit: "s_reservable s + length chunk \<le> length (s_base s)"
    using room slice_wfD [OF wf] by (simp add: s_def reservableSize_def)
  let ?w = "slice_write (s_reservable s) chunk s"
  have w: "slice_wf ?w" "slice_bytes ?w = slice_bytes s @ []" "s_account ?w = s_account s"
    "s_trackers ?w = s_trackers s" "s_capacity ?w = s_capacity s"
    using wf fit slice_wfD(1,2) [OF wf]
    by (auto simp: slice_write_def slice_wf_def slice_bytes_def dataSize_def blit_def drop_take)
  have b1: "b1 = length_add (length ([]::byte list)) (o_set_back ?w b)"
    by (simp add: b1_def length_add_def)
  show "own_inv b1" "content b1 = content b" "keeps_books b b1" "slist b1 = butlast (slist b) @ [?w]"
    unfolding b1 using set_back_step [OF inv ne w(1-5) [unfolded s_def]]
    by (simp_all only: append_Nil2 s_def)
qed

lemma commit_back_step:
  assumes inv: "own_inv b" and ne: "slist b \<noteq> []" and chunk: "chunk \<noteq> []"
    and room: "length chunk \<le> reservableSize (last (slist b))"
    and r: "rs_len r = length chunk"
  defines "s \<equiv> last (slist b)"
  defines "b1 \<equiv> o_set_back (slice_write (s_reservable s) chunk s) b"
  defines "b2 \<equiv> length_add (length chunk) (o_set_back (snd (slice_commit_unsafe r (o_back b1))) b1)"
  shows "own_inv b2" "content b2 = content b @ chunk" "keeps_books b b2"
proof -
  note b1 = fill_back_step [OF inv ne room, folded s_def, folded b1_def]
  have wf: "slice_wf s" using own_invD(3) [OF inv] ne by (simp add: s_def)
  have bk: "o_back b1 = slice_write (s_reservable s) chunk s"
    using own_invD(1) [OF b1(1)] b1(4) by (simp add: o_back_last)
  have eq: "snd (slice_commit_unsafe r (o_back b1)) = snd (slice_append chunk s)"
    using room chunk r by (simp add: bk slice_commit_unsafe_def slice_append_def slice_write_def
        min_def s_def Let_def)
  have last: "last (slist b1) = slice_write (s_reservable s) chunk s" and ne1: "slist b1 \<noteq> []"
    using b1(4) by simp_all
  have "slice_bytes (snd (slice_append chunk s)) = slice_bytes (last (slist b1)) @ chunk"
  proof -
    have "slice_bytes (slice_write (s_reservable s) chunk s) = slice_bytes s"
      using slice_wfD [OF wf] room by (auto simp: slice_bytes_def slice_write_def dataSize_def blit_def
          drop_take)
    then show ?thesis using slice_append_bytes [OF wf, of chunk] room by (simp add: last s_def min_def)
  qed
  note step = set_back_step [OF b1(1) ne1 slice_append_wf [OF wf] this]
  have frame: "s_account (snd (slice_append chunk s)) = s_account (last (slist b1))"
    "s_trackers (snd (slice_append chunk s)) = s_trackers (last (slist b1))"
    "s_capacity (snd (slice_append chunk s)) = s_capacity (last (slist b1))"
    by (simp_all add: last slice_append_frame slice_write_def)
  show "own_inv b2" "content b2 = content b @ chunk" "keeps_books b b2"
    unfolding b2_def eq using step(1-3) [OF frame] b1(2) keeps_books_trans [OF b1(3)] by simp_all
qed

text \<open>A reservation that is ready for use on \<open>b\<close>: storage of its own, except perhaps a first
  slice that is the reservable tail of the buffer's last slice.\<close>

definition ready :: "owned \<Rightarrow> raw_slice list \<Rightarrow> sized_storage list \<Rightarrow> bool" where
  "ready b rs sts \<longleftrightarrow> list_all2 owned_pair rs sts
     \<or> (\<exists>r rs' st sts'. rs = r # rs' \<and> sts = st # sts' \<and> in_back b r st \<and> list_all2 owned_pair rs' sts')"

lemma commit_ready:
  assumes ready: "ready b rs sts" and inv: "own_inv b" and len: "length bytes \<le> sum_list (map rs_len rs)"
    and ne: "bytes \<noteq> []"
  shows "\<exists>sts1 b1 sts2 b2. fill_slices bytes rs sts b = (sts1, b1)
    \<and> commit_loop rs sts1 (length bytes) b1 = Inr (sts2, b2)
    \<and> own_inv b2 \<and> content b2 = content b @ bytes \<and> keeps_books b b2 \<and> kept_blocks sts sts2"
  using ready unfolding ready_def
proof (elim disjE exE conjE)
  assume owned: "list_all2 owned_pair rs sts"
  have "fill_slices bytes rs sts b = (fst (fill_slices bytes rs sts b), b)"
    using fill_owned_buffer [OF owned, of bytes b] by (cases "fill_slices bytes rs sts b") simp
  with commit_owned [OF owned inv len, of b] show ?thesis by auto
next
  fix r rs' st sts'
  assume eqs: "rs = r # rs'" "sts = st # sts'" and bk: "in_back b r st"
    and owned: "list_all2 owned_pair rs' sts'"
  let ?s = "last (slist b)" let ?chunk = "take (rs_len r) bytes" let ?rest = "drop (rs_len r) bytes"
  let ?b1 = "o_set_back (slice_write (s_reservable ?s) ?chunk ?s) b"
  define n where "n = min (rs_len r) (length bytes)"
  let ?r = "r\<lparr>rs_len := n\<rparr>"
  let ?b2 = "length_add n (o_set_back (snd (slice_commit_unsafe ?r (o_back ?b1))) ?b1)"
  have n: "length ?chunk = n" "0 < n" using ne bk by (auto simp: n_def in_back_def)
  have rest: "length bytes - n = length ?rest" using n(1) by simp
  have ob: "o_back b = ?s" using bk own_invD(1) [OF inv] by (simp add: o_back_last in_back_def)
  have "slist b \<noteq> []" "?chunk \<noteq> []" "length ?chunk \<le> reservableSize ?s" "rs_len ?r = length ?chunk"
    using bk ne n by (auto simp: in_back_def)
  note step = commit_back_step [OF inv this, unfolded n(1)]
  have fill: "fill_slices bytes rs sts b = (st # fst (fill_slices ?rest rs' sts' ?b1), ?b1)"
    using bk by (simp add: eqs in_back_def Let_def case_prod_beta ob fill_owned_buffer [OF owned])
  have "length ?rest \<le> sum_list (map rs_len rs')" using len by (simp add: eqs)
  from commit_owned [OF owned step(1) this, of ?b1] obtain sts2 b2 where c:
    "commit_loop rs' (fst (fill_slices ?rest rs' sts' ?b1)) (length ?rest) ?b2 = Inr (sts2, b2)"
    "own_inv b2" "content b2 = content ?b2 @ ?rest" "keeps_books ?b2 b2" "kept_blocks sts' sts2"
    by auto
  have "commit_loop rs (st # fst (fill_slices ?rest rs' sts' ?b1)) (length bytes) ?b1 = Inr (st # sts2, b2)"
    using ne bk c(1) n(2) rest
    by (simp add: eqs in_back_def Let_def case_prod_beta slice_commit_unsafe_def n_def [symmetric])
  moreover have "kept_blocks sts (st # sts2)" using c(5) bk by (simp add: eqs in_back_def kept_block_def)
  moreover have "content b2 = content b @ bytes" using c(3) step(2) by simp
  ultimately show ?thesis using fill c(2) keeps_books_trans [OF step(3) c(4)] by auto
qed

section \<open>Reserving\<close>

definition free_ok :: "free_list \<Rightarrow> bool" where
  "free_ok free \<longleftrightarrow> length free \<le> MAX_SLICES \<and> list_all (\<lambda>m. length m = default_slice_size) free"

text \<open>Storage the multiple owner may hold: none, or a block of the default size.\<close>

definition owner_ok :: "sized_storage list \<Rightarrow> bool" where
  "owner_ok = list_all (\<lambda>st. ss_mem st = None \<or> ss_len st = default_slice_size)"

lemma owner_newStorage_step:
  assumes "free_ok free"
  shows "ss_len (fst (owner_newStorage free)) = default_slice_size"
    "owned_pair \<lparr>rs_mem = Elsewhere, rs_len = default_slice_size\<rparr> (fst (owner_newStorage free))"
    "free_ok (snd (owner_newStorage free))"
  using assms
  by (auto simp: owner_newStorage_def free_ok_def owned_pair_def new_bytes_def default_slice_size_def
      list_all_iff dest: in_set_butlastD)

lemma recycle_ok:
  "free_ok free \<Longrightarrow> list_all (\<lambda>st. ss_mem st = None \<or> (\<exists>m. ss_mem st = Some m \<and> length m = default_slice_size)) sts
    \<Longrightarrow> free_ok (recycle sts free)"
  by (induction sts free rule: recycle.induct) (auto simp: free_ok_def split: option.splits)

lemma reserve_loop_spec:
  "free_ok free \<Longrightarrow> length slices \<le> MAX_SLICES \<Longrightarrow>
   \<exists>rs sts free'. reserve_loop remaining reserved slices storages free =
       Inr (slices @ rs, storages @ sts, reserved + sum_list (map rs_len rs), free')
     \<and> list_all2 owned_pair rs sts \<and> owner_ok sts \<and> free_ok free'
     \<and> length (slices @ rs) \<le> MAX_SLICES
     \<and> (remaining = 0 \<longrightarrow> rs = [])
     \<and> (rs \<noteq> [] \<longrightarrow> sum_list (map rs_len rs) < remaining + default_slice_size)
     \<and> (length slices < MAX_SLICES \<longrightarrow>
          min (reserved + remaining) default_slice_size \<le> reserved + sum_list (map rs_len rs))"
proof (induction remaining reserved slices storages free rule: reserve_loop.induct)
  case (1 remaining reserved slices storages free)
  let ?sz = default_slice_size
  show ?case
  proof (cases "remaining \<noteq> 0 \<and> length slices < MAX_SLICES \<and> \<not> (?sz > remaining \<and> reserved \<ge> ?sz)")
    case False
    then have eq: "reserve_loop remaining reserved slices storages free = Inr (slices, storages, reserved, free)"
      by (subst reserve_loop.simps) (auto simp: Let_def)
    show ?thesis
      using "1.prems" False unfolding eq
      by (intro exI [of _ "[]"] exI [of _ free]) (auto simp: owner_ok_def)
  next
    case True
    let ?p = "owner_newStorage free" let ?r = "\<lparr>rs_mem = Elsewhere, rs_len = ?sz\<rparr>"
    note new = owner_newStorage_step [OF "1.prems"(1)]
    have eq: "reserve_loop remaining reserved slices storages free =
        reserve_loop (remaining - min ?sz remaining) (reserved + ?sz) (slices @ [?r])
          (storages @ [fst ?p]) (snd ?p)"
      using True new(1) by (subst reserve_loop.simps) (auto simp: Let_def case_prod_beta)
    have go: "remaining \<noteq> 0 \<and> length slices < MAX_SLICES" and stay: "\<not> (?sz > remaining \<and> reserved \<ge> ?sz)"
      using True by auto
    have "length (slices @ [?r]) \<le> MAX_SLICES" using go by simp
    from "1.IH" [OF go refl stay refl prod.collapse new(1) new(3) this]
    obtain rs sts free' where IH: "reserve_loop (remaining - min ?sz remaining) (reserved + ?sz) (slices @ [?r])
          (storages @ [fst ?p]) (snd ?p) =
        Inr ((slices @ [?r]) @ rs, (storages @ [fst ?p]) @ sts, reserved + ?sz + sum_list (map rs_len rs), free')"
      "list_all2 owned_pair rs sts" "owner_ok sts" "free_ok free'" "length ((slices @ [?r]) @ rs) \<le> MAX_SLICES"
      "remaining - min ?sz remaining = 0 \<longrightarrow> rs = []"
      "rs \<noteq> [] \<longrightarrow> sum_list (map rs_len rs) < remaining - min ?sz remaining + ?sz"
      by (elim exE conjE) (rule that)
    have "sum_list (map rs_len (?r # rs)) < remaining + ?sz"
      using IH(6,7) go by (cases "rs = []") (auto simp: min_def split: if_splits)
    then show ?thesis
      unfolding eq IH(1)
      using IH(2-5) new(1,2)
      by (intro exI [of _ "?r # rs"] exI [of _ "fst ?p # sts"] exI [of _ free'])
        (auto simp: owner_ok_def)
  qed
qed

lemma reserveWithMaxLength_total:
  assumes inv: "own_inv b" and free: "free_ok free" and len: "0 < max_length"
  shows "\<exists>rs sts tot b1 free1. reserveWithMaxLength max_length free b =
      Inr (\<lparr>r_slices = rs, r_owner = Some (Owner_multiple sts), r_length = Some tot\<rparr>, b1, free1)
    \<and> own_inv b1 \<and> content b1 = content b \<and> keeps_books b b1 \<and> ready b1 rs sts \<and> owner_ok sts
    \<and> free_ok free1 \<and> length rs \<le> MAX_SLICES \<and> tot = sum_list (map rs_len rs)
    \<and> min max_length (default_slice_size div 8) \<le> tot \<and> tot < max_length + default_slice_size"
proof -
  let ?b = "pop_empty_back b"
  have b: "own_inv ?b" "content ?b = content b" "keeps_books b ?b"
    using pop_empty_back_step [OF inv] by simp_all
  define room where "room = (if o_empty ?b then 0 else reservableSize (o_back ?b))"
  show ?thesis
  proof (cases "room \<ge> max_length \<or> room \<ge> default_slice_size div 8")
    case True
    define n where "n = min room max_length"
    let ?r = "slice_reserve n (o_back ?b)" let ?st = "\<lparr>ss_mem = None, ss_len = 0\<rparr>"
    have pos: "0 < room" using True len by (auto simp: default_slice_size_def)
    then have ne: "slist ?b \<noteq> []" and room: "room = reservableSize (last (slist ?b))"
      using own_invD(1) [OF b(1)] by (auto simp: room_def o_empty_iff o_back_last split: if_splits)
    have n: "0 < n" "n \<le> room" "n \<le> max_length" using pos len by (simp_all add: n_def)
    have r: "rs_len ?r = n"
      using n room ne own_invD(1) [OF b(1)] by (simp add: rs_len_slice_reserve o_back_last)
    have "in_back ?b ?r ?st"
      using ne n room r own_invD(1) [OF b(1)] rs_mem_slice_reserve [of n "last (slist ?b)"]
      by (simp add: in_back_def o_back_last)
    moreover obtain rs sts free' where loop:
      "reserve_loop (max_length - n) n [?r] [?st] free =
         Inr ([?r] @ rs, [?st] @ sts, n + sum_list (map rs_len rs), free')"
      "list_all2 owned_pair rs sts" "owner_ok sts" "free_ok free'" "length ([?r] @ rs) \<le> MAX_SLICES"
      "rs \<noteq> [] \<longrightarrow> sum_list (map rs_len rs) < max_length - n + default_slice_size"
      using reserve_loop_spec [OF free, of "[?r]" "max_length - n" n "[?st]"]
      by (auto simp: MAX_SLICES_def)
    moreover have "reserveWithMaxLength max_length free b =
        Inr (\<lparr>r_slices = ?r # rs, r_owner = Some (Owner_multiple (?st # sts)),
          r_length = Some (n + sum_list (map rs_len rs))\<rparr>, ?b, free')"
      using len True loop(1) r list_all2_lengthD [OF loop(2)]
      by (simp add: reserveWithMaxLength_def Let_def room_def [symmetric] n_def [symmetric])
    moreover have "min max_length (default_slice_size div 8) \<le> n"
      using True len by (auto simp: n_def)
    moreover have "n + sum_list (map rs_len rs) < max_length + default_slice_size"
      using loop(6) n by (cases "rs = []") (auto simp: default_slice_size_def)
    ultimately show ?thesis using b r by (auto simp: ready_def owner_ok_def)
  next
    case False
    obtain rs sts free' where loop:
      "reserve_loop max_length 0 [] [] free = Inr (rs, sts, sum_list (map rs_len rs), free')"
      "list_all2 owned_pair rs sts" "owner_ok sts" "free_ok free'" "length rs \<le> MAX_SLICES"
      "rs \<noteq> [] \<longrightarrow> sum_list (map rs_len rs) < max_length + default_slice_size"
      "min max_length default_slice_size \<le> sum_list (map rs_len rs)"
      using reserve_loop_spec [OF free, of "[]" max_length 0 "[]"] by (auto simp: MAX_SLICES_def)
    moreover have "reserveWithMaxLength max_length free b =
        Inr (\<lparr>r_slices = rs, r_owner = Some (Owner_multiple sts),
          r_length = Some (sum_list (map rs_len rs))\<rparr>, ?b, free')"
      using len False loop(1) list_all2_lengthD [OF loop(2)]
      by (simp add: reserveWithMaxLength_def Let_def room_def [symmetric])
    moreover have "min max_length (default_slice_size div 8) \<le> sum_list (map rs_len rs)"
      using loop(7) by (auto simp: default_slice_size_def)
    moreover have "sum_list (map rs_len rs) < max_length + default_slice_size"
      using loop(6) len by (cases "rs = []") auto
    ultimately show ?thesis using b by (auto simp: ready_def)
  qed
qed

section \<open>Reserve, write, commit\<close>

lemma kept_blocks_fill_Nil:
  "list_all2 owned_pair rs sts \<Longrightarrow> kept_blocks sts (fst (fill_slices [] rs sts c))"
  by (induction rs sts rule: list_all2_induct)
    (auto simp: owned_pair_def Let_def case_prod_beta kept_block_def)

lemma fill_ready_Nil:
  assumes "ready b rs sts" and inv: "own_inv b"
  shows "\<exists>sts1 b1. fill_slices [] rs sts b = (sts1, b1) \<and> own_inv b1 \<and> content b1 = content b
    \<and> keeps_books b b1 \<and> kept_blocks sts sts1"
  using assms(1) unfolding ready_def
proof (elim disjE exE conjE)
  assume owned: "list_all2 owned_pair rs sts"
  have "fill_slices [] rs sts b = (fst (fill_slices [] rs sts b), b)"
    using fill_owned_buffer [OF owned, of "[]" b] by (cases "fill_slices [] rs sts b") simp
  then show ?thesis using kept_blocks_fill_Nil [OF owned, of b] inv by auto
next
  fix r rs' st sts'
  assume eqs: "rs = r # rs'" "sts = st # sts'" and bk: "in_back b r st"
    and owned: "list_all2 owned_pair rs' sts'"
  let ?s = "last (slist b)"
  let ?b1 = "o_set_back (slice_write (s_reservable ?s) [] ?s) b"
  have ob: "o_back b = ?s" using bk own_invD(1) [OF inv] by (simp add: o_back_last in_back_def)
  have "slist b \<noteq> []" "length ([] :: byte list) \<le> reservableSize ?s" using bk by (simp_all add: in_back_def)
  note step = fill_back_step [OF inv this]
  have "fill_slices [] rs sts b = (st # fst (fill_slices [] rs' sts' ?b1), ?b1)"
    using bk by (simp add: eqs in_back_def Let_def case_prod_beta ob fill_owned_buffer [OF owned])
  then show ?thesis
    using step(1-3) kept_blocks_fill_Nil [OF owned, of ?b1] bk
    by (auto simp: eqs in_back_def kept_block_def)
qed

lemma kept_blocks_recycle:
  assumes "kept_blocks sts sts'" "owner_ok sts" "free_ok free"
  shows "free_ok (recycle (rev sts') free)"
proof (rule recycle_ok [OF assms(3)])
  have "list_all (\<lambda>st. ss_mem st = None \<or> (\<exists>m. ss_mem st = Some m \<and> length m = default_slice_size)) sts'"
    using assms(1,2) by (induction rule: list_all2_induct) (auto simp: kept_block_def owner_ok_def)
  then show "list_all (\<lambda>st. ss_mem st = None \<or> (\<exists>m. ss_mem st = Some m \<and> length m = default_slice_size)) (rev sts')"
    by simp
qed

lemma kept_blocks_length: "kept_blocks sts sts' \<Longrightarrow> length sts' = length sts"
  by (simp add: list_all2_lengthD)

lemma length_fill_slices:
  "length rs = length sts \<Longrightarrow> length (fst (fill_slices bytes rs sts b)) = length sts"
  by (induction rs sts arbitrary: bytes b rule: list_induct2)
    (auto simp: Let_def case_prod_beta split: option.splits)

lemma fill_keeps_length:
  "fill_slices bytes rs sts b = (sts1, b1) \<Longrightarrow> length rs = length sts \<Longrightarrow> length sts1 = length sts"
  using length_fill_slices [of rs sts bytes b] by simp

lemma ready_length: "ready b rs sts \<Longrightarrow> length rs = length sts"
  by (auto simp: ready_def dest: list_all2_lengthD)

lemma multiple_commit_total:
  fixes tot :: "nat option"
  assumes ready: "ready b rs sts" and inv: "own_inv b" and ok: "owner_ok sts" "free_ok free"
    and len: "length bytes \<le> sum_list (map rs_len rs)"
  defines "r \<equiv> \<lparr>r_slices = rs, r_owner = Some (Owner_multiple sts), r_length = tot\<rparr>"
  shows "\<exists>r' b1 r2 b2 free2. fill_reservation bytes r b = (r', b1)
    \<and> reservation_commit (length bytes) r' free b1 = Inr (r2, b2, free2)
    \<and> own_inv b2 \<and> content b2 = content b @ bytes \<and> keeps_books b b2 \<and> free_ok free2"
proof (cases "bytes = []")
  case True
  from fill_ready_Nil [OF ready inv] obtain sts1 b1 where f: "fill_slices [] rs sts b = (sts1, b1)"
    "own_inv b1" "content b1 = content b" "keeps_books b b1" "kept_blocks sts sts1" by auto
  then show ?thesis
    using True kept_blocks_recycle [OF f(5) ok]
    by (auto simp: fill_reservation_def r_def reservation_commit_def own_commit_def)
next
  case False
  from commit_ready [OF ready inv len False] obtain sts1 b1 sts2 b2 where c:
    "fill_slices bytes rs sts b = (sts1, b1)" "commit_loop rs sts1 (length bytes) b1 = Inr (sts2, b2)"
    "own_inv b2" "content b2 = content b @ bytes" "keeps_books b b2" "kept_blocks sts sts2" by auto
  have "length rs = length sts1" using fill_keeps_length [OF c(1)] ready_length [OF ready] by simp
  then show ?thesis
    using False c kept_blocks_recycle [OF c(6) ok]
    by (auto simp: fill_reservation_def r_def reservation_commit_def own_commit_def)
qed

text \<open>A single reservation: in the tail of the last slice, or in storage of its own.\<close>

lemma reserveSingleSlice_total:
  assumes inv: "own_inv b" and len: "0 < len" "len \<le> max_request"
  shows "\<exists>rs st b1. reserveSingleSlice len separate b =
      Inr (\<lparr>r_slices = [rs], r_owner = Some (Owner_single st), r_length = Some len\<rparr>, b1)
    \<and> own_inv b1 \<and> content b1 = content b \<and> keeps_books b b1 \<and> ready b1 [rs] [st] \<and> rs_len rs = len
    \<and> (separate \<longrightarrow> ss_mem st \<noteq> None)"
proof -
  let ?b = "pop_empty_back b"
  have b: "own_inv ?b" "content ?b = content b" "keeps_books b ?b"
    using pop_empty_back_step [OF inv] by simp_all
  define room where "room = (if separate \<or> o_empty ?b then 0 else reservableSize (o_back ?b))"
  show ?thesis
  proof (cases "room \<ge> len")
    case True
    then have ne: "slist ?b \<noteq> []" and room: "len \<le> reservableSize (last (slist ?b))" and sep: "\<not> separate"
      using len own_invD(1) [OF b(1)] by (auto simp: room_def o_empty_iff o_back_last split: if_splits)
    let ?r = "slice_reserve len (o_back ?b)" let ?st = "\<lparr>ss_mem = None, ss_len = 0\<rparr>"
    have bk: "o_back ?b = last (slist ?b)" using ne own_invD(1) [OF b(1)] by (simp add: o_back_last)
    have r: "rs_len ?r = len" using room by (simp add: bk rs_len_slice_reserve)
    have "in_back ?b ?r ?st"
      using ne room r len rs_mem_slice_reserve [of len "last (slist ?b)"] by (simp add: in_back_def bk)
    moreover have "reserveSingleSlice len separate b =
        Inr (\<lparr>r_slices = [?r], r_owner = Some (Owner_single ?st), r_length = Some len\<rparr>, ?b)"
      using True len r by (simp add: reserveSingleSlice_def Let_def room_def)
    ultimately show ?thesis using b r sep by (auto simp: ready_def)
  next
    case False
    let ?st = "newStorage (word_of_nat len)" let ?r = "\<lparr>rs_mem = Elsewhere, rs_len = len\<rparr>"
    have fit: "len \<le> ss_len ?st" using sliceSize_request [OF len(2)] by (simp add: newStorage_def Let_def)
    have mem: "ss_mem ?st = Some (new_bytes (ss_len ?st))" by (simp add: newStorage_def Let_def)
    then have "owned_pair ?r ?st" using fit len by (simp add: owned_pair_def new_bytes_def)
    moreover have "reserveSingleSlice len separate b =
        Inr (\<lparr>r_slices = [?r], r_owner = Some (Owner_single ?st), r_length = Some len\<rparr>, ?b)"
      using False len fit by (simp add: reserveSingleSlice_def Let_def room_def)
    ultimately show ?thesis using b mem by (auto simp: ready_def)
  qed
qed

lemma single_commit_total:
  fixes tot :: "nat option"
  assumes ready: "ready b [rs] [st]" and inv: "own_inv b" and len: "length bytes \<le> rs_len rs"
  defines "r \<equiv> \<lparr>r_slices = [rs], r_owner = Some (Owner_single st), r_length = tot\<rparr>"
  shows "\<exists>r' b1 r2 b2. fill_reservation bytes r b = (r', b1)
    \<and> reservation_single_commit (length bytes) r' b1 = Inr (r2, b2)
    \<and> own_inv b2 \<and> content b2 = content b @ bytes \<and> keeps_books b b2"
proof (cases "bytes = []")
  case True
  from fill_ready_Nil [OF ready inv] obtain sts1 b1 where f: "fill_slices [] [rs] [st] b = (sts1, b1)"
    "own_inv b1" "content b1 = content b" "keeps_books b b1" by auto
  then show ?thesis
    using True by (auto simp: fill_reservation_def r_def reservation_single_commit_def own_commit_def
        simp del: fill_slices.simps)
next
  case False
  from commit_ready [OF ready inv _ False] len obtain sts1 b1 sts2 b2 where c:
    "fill_slices bytes [rs] [st] b = (sts1, b1)" "commit_loop [rs] sts1 (length bytes) b1 = Inr (sts2, b2)"
    "own_inv b2" "content b2 = content b @ bytes" "keeps_books b b2" by auto
  obtain st1 where st1: "sts1 = [st1]" using fill_keeps_length [OF c(1)] by (cases sts1) auto
  show ?thesis
    using False c by (auto simp: fill_reservation_def r_def reservation_single_commit_def own_commit_def st1
        simp del: fill_slices.simps commit_loop.simps)
qed

end
