(* ===== verification/BufferInts.thy ===== *)
theory BufferInts
  imports BufferRead
begin

text \<open>
  The integer templates of \<open>Buffer::Instance\<close> (\<open>include/buffer/Buffer.h\<close>): \<open>peekInt\<close>,
  \<open>drainInt\<close>, \<open>writeInt\<close> and \<open>writeByte\<close>, over the conversions of \<open>common/common/ByteOrder.h\<close>.

  An integral type \<open>T\<close> is given by its width in bytes, \<open>sizeof(T)\<close>, and its signedness; a value of
  \<open>T\<close> is the natural number below \<open>256 ^ sizeof(T)\<close> its bits stand for. The host is little-endian
  (x86-64), so the object representation of a value is \<open>le_bytes\<close>; \<open>Host\<close> is then the same as
  \<open>LittleEndian\<close>, and \<open>htobe\<close>/\<open>betoh\<close> reverse the bytes.
\<close>

section \<open>Byte order\<close>

datatype byte_order = Host | LittleEndian | BigEndian

record int_type =
  sizeof_T :: nat
  is_signed :: bool

fun le_bytes :: "nat \<Rightarrow> nat \<Rightarrow> byte list" where
  "le_bytes 0 v = []"
| "le_bytes (Suc n) v = word_of_nat v # le_bytes n (v div 256)"

fun le_value :: "byte list \<Rightarrow> nat" where
  "le_value [] = 0"
| "le_value (x # xs) = unat x + 256 * le_value xs"

definition byte_swap :: "nat \<Rightarrow> nat \<Rightarrow> nat" where
  "byte_swap n v = le_value (rev (le_bytes n v))"

text \<open>\<open>EndiannessConverter<Endianness, T>::to\<close> and \<open>from\<close>.\<close>

fun toEndianness :: "byte_order \<Rightarrow> nat \<Rightarrow> nat \<Rightarrow> nat" where
  "toEndianness Host n v = v"
| "toEndianness LittleEndian n v = v"
| "toEndianness BigEndian n v = (if n = 1 then v else byte_swap n v)"

fun fromEndianness :: "byte_order \<Rightarrow> nat \<Rightarrow> nat \<Rightarrow> nat" where
  "fromEndianness Host n v = v"
| "fromEndianness LittleEndian n v = v"
| "fromEndianness BigEndian n v = (if n = 1 then v else byte_swap n v)"

section \<open>Reading and writing integers\<close>

text \<open>
  \<open>peekInt<T, Endianness, Size>(start)\<close>. The check that the buffer is long enough has an empty body,
  so that a short buffer reaches the assertion of \<open>copyOut\<close>. \<open>result\<close> is 0 before the copy.
\<close>

definition peekInt :: "int_type \<Rightarrow> byte_order \<Rightarrow> nat \<Rightarrow> nat \<Rightarrow> owned \<Rightarrow> nat result" where
  "peekInt T endianness sz start b =
     (let n = sizeof_T T;
          displacement = (if endianness = BigEndian then n - sz else 0)
      in res_bind (own_length b) (\<lambda>_.
         res_bind (copyOut start sz b) (\<lambda>copied.
           let bytes = blit displacement copied (replicate n 0);
               most_significant_read_byte = (if endianness = BigEndian then displacement else sz - 1);
               all_bits_enabled = 256 ^ n - 1;
               sign_extension_bits =
                 (if is_signed T \<and> sz < n \<and> sint (bytes ! most_significant_read_byte) < 0
                  then (all_bits_enabled * 2 ^ (sz mod n * 8)) mod 256 ^ n else 0)
           in Inr (fromEndianness endianness n (le_value bytes) OR sign_extension_bits))))"

definition drainInt :: "int_type \<Rightarrow> byte_order \<Rightarrow> nat \<Rightarrow> owned \<Rightarrow> (nat \<times> owned) result" where
  "drainInt T endianness sz b =
     res_bind (peekInt T endianness sz 0 b) (\<lambda>result. Inr (result, own_drain sz b))"

definition writeByte :: "byte \<Rightarrow> owned \<Rightarrow> owned result" where
  "writeByte value b = own_add [value] b"

definition writeInt :: "int_type \<Rightarrow> byte_order \<Rightarrow> nat \<Rightarrow> nat \<Rightarrow> owned \<Rightarrow> owned result" where
  "writeInt T endianness sz value b =
     (let n = sizeof_T T;
          data = toEndianness endianness n value;
          displacement = (if endianness = BigEndian then n - sz else 0)
      in own_add (take sz (drop displacement (le_bytes n data))) b)"

section \<open>Values and bytes\<close>

lemma length_le_bytes [simp]: "length (le_bytes n v) = n"
  by (induction n arbitrary: v) auto

lemma le_value_less: "le_value xs < 256 ^ length xs"
proof (induction xs)
  case (Cons x xs)
  have "unat x < 256" using unat_less_two_power [of x] by simp
  with Cons show ?case by simp
qed simp

lemma le_value_le_bytes [simp]: "le_value (le_bytes n v) = v mod 256 ^ n"
proof (induction n arbitrary: v)
  case (Suc n)
  have "unat (word_of_nat v :: byte) = v mod 256" by (simp add: unat_of_nat take_bit_eq_mod)
  then show ?case using Suc by (simp add: mod_mult2_eq)
qed simp

lemma byte_of_nat:
  fixes x :: byte
  assumes "unat x < 256"
  shows "word_of_nat (unat x + 256 * k) = x"
proof (rule word_unat_eq_iff [THEN iffD2])
  have "(unat x + 256 * k) mod 2 ^ 8 = unat x" using assms by simp
  then show "unat (word_of_nat (unat x + 256 * k) :: byte) = unat x"
    by (simp only: unat_of_nat take_bit_eq_mod len_bit0 len_num1 mult_1_right)
      (simp add: mod_mult_self4)
qed

lemma le_bytes_le_value [simp]: "length xs = n \<Longrightarrow> le_bytes n (le_value xs) = xs"
proof (induction xs arbitrary: n)
  case (Cons x xs)
  have "unat x < 256" using unat_less_two_power [of x] by simp
  moreover from this have "word_of_nat (unat x + 256 * le_value xs) = x" by (rule byte_of_nat)
  ultimately show ?case using Cons by auto
qed simp

lemma le_value_append: "le_value (xs @ ys) = le_value xs + 256 ^ length xs * le_value ys"
  by (induction xs) (simp_all add: algebra_simps)

lemma le_value_zeros [simp]: "le_value (replicate n 0) = 0"
  by (induction n) auto

lemma take_le_bytes: "k \<le> n \<Longrightarrow> take k (le_bytes n v) = le_bytes k v"
proof (induction n arbitrary: v k)
  case (Suc n)
  then show ?case by (cases k) auto
qed simp

section \<open>What is written, what is read\<close>

text \<open>The \<open>sz\<close> low bytes of a value in the order the endianness puts them into the buffer.\<close>

definition encoded :: "byte_order \<Rightarrow> nat \<Rightarrow> nat \<Rightarrow> byte list" where
  "encoded e sz v = (if e = BigEndian then rev (le_bytes sz v) else le_bytes sz v)"

definition decoded :: "byte_order \<Rightarrow> byte list \<Rightarrow> nat" where
  "decoded e bs = le_value (if e = BigEndian then rev bs else bs)"

definition sign_extend :: "int_type \<Rightarrow> nat \<Rightarrow> nat \<Rightarrow> nat" where
  "sign_extend T sz v =
     (if is_signed T \<and> sz < sizeof_T T \<and> 256 ^ sz \<le> 2 * v then v + (256 ^ sizeof_T T - 256 ^ sz) else v)"

lemma length_encoded [simp]: "length (encoded e sz v) = sz"
  by (simp add: encoded_def)

lemma decoded_encoded: "decoded e (encoded e sz v) = v mod 256 ^ sz"
  by (simp add: decoded_def encoded_def)

lemma toEndianness_eq: "0 < n \<Longrightarrow> v < 256 ^ n \<Longrightarrow>
    toEndianness e n v = (if e = BigEndian then byte_swap n v else v)"
proof (cases e)
  case BigEndian
  assume "v < 256 ^ n"
  have "byte_swap 1 v = v" if "n = 1"
    using le_value_le_bytes [of 1 v] \<open>v < 256 ^ n\<close> that by (simp add: byte_swap_def unat_of_nat take_bit_eq_mod)
  then show ?thesis using BigEndian by simp
qed auto

lemma fromEndianness_eq: "0 < n \<Longrightarrow> v < 256 ^ n \<Longrightarrow>
    fromEndianness e n v = (if e = BigEndian then byte_swap n v else v)"
  using toEndianness_eq [of n v e] by (cases e) auto

lemma writeInt_bytes:
  assumes "0 < sz" "sz \<le> sizeof_T T" "v < 256 ^ sizeof_T T"
  shows "writeInt T e sz v b = own_add (encoded e sz v) b"
proof (cases "e = BigEndian")
  case True
  let ?n = "sizeof_T T"
  have "toEndianness e ?n v = le_value (rev (le_bytes ?n v))"
    using toEndianness_eq [of ?n v e] assms True by (simp add: byte_swap_def)
  then have "le_bytes ?n (toEndianness e ?n v) = rev (le_bytes ?n v)" by simp
  moreover have "drop (?n - sz) (rev (le_bytes ?n v)) = rev (le_bytes sz v)"
    using take_le_bytes [OF assms(2), of v] assms(2) by (simp add: rev_take [symmetric] drop_rev)
  ultimately show ?thesis by (simp add: writeInt_def encoded_def True)
next
  case False
  then have "toEndianness e (sizeof_T T) v = v" by (cases e) auto
  then show ?thesis using False take_le_bytes [OF assms(2)] by (simp add: writeInt_def encoded_def)
qed

lemma or_high_bits:
  fixes v k :: nat
  assumes "v < 2 ^ m"
  shows "v OR (k * 2 ^ m) = v + k * 2 ^ m"
proof -
  have "take_bit m v AND push_bit m k = 0" by (auto simp: bit_eq_iff bit_simps)
  then have "v AND (k * 2 ^ m) = 0"
    using assms by (simp add: take_bit_nat_eq_self push_bit_eq_mult)
  then show ?thesis by (simp add: disjunctive_add_eq_or)
qed

lemma byte_negative_iff: "sint (x :: byte) < 0 \<longleftrightarrow> 128 \<le> unat x"
proof -
  have lt: "unat x < 256" using unat_less_two_power [of x] by simp
  have "sint x < 0 \<longleftrightarrow> bit x 7"
    using bit_last_iff [of x] by simp
  also have "\<dots> \<longleftrightarrow> bit (unat x) 7" by (simp add: bit_unsigned_iff)
  also have "\<dots> \<longleftrightarrow> odd (unat x div 2 ^ 7)" by (rule bit_iff_odd)
  also have "(2 :: nat) ^ 7 = 128" by simp
  also have "odd (unat x div 128) \<longleftrightarrow> 128 \<le> unat x"
  proof (cases "128 \<le> unat x")
    case True
    then have "unat x div 128 = 1" using lt by (intro div_nat_eqI) simp_all
    then show ?thesis using True by simp
  next
    case False
    then have "unat x div 128 = 0" by simp
    then show ?thesis using False by simp
  qed
  finally show ?thesis .
qed

lemma top_byte_sign:
  assumes "xs \<noteq> []"
  shows "sint (last xs) < 0 \<longleftrightarrow> 256 ^ length xs \<le> 2 * le_value xs"
proof -
  obtain ys x where xs: "xs = ys @ [x]" using assms by (cases xs rule: rev_cases) auto
  let ?p = "(256 :: nat) ^ length ys" let ?l = "le_value ys"
  have l: "?l < ?p" by (rule le_value_less)
  have "128 \<le> unat x \<longleftrightarrow> 128 * ?p \<le> ?l + ?p * unat x"
  proof
    assume "128 \<le> unat x"
    then have "128 * ?p \<le> unat x * ?p" by (rule mult_le_mono1)
    then show "128 * ?p \<le> ?l + ?p * unat x" unfolding mult.commute [of ?p] by (rule trans_le_add2)
  next
    assume le: "128 * ?p \<le> ?l + ?p * unat x"
    show "128 \<le> unat x"
    proof (rule ccontr)
      assume "\<not> 128 \<le> unat x"
      then have "Suc (unat x) * ?p \<le> 128 * ?p" by (intro mult_le_mono1) simp
      then have "?p + ?p * unat x \<le> 128 * ?p" by (simp only: mult_Suc mult.commute [of ?p])
      then show False using le l by linarith
    qed
  qed
  also have "\<dots> \<longleftrightarrow> 2 * (128 * ?p) \<le> 2 * (?l + ?p * unat x)" by (simp only: mult_le_cancel1) simp
  also have "2 * (128 * ?p) = 256 ^ length xs" by (simp add: xs)
  also have "?l + ?p * unat x = le_value xs" by (simp add: xs le_value_append)
  finally show ?thesis by (simp add: xs byte_negative_iff)
qed

lemma sign_bits:
  fixes n sz :: nat
  assumes "sz < n"
  shows "((256 ^ n - 1) * 2 ^ (sz mod n * 8)) mod 256 ^ n = (256 ^ n - 256 ^ sz :: nat)"
proof -
  have p: "(2 :: nat) ^ (sz mod n * 8) = 256 ^ sz"
    unfolding mod_less [OF assms] mult.commute [of sz 8] power_mult by simp
  have pos: "(1 :: nat) \<le> 256 ^ sz" by simp
  obtain q where q: "(256 :: nat) ^ sz = Suc q" using pos by (cases "(256 :: nat) ^ sz") auto
  have "(256 :: nat) ^ sz \<le> 256 ^ n" using assms by (intro power_increasing) simp_all
  then obtain c where c: "(256 :: nat) ^ n = Suc q + c" unfolding q by (rule less_eqE)
  have "(256 ^ n - 1) * 256 ^ sz = 256 ^ n * (256 ^ sz - 1) + (256 ^ n - 256 ^ sz :: nat)"
    unfolding q c by (simp add: algebra_simps)
  then have "((256 ^ n - 1) * 256 ^ sz) mod 256 ^ n = (256 ^ n - 256 ^ sz) mod (256 ^ n :: nat)"
    by (simp only: mod_mult_self4)
  also have "\<dots> = 256 ^ n - 256 ^ sz" using pos by (intro mod_less) simp
  finally show ?thesis unfolding p .
qed

lemma peekInt_eq:
  assumes inv: "own_inv b" and len: "start + sz \<le> length (content b)" and sz: "0 < sz" "sz \<le> sizeof_T T"
  shows "peekInt T e sz start b =
    Inr (sign_extend T sz (decoded e (take sz (drop start (content b)))))"
proof -
  define n where "n = sizeof_T T"
  define copied where "copied = take sz (drop start (content b))"
  have lc: "length copied = sz" using len by (simp add: copied_def)
  then have ne: "copied \<noteq> []" using sz by auto
  define xs where "xs = (if e = BigEndian then rev copied else copied)"
  have xs: "length xs = sz" "xs \<noteq> []" using lc ne by (simp_all add: xs_def)
  define disp where "disp = (if e = BigEndian then n - sz else 0)"
  define bytes where "bytes = blit disp copied (replicate n 0)"
  have bytes: "bytes = (if e = BigEndian then replicate (n - sz) 0 @ copied else copied @ replicate (n - sz) 0)"
    using sz lc by (simp add: bytes_def disp_def n_def blit_def)
  have lb: "length bytes = n" using sz lc by (simp add: bytes n_def)
  have "fromEndianness e n (le_value bytes) =
      (if e = BigEndian then byte_swap n (le_value bytes) else le_value bytes)"
    using le_value_less [of bytes] sz by (intro fromEndianness_eq) (simp_all add: lb n_def)
  also have "byte_swap n (le_value bytes) = le_value (rev bytes)" by (simp add: byte_swap_def lb)
  also have "(if e = BigEndian then le_value (rev bytes) else le_value bytes) = le_value xs"
    by (simp add: xs_def bytes le_value_append)
  finally have val: "fromEndianness e n (le_value bytes) = le_value xs" .
  have msb: "bytes ! (if e = BigEndian then disp else sz - 1) = last xs"
  proof (cases "e = BigEndian")
    case True
    then show ?thesis
      using sz lc ne hd_conv_nth [OF ne] by (simp add: bytes disp_def n_def nth_append xs_def last_rev)
  next
    case False
    then show ?thesis
      using sz lc ne last_conv_nth [OF ne] by (simp add: bytes nth_append xs_def)
  qed
  have neg: "sint (last xs) < 0 \<longleftrightarrow> 256 ^ sz \<le> 2 * le_value xs" using top_byte_sign [OF xs(2)] xs(1) by simp
  have peek: "peekInt T e sz start b = Inr (le_value xs OR
      (if is_signed T \<and> sz < n \<and> sint (last xs) < 0
       then ((256 ^ n - 1) * 2 ^ (sz mod n * 8)) mod 256 ^ n else 0))"
  proof -
    have "copyOut start sz b = Inr copied" using copyOut_eq [OF inv, of start sz] len by (simp add: copied_def)
    then show ?thesis
      unfolding peekInt_def Let_def own_length_eq [OF inv] res_bind_simps n_def [symmetric]
        disp_def [symmetric]
      by (simp only: res_bind_simps bytes_def [symmetric] val msb)
  qed
  show ?thesis
  proof (cases "is_signed T \<and> sz < n \<and> sint (last xs) < 0")
    case True
    have lt: "le_value xs < 2 ^ (8 * sz)" using le_value_less [of xs] xs(1) by (simp add: power_mult)
    have "(256 :: nat) ^ n = 2 ^ (8 * (n - sz)) * 2 ^ (8 * sz)"
      using True by (simp add: power_mult flip: power_add)
    then have "(256 ^ n - 256 ^ sz :: nat) = (2 ^ (8 * (n - sz)) - 1) * 2 ^ (8 * sz)"
      by (simp add: diff_mult_distrib power_mult)
    with or_high_bits [OF lt] have "le_value xs OR (256 ^ n - 256 ^ sz) = le_value xs + (256 ^ n - 256 ^ sz)"
      by simp
    then show ?thesis
      using True neg by (simp only: peek sign_bits if_True simp_thms) (simp add: sign_extend_def decoded_def flip: n_def copied_def xs_def)
  next
    case False
    then show ?thesis
      using neg by (auto simp: peek sign_extend_def decoded_def simp flip: n_def copied_def xs_def)
  qed
qed

lemma peekInt_short:
  assumes "own_inv b" and "length (content b) < start + sz" and "0 < sz"
  shows "peekInt T e sz start b = Inl Assert_failed"
  using own_length_eq [OF assms(1)] copyOut_eq [OF assms(1), of start sz] assms(2,3)
  by (simp add: peekInt_def Let_def)

text \<open>The values of \<open>T\<close> that fit into \<open>sz\<close> bytes, sign included.\<close>

definition fits :: "int_type \<Rightarrow> nat \<Rightarrow> nat \<Rightarrow> bool" where
  "fits T sz v \<longleftrightarrow> v < 256 ^ sizeof_T T \<and>
     (if is_signed T \<and> sz < sizeof_T T
      then 2 * v < 256 ^ sz \<or> 256 ^ sizeof_T T - 256 ^ sz \<le> v \<and> 256 ^ sz \<le> 2 * (v - (256 ^ sizeof_T T - 256 ^ sz))
      else v < 256 ^ sz)"

lemma sign_extend_fits:
  assumes "fits T sz v" "sz \<le> sizeof_T T"
  shows "sign_extend T sz (v mod 256 ^ sz) = v"
proof (cases "is_signed T \<and> sz < sizeof_T T")
  case False
  then show ?thesis using assms by (auto simp: fits_def sign_extend_def)
next
  case True
  let ?N = "(256 :: nat) ^ sizeof_T T" let ?p = "(256 :: nat) ^ sz"
  show ?thesis
  proof (cases "2 * v < ?p")
    case small: True
    then have "v mod ?p = v" by simp
    then show ?thesis using small by (simp add: sign_extend_def)
  next
    case False
    then have v: "?N - ?p \<le> v" "?p \<le> 2 * (v - (?N - ?p))" "v < ?N" using True assms by (auto simp: fits_def)
    define w where "w = v - (?N - ?p)"
    have "?p dvd ?N - ?p" using True by (simp add: le_imp_power_dvd)
    then obtain k where k: "?N - ?p = ?p * k" by (rule dvdE)
    have "?p \<le> ?N" using True by (simp add: power_increasing)
    then have "w < ?p" using v by (simp add: w_def)
    moreover have vw: "v = w + ?p * k" using v(1) by (simp add: w_def k [symmetric])
    ultimately have "v mod ?p = w" by simp
    then show ?thesis using True v vw by (simp add: sign_extend_def w_def [symmetric] k)
  qed
qed

end
