(* ===== verification/BufferStream.thy ===== *)
theory BufferStream
  imports BufferMove
begin

text \<open>
  \<open>Buffer::Instance\<close> as its clients see it: a byte string that grows at both ends, is drained from the front
  and moved into another. The interface is a locale; what a client may conclude about any sequence of calls on
  two buffers is proved from its laws, and \<open>OwnedImpl\<close> is an interpretation.
\<close>

text \<open>The calls. \<open>so_move\<close> and \<open>so_move_some\<close> take the destination first, as \<open>dst.move(src)\<close> does.\<close>

record 'b stream_ops =
  so_put :: "byte list \<Rightarrow> 'b \<Rightarrow> 'b result"
  so_put_front :: "byte list \<Rightarrow> 'b \<Rightarrow> 'b result"
  so_skip :: "nat \<Rightarrow> 'b \<Rightarrow> 'b"
  so_move :: "'b \<Rightarrow> 'b \<Rightarrow> ('b \<times> 'b) result"
  so_move_some :: "'b \<Rightarrow> 'b \<Rightarrow> nat \<Rightarrow> ('b \<times> 'b) result"

datatype side = First | Second

datatype stream_call =
    Put side "byte list"
  | Put_front side "byte list"
  | Skip side nat
  | Move side
  | Move_some side nat

definition on_side :: "side \<Rightarrow> 'b \<times> 'b \<Rightarrow> 'b" where
  "on_side s p = (case s of First \<Rightarrow> fst p | Second \<Rightarrow> snd p)"

definition put_side :: "side \<Rightarrow> 'b \<Rightarrow> 'b \<times> 'b \<Rightarrow> 'b \<times> 'b" where
  "put_side s b p = (case s of First \<Rightarrow> (b, snd p) | Second \<Rightarrow> (fst p, b))"

definition other :: "side \<Rightarrow> side" where
  "other s = (case s of First \<Rightarrow> Second | Second \<Rightarrow> First)"

text \<open>A call on a pair of buffers; \<open>Move s\<close> empties the buffer \<open>s\<close> into the other.\<close>

fun stream_step :: "'b stream_ops \<Rightarrow> stream_call \<Rightarrow> 'b \<times> 'b \<Rightarrow> ('b \<times> 'b) result" where
  "stream_step ops (Put s xs) p = res_bind (so_put ops xs (on_side s p)) (\<lambda>b. Inr (put_side s b p))"
| "stream_step ops (Put_front s xs) p = res_bind (so_put_front ops xs (on_side s p)) (\<lambda>b. Inr (put_side s b p))"
| "stream_step ops (Skip s n) p = Inr (put_side s (so_skip ops n (on_side s p)) p)"
| "stream_step ops (Move s) p =
     res_bind (so_move ops (on_side (other s) p) (on_side s p)) (\<lambda>(dst, src).
       Inr (put_side s src (put_side (other s) dst p)))"
| "stream_step ops (Move_some s n) p =
     res_bind (so_move_some ops (on_side (other s) p) (on_side s p) n) (\<lambda>(dst, src).
       Inr (put_side s src (put_side (other s) dst p)))"

fun stream_run :: "'b stream_ops \<Rightarrow> stream_call list \<Rightarrow> 'b \<times> 'b \<Rightarrow> ('b \<times> 'b) result" where
  "stream_run ops [] p = Inr p"
| "stream_run ops (c # cs) p = res_bind (stream_step ops c p) (stream_run ops cs)"

text \<open>The same on byte strings.\<close>

fun string_step :: "stream_call \<Rightarrow> byte list \<times> byte list \<Rightarrow> byte list \<times> byte list" where
  "string_step (Put s xs) p = put_side s (on_side s p @ xs) p"
| "string_step (Put_front s xs) p = put_side s (xs @ on_side s p) p"
| "string_step (Skip s n) p = put_side s (drop n (on_side s p)) p"
| "string_step (Move s) p = put_side s [] (put_side (other s) (on_side (other s) p @ on_side s p) p)"
| "string_step (Move_some s n) p =
     put_side s (drop n (on_side s p)) (put_side (other s) (on_side (other s) p @ take n (on_side s p)) p)"

fun bytes_put :: "stream_call \<Rightarrow> nat" where
  "bytes_put (Put s xs) = length xs"
| "bytes_put (Put_front s xs) = length xs"
| "bytes_put _ = 0"

definition total_bytes :: "byte list \<times> byte list \<Rightarrow> nat" where
  "total_bytes p = length (fst p) + length (snd p)"

lemmas side_defs = on_side_def put_side_def other_def

lemma total_bytes_step: "total_bytes (string_step c p) \<le> total_bytes p + bytes_put c"
  by (cases c; cases p) (auto simp: total_bytes_def side_defs split: side.splits)

section \<open>The interface\<close>

locale byte_stream =
  fixes ops :: "'b stream_ops" and ok :: "'b \<Rightarrow> bool" and bytes :: "'b \<Rightarrow> byte list" and limit :: nat
  assumes put: "ok b \<Longrightarrow> length xs \<le> limit \<Longrightarrow> \<exists>b'. so_put ops xs b = Inr b' \<and> ok b' \<and> bytes b' = bytes b @ xs"
    and put_front: "ok b \<Longrightarrow> length xs \<le> limit \<Longrightarrow>
      \<exists>b'. so_put_front ops xs b = Inr b' \<and> ok b' \<and> bytes b' = xs @ bytes b"
    and skip_ok: "ok b \<Longrightarrow> ok (so_skip ops n b)"
    and bytes_skip: "ok b \<Longrightarrow> bytes (so_skip ops n b) = drop n (bytes b)"

locale byte_streams = byte_stream +
  assumes move: "ok b \<Longrightarrow> ok c \<Longrightarrow>
      \<exists>b' c'. so_move ops b c = Inr (b', c') \<and> ok b' \<and> ok c' \<and> bytes b' = bytes b @ bytes c \<and> bytes c' = []"
    and move_some: "ok b \<Longrightarrow> ok c \<Longrightarrow> length (bytes c) \<le> limit \<Longrightarrow>
      \<exists>b' c'. so_move_some ops b c n = Inr (b', c') \<and> ok b' \<and> ok c'
        \<and> bytes b' = bytes b @ take n (bytes c) \<and> bytes c' = drop n (bytes c)"
begin

lemma step_refines:
  assumes "ok b" and "ok c" and "total_bytes (bytes b, bytes c) + bytes_put call \<le> limit"
  shows "\<exists>b' c'. stream_step ops call (b, c) = Inr (b', c') \<and> ok b' \<and> ok c'
    \<and> (bytes b', bytes c') = string_step call (bytes b, bytes c)"
proof (cases call)
  case (Put s xs)
  then have "length xs \<le> limit" using assms(3) by simp
  then show ?thesis using put assms(1,2) by (cases s) (fastforce simp: Put side_defs)+
next
  case (Put_front s xs)
  then have "length xs \<le> limit" using assms(3) by simp
  then show ?thesis using put_front assms(1,2) by (cases s) (fastforce simp: Put_front side_defs)+
next
  case (Skip s n)
  then show ?thesis using skip_ok bytes_skip assms(1,2) by (cases s) (simp_all add: side_defs)
next
  case (Move s)
  then show ?thesis
    using move [OF assms(1,2)] move [OF assms(2,1)] by (cases s) (auto simp: side_defs)
next
  case (Move_some s n)
  have "length (bytes b) \<le> limit" "length (bytes c) \<le> limit"
    using assms(3) by (simp_all add: total_bytes_def)
  then show ?thesis
    using move_some [OF assms(1,2), of n] move_some [OF assms(2,1), of n] Move_some
    by (cases s) (auto simp: side_defs)
qed

lemma run_refines:
  assumes "ok b" and "ok c" and "total_bytes (bytes b, bytes c) + sum_list (map bytes_put calls) \<le> limit"
  shows "\<exists>b' c'. stream_run ops calls (b, c) = Inr (b', c') \<and> ok b' \<and> ok c'
    \<and> (bytes b', bytes c') = fold string_step calls (bytes b, bytes c)"
  using assms
proof (induction calls arbitrary: b c)
  case Nil
  then show ?case by simp
next
  case (Cons call calls)
  have "total_bytes (bytes b, bytes c) + bytes_put call \<le> limit" using Cons.prems(3) by simp
  then obtain b1 c1 where step: "stream_step ops call (b, c) = Inr (b1, c1)" "ok b1" "ok c1"
    "(bytes b1, bytes c1) = string_step call (bytes b, bytes c)"
    using step_refines [OF Cons.prems(1,2)] by blast
  have "total_bytes (bytes b1, bytes c1) + sum_list (map bytes_put calls) \<le> limit"
    using Cons.prems(3) total_bytes_step [of call "(bytes b, bytes c)"] by (simp add: step(4))
  from Cons.IH [OF step(2,3) this] show ?case by (simp add: step(1,4))
qed

end

section \<open>\<open>OwnedImpl\<close>\<close>

definition owned_ops :: "owned stream_ops" where
  "owned_ops = \<lparr>so_put = own_add, so_put_front = own_prepend, so_skip = own_drain,
     so_move = own_move, so_move_some = own_move_length\<rparr>"

interpretation owned_string: byte_stream owned_ops own_inv content max_request
proof unfold_locales
  fix b and xs :: "byte list"
  assume "own_inv b" "length xs \<le> max_request"
  then show "\<exists>b'. so_put owned_ops xs b = Inr b' \<and> own_inv b' \<and> content b' = content b @ xs"
    using addImpl_total by (fastforce simp: owned_ops_def own_add_def)
next
  fix b and xs :: "byte list"
  assume "own_inv b" "length xs \<le> max_request"
  then show "\<exists>b'. so_put_front owned_ops xs b = Inr b' \<and> own_inv b' \<and> content b' = xs @ content b"
    using own_prepend_total by (fastforce simp: owned_ops_def)
qed (simp_all add: owned_ops_def own_drain_def drainImpl_step)

interpretation owned_strings: byte_streams owned_ops own_inv content max_request
proof unfold_locales
  fix b c
  assume "own_inv b" "own_inv c"
  then show "\<exists>b' c'. so_move owned_ops b c = Inr (b', c') \<and> own_inv b' \<and> own_inv c'
      \<and> content b' = content b @ content c \<and> content c' = []"
    using own_move_total by (fastforce simp: owned_ops_def content_def)
next
  fix b c n
  assume "own_inv b" "own_inv c" "length (content c) \<le> max_request"
  then show "\<exists>b' c'. so_move_some owned_ops b c n = Inr (b', c') \<and> own_inv b' \<and> own_inv c'
      \<and> content b' = content b @ take n (content c) \<and> content c' = drop n (content c)"
    using own_move_length_total by (fastforce simp: owned_ops_def)
qed

end
