(* ===== verification/BufferSpec.thy ===== *)
theory BufferSpec
  imports BufferSearch BufferReserve BufferInts BufferStream
begin

text \<open>
  What the buffer promises: each operation of \<open>OwnedImpl\<close> is the corresponding operation on the
  byte string \<open>content\<close>, keeps the invariant and settles its books (drain trackers, account
  charges). \<open>sample1\<close> and \<open>sample2\<close> are the buffers the witnesses run on.
\<close>

section \<open>Concrete buffers\<close>

definition sample1 :: owned where
  "sample1 = addBufferFragment [4, 5] 8 (addBufferFragment [1, 2, 3] 7 (owned_new (Some 1)))"

definition sample2 :: owned where
  "sample2 = addBufferFragment [9] 5 (owned_new (Some 2))"

lemma samples [simp]:
  "own_inv sample1" "content sample1 = [1, 2, 3, 4, 5]" "own_inv sample2" "content sample2 = [9]"
  by (simp_all add: sample1_def sample2_def addBufferFragment_step)

lemma small_max_request [simp]: "n \<le> 1000 \<Longrightarrow> n \<le> max_request"
  by (simp add: max_request_def)

lemma sample_books:
  "tracker_total sample1 = {#8, 7#}" "acct_gap sample1 a = 0"
  by (simp_all add: sample1_def addBufferFragment_step, simp_all add: owned_new_def
      tracker_total_def acct_gap_def)

section \<open>Slices and the ring\<close>

text \<open>\<open>Slice::sliceSize\<close> rounds a size up to the least multiple of the page size
  that holds it, for every size up to \<open>2 ^ 64 - 4096\<close>; for a larger one the addition wraps and
  the result is 0.\<close>

theorem sliceSize_rounds_up:
  "if unat n \<le> 2 ^ 64 - 4096
   then unat n \<le> unat (sliceSize n) \<and> unat (sliceSize n) < unat n + 4096
     \<and> 4096 dvd unat (sliceSize n)
   else sliceSize n = 0"
proof (cases "unat n \<le> 2 ^ 64 - 4096")
  case True
  have "(unat n + 4095) div 4096 * 4096 \<le> unat n + 4095"
    using div_mult_mod_eq [of "unat n + 4095" 4096] by linarith
  then have "unat (sliceSize n) < unat n + 4096"
    unfolding unat_sliceSize_bounded [OF True] by linarith
  with True sliceSize_ge [OF True] sliceSize_page_multiple show ?thesis by simp
next
  case False
  then have "2 ^ 64 - 4096 < unat n" by (simp only: not_le)
  from sliceSize_wraps [OF this] False show ?thesis by simp
qed

text \<open>Property C2. The ring buffer \<open>SliceDeque\<close> is a double-ended queue: from any well-formed
  ring, also full or wrapped around, \<open>emplace_back\<close>, \<open>emplace_front\<close>, \<open>pop_front\<close> and
  \<open>pop_back\<close> do to the sequence of live slices what they do to a list, growing never loses or
  reorders a slice, and no drain tracker is called except those of the slice that is popped.\<close>

theorem SliceDeque_is_deque:
  assumes "dq_wf d"
  shows "(dq_wf (fst (emplace_back s d)) \<and> dq_list (fst (emplace_back s d)) = dq_list d @ [s]
      \<and> snd (emplace_back s d) = [])
    \<and> (dq_wf (fst (emplace_front s d)) \<and> dq_list (fst (emplace_front s d)) = s # dq_list d
      \<and> snd (emplace_front s d) = [])
    \<and> (dq_wf (fst (pop_front d)) \<and> dq_list (fst (pop_front d)) = tl (dq_list d)
      \<and> snd (pop_front d) = (if dq_list d = [] then [] else release_events (hd (dq_list d))))
    \<and> (dq_wf (fst (pop_back d)) \<and> dq_list (fst (pop_back d)) = butlast (dq_list d)
      \<and> snd (pop_back d) = (if dq_list d = [] then [] else release_events (last (dq_list d))))"
  using emplace_back_wf emplace_front_wf pop_front_wf pop_back_wf assms by (intro conjI) blast+

lemma SliceDeque_is_deque_witness:
  "dq_list (fst (emplace_front empty_slice deque_new)) = [empty_slice]"
  using SliceDeque_is_deque [OF dq_wf_deque_new] by simp

section \<open>Any sequence of calls\<close>

text \<open>Property C11. Two buffers are two byte strings: every sequence of \<open>add\<close>, \<open>prepend\<close>, \<open>drain\<close>, \<open>move\<close> and
  \<open>move(length)\<close> on a pair of well-formed buffers that together never hold more than \<open>2 ^ 64 - 4096\<close> bytes
  returns, leaves both well formed, and their contents are what the calls do to the two strings.\<close>

theorem buffers_are_strings:
  assumes "own_inv b" and "own_inv c"
    and "total_bytes (content b, content c) + sum_list (map bytes_put calls) \<le> max_request"
  shows "\<exists>b' c'. stream_run owned_ops calls (b, c) = Inr (b', c') \<and> own_inv b' \<and> own_inv c'
    \<and> (content b', content c') = fold string_step calls (content b, content c)"
  by (rule owned_strings.run_refines [OF assms])

lemma buffers_are_strings_witness:
  "\<exists>b' c'. stream_run owned_ops [Put Second [7], Move_some First 2, Put_front First [8], Move Second, Skip First 1]
      (sample1, sample2) = Inr (b', c') \<and> content b' = [3, 4, 5, 9, 7, 1, 2] \<and> content c' = []"
  using buffers_are_strings [of sample1 sample2
      "[Put Second [7], Move_some First 2, Put_front First [8], Move Second, Skip First 1]"]
  by (auto simp: total_bytes_def side_defs)

section \<open>Bytes in, bytes out\<close>

text \<open>Property C16. \<open>add(data, size)\<close> returns for every size up to \<open>2 ^ 64 - 4096\<close>, appends
  exactly the given bytes, keeps the buffer well formed and its books balanced, and leaves every
  slice over external memory as it was.\<close>

theorem add_appends:
  assumes "own_inv b" and "length bytes \<le> max_request"
  shows "\<exists>b'. own_add bytes b = Inr b' \<and> own_inv b' \<and> content b' = content b @ bytes
    \<and> keeps_books b b' \<and> immutables b' = immutables b"
  using addImpl_total [OF assms] by (simp add: own_add_def)

lemma add_appends_witness:
  "\<exists>b'. own_add [6, 7] sample1 = Inr b' \<and> content b' = [1, 2, 3, 4, 5, 6, 7]"
  using add_appends [of sample1 "[6, 7]"] by auto

text \<open>\<open>prepend(data)\<close> returns for every size up to \<open>2 ^ 64 - 4096\<close>, puts exactly
  the given bytes in front, and keeps the buffer well formed and its books balanced.\<close>

theorem prepend_puts_in_front:
  assumes "own_inv b" and "length bytes \<le> max_request"
  shows "\<exists>b'. own_prepend bytes b = Inr b' \<and> own_inv b' \<and> content b' = bytes @ content b
    \<and> keeps_books b b'"
  by (rule own_prepend_total [OF assms])

lemma prepend_puts_in_front_witness:
  "\<exists>b'. own_prepend [6, 7] sample1 = Inr b' \<and> content b' = [6, 7, 1, 2, 3, 4, 5]"
  using prepend_puts_in_front [of sample1 "[6, 7]"] by auto

text \<open>Property C3. \<open>drain(n)\<close> removes the first \<open>n\<close> bytes (all of them if there are fewer),
  keeps the invariant, and leaves no empty slice in front, so that \<open>data()\<close> of the front slice
  is the first byte of the buffer.\<close>

theorem drain_drops:
  assumes "own_inv b"
  shows "own_inv (own_drain n b) \<and> content (own_drain n b) = drop n (content b)
    \<and> keeps_books b (own_drain n b)
    \<and> (slist (own_drain n b) \<noteq> [] \<longrightarrow> dataSize (hd (slist (own_drain n b))) \<noteq> 0)"
  unfolding own_drain_def by (intro conjI impI drainImpl_step [OF assms])

lemma drain_drops_witness: "content (own_drain 4 sample1) = [5]"
  using drain_drops [of sample1 4] by simp

text \<open>Property C17. Draining a whole buffer calls every drain tracker that waits in it, each
  exactly once, credits each account with all that the slices of the buffer had charged to it,
  and leaves no slice behind.\<close>

theorem drain_all_settles:
  assumes "own_inv b" and "length (content b) \<le> n"
  shows "slist (own_drain n b) = []
    \<and> mset (called (o_trace (own_drain n b))) = mset (called (o_trace b)) + mset (pending (slist b))
    \<and> balance a (o_trace (own_drain n b)) =
      balance a (o_trace b) - sum_list (map (held_by a) (slist b))"
proof (intro conjI)
  let ?d = "own_drain n b"
  note books = drain_all_empties(2) [OF assms]
  show empty: "slist ?d = []" by (rule drain_all_empties(3) [OF assms])
  show "mset (called (o_trace ?d)) = mset (called (o_trace b)) + mset (pending (slist b))"
    using books empty by (simp add: keeps_books_def tracker_total_def)
  show "balance a (o_trace ?d) = balance a (o_trace b) - sum_list (map (held_by a) (slist b))"
    using books empty by (simp add: keeps_books_def acct_gap_def fun_eq_iff)
qed

lemma drain_all_settles_witness:
  "slist (own_drain 9 sample1) = [] \<and> mset (called (o_trace (own_drain 9 sample1))) = {#7, 8#}"
proof
  show "slist (own_drain 9 sample1) = []" using drain_all_settles [of sample1 9] by simp
  have "mset (called (o_trace sample1)) + mset (pending (slist sample1)) = {#8, 7#}"
    using sample_books(1) by (simp add: tracker_total_def)
  then show "mset (called (o_trace (own_drain 9 sample1))) = {#7, 8#}"
    using drain_all_settles [of sample1 9] by (simp add: add_mset_commute)
qed

section \<open>Between two buffers\<close>

text \<open>Property C14. \<open>move(rhs)\<close> returns, appends the whole content of \<open>rhs\<close>, whether slices change
  owner or small ones are copied and coalesced, and leaves \<open>rhs\<close> without slices. Together the two
  buffers keep every drain tracker (none is called early, none is lost) and every account balance.\<close>

theorem move_appends_all:
  assumes "own_inv b" and "own_inv c"
  shows "\<exists>b' c'. own_move b c = Inr (b', c') \<and> own_inv b' \<and> own_inv c'
    \<and> content b' = content b @ content c \<and> slist c' = [] \<and> keeps_joint_books b c b' c'"
  by (rule own_move_total [OF assms])

lemma move_appends_all_witness:
  "\<exists>b' c'. own_move sample1 sample2 = Inr (b', c') \<and> content b' = [1, 2, 3, 4, 5, 9] \<and> slist c' = []"
  using move_appends_all [of sample1 sample2] by auto

text \<open>\<open>move(rhs, length)\<close> returns and moves exactly the first \<open>length\<close> bytes of \<open>rhs\<close>
  (all of them if there are fewer), cutting a slice when the length ends inside it; the rest stays
  in \<open>rhs\<close>, and the books of the pair are kept.\<close>

theorem move_length_splits:
  assumes "own_inv b" and "own_inv c" and "length (content c) \<le> max_request"
  shows "\<exists>b' c'. own_move_length b c len = Inr (b', c') \<and> own_inv b' \<and> own_inv c'
    \<and> content b' = content b @ take len (content c) \<and> content c' = drop len (content c)
    \<and> keeps_joint_books b c b' c'"
  by (rule own_move_length_total [OF assms])

lemma move_length_splits_witness:
  "\<exists>b' c'. own_move_length sample2 sample1 4 = Inr (b', c') \<and> content b' = [9, 1, 2, 3, 4]
    \<and> content c' = [5]"
  using move_length_splits [of sample2 sample1 4] by auto

text \<open>\<open>prepend(Instance)\<close> puts the whole content of the other buffer in front, in
  order, leaves the other buffer without slices and keeps the books of the pair.\<close>

theorem prepend_instance_puts_in_front:
  assumes "own_inv b" and "own_inv c"
  shows "\<exists>b' c'. prepend_instance b c = (b', c') \<and> own_inv b' \<and> own_inv c'
    \<and> content b' = content c @ content b \<and> slist c' = [] \<and> keeps_joint_books b c b' c'"
  using prepend_instance_step [OF assms] by (cases "prepend_instance b c") auto

lemma prepend_instance_puts_in_front_witness:
  "\<exists>b' c'. prepend_instance sample2 sample1 = (b', c') \<and> content b' = [1, 2, 3, 4, 5, 9]"
  using prepend_instance_puts_in_front [of sample2 sample1] by auto

text \<open>\<open>addFragments\<close> appends the concatenation of the fragments and returns its length,
  on the fast path (one reservation in the last slice) and on the slow one alike.\<close>

theorem addFragments_appends_concat:
  assumes "own_inv b" and "sum_list (map length fs) \<le> max_request"
  shows "\<exists>b'. addFragments fs b = Inr (sum_list (map length fs), b') \<and> own_inv b'
    \<and> content b' = content b @ concat fs \<and> keeps_books b b' \<and> immutables b' = immutables b"
  by (rule addFragments_total [OF assms])

lemma addFragments_appends_concat_witness:
  "\<exists>b'. addFragments [[6], [], [7, 8]] sample2 = Inr (3, b') \<and> content b' = [9, 6, 7, 8]"
  using addFragments_appends_concat [of sample2 "[[6], [], [7, 8]]"] by auto

section \<open>Reading\<close>

text \<open>Property C15. \<open>linearize(n)\<close>, for \<open>n\<close> up to the length of the buffer, does not change the
  content or the books and returns a pointer to at least \<open>n\<close> contiguous bytes, the first \<open>n\<close> of the
  buffer (null only for a buffer without slices); for a larger \<open>n\<close> it dies at its
  \<open>RELEASE_ASSERT\<close>.\<close>

theorem linearize_contiguous:
  assumes "own_inv b" and "length (content b) < 2 ^ 64"
  shows "if unat n \<le> length (content b)
    then \<exists>p b'. linearize n b = Inr (p, b') \<and> own_inv b' \<and> content b' = content b
      \<and> keeps_books b b'
      \<and> (case p of None \<Rightarrow> slist b = []
          | Some bytes \<Rightarrow> take (unat n) bytes = take (unat n) (content b) \<and> unat n \<le> length bytes)
    else linearize n b = Inl Release_assert_failed"
proof (cases "unat n \<le> length (content b)")
  case True
  with linearize_total [OF assms True] show ?thesis by simp
next
  case False
  then have "length (content b) < unat n" by simp
  from linearize_too_long [OF assms(1) this] False show ?thesis by simp
qed

lemma linearize_contiguous_witness:
  "(\<exists>p b'. linearize 4 sample1 = Inr (p, b') \<and> content b' = [1, 2, 3, 4, 5])
    \<and> linearize 6 sample1 = Inl Release_assert_failed"
  using linearize_contiguous [of sample1 4] linearize_contiguous [of sample1 6] by auto

text \<open>\<open>extractMutableFrontSlice\<close> on a buffer with content hands over a mutable,
  non-empty slice that holds the front of the content, without drain trackers (they have been
  called) or account charge (it has been credited), and leaves the rest in the buffer; on an empty
  buffer it dies at its \<open>RELEASE_ASSERT\<close>.\<close>

theorem extract_front_slice:
  assumes "own_inv b" and "length (content b) \<le> max_request"
  shows "if content b = [] then extractMutableFrontSlice b = Inl Release_assert_failed
    else \<exists>s b'. extractMutableFrontSlice b = Inr (s, b') \<and> own_inv b' \<and> keeps_books b b'
      \<and> content b = slice_bytes s @ content b' \<and> slice_bytes s \<noteq> [] \<and> isMutable s
      \<and> s_trackers s = [] \<and> s_account s = None"
  using extractMutableFrontSlice_empty [OF assms(1)] extractMutableFrontSlice_total [OF assms(1) _ assms(2)]
  by simp

lemma extract_front_slice_witness:
  "(\<exists>s b'. extractMutableFrontSlice sample1 = Inr (s, b') \<and> slice_bytes s \<noteq> [])
    \<and> extractMutableFrontSlice (owned_new None) = Inl Release_assert_failed"
  using extract_front_slice [of sample1] extract_front_slice [of "owned_new None"] by auto

text \<open>\<open>copyOut(start, size)\<close> copies exactly the bytes \<open>start ..< start + size\<close> of the
  content, across slices; asked for bytes the buffer does not have it dies at its \<open>ASSERT\<close>.\<close>

theorem copyOut_copies_range:
  assumes "own_inv b"
  shows "copyOut start sz b =
    (if sz = 0 \<or> start + sz \<le> length (content b)
     then Inr (take sz (drop start (content b))) else Inl Assert_failed)"
  by (rule copyOut_eq [OF assms])

lemma copyOut_copies_range_witness:
  "copyOut 2 2 sample1 = Inr [3, 4] \<and> copyOut 4 2 sample1 = Inl Assert_failed"
  using copyOut_copies_range [of sample1 2 2] copyOut_copies_range [of sample1 4 2]
  by (simp add: numeral_2_eq_2 numeral_eq_Suc)

text \<open>\<open>copyOutToSlices\<close> never reads past the slices and never fails: it fills the
  destination blocks in order with the front of the content, as much as the request, the content
  and the blocks allow, leaves the bytes after it alone and returns how many it copied.\<close>

theorem copyOutToSlices_fills:
  assumes "own_inv b" and "length (content b) < 2 ^ 64"
    and "n = min (min sz (length (content b))) (length (concat dests))"
  shows "\<exists>ds. copyOutToSlices sz dests b = Inr (n, ds)
    \<and> concat ds = take n (content b) @ drop n (concat dests)"
  unfolding assms(3) by (rule copyOutToSlices_eq [OF assms(1,2)])

lemma copyOutToSlices_fills_witness:
  "\<exists>ds. copyOutToSlices 4 [[0, 0], [0], [0, 0, 0]] sample1 = Inr (4, ds)
    \<and> concat ds = [1, 2, 3, 4, 0, 0]"
proof -
  have "(4::nat) = min (min 4 (length (content sample1))) (length (concat [[0, 0], [0], [0, 0, 0 :: byte]]))"
    by simp
  from copyOutToSlices_fills [OF samples(1) _ this] show ?thesis by simp
qed



text \<open>The other readers agree with the content: \<open>length()\<close> passes its own assertion,
  \<open>toString()\<close> is the content, the raw slices are its non-empty pieces in order, and
  \<open>startsWith\<close> is the prefix test.\<close>

theorem readers_agree:
  assumes "own_inv b" and "length (content b) < 2 ^ 64" and "length p < 2 ^ 64"
  shows "own_length b = Inr (word_of_nat (length (content b))) \<and> own_toString b = content b
    \<and> concat (getRawSlices None b) = content b \<and> [] \<notin> set (getRawSlices None b)
    \<and> startsWith p b = Inr (take (length p) (content b) = p)"
proof -
  have "[] \<notin> set (getRawSlices None b)"
  proof
    assume "[] \<in> set (getRawSlices None b)"
    then obtain s where "s \<in> set (slist b)" "dataSize s \<noteq> 0" "slice_bytes s = []"
      by (auto simp: getRawSlices_eq)
    then show False using slice_bytes_empty_iff [OF own_invD(3) [OF assms(1)]] by simp
  qed
  then show ?thesis
    using own_length_eq [OF assms(1)] own_toString_eq [OF assms(1)] concat_getRawSlices [OF assms(1)]
      startsWith_eq [OF assms] by (simp only: simp_thms)
qed

lemma readers_agree_witness:
  "own_toString sample1 = [1, 2, 3, 4, 5] \<and> startsWith [1, 2, 3, 4] sample1 = Inr True"
  using readers_agree [of sample1 "[1, 2, 3, 4]"] by simp

text \<open>Property C20. Prepending to a buffer whose front slice is an external fragment, drained in part, writes into the
  memory of the fragment's owner although \<open>isMutable()\<close> is false of the slice: the last \<open>k\<close> bytes prepended, as many as
  had been drained or as there are, overwrite the fragment in front of its content. The rest of what is prepended goes
  into new slices in front; the content of the buffer is right all the same.\<close>

theorem prepend_overwrites_fragment:
  assumes "own_inv b" and "slist b = s # t" and "\<not> isMutable s" and "0 < dataSize s"
    and "length bytes \<le> max_request" and "k = min (length bytes) (s_data s)"
  shows "\<exists>b' s' fresh. own_prepend bytes b = Inr b' \<and> content b' = bytes @ content b
    \<and> slist b' = fresh @ s' # t \<and> \<not> isMutable s'
    \<and> s_base s' = take (s_data s - k) (s_base s) @ drop (length bytes - k) bytes @ drop (s_data s) (s_base s)"
proof -
  have wf: "slice_wf s" using own_invD(3) [OF assms(1)] assms(2) by simp
  obtain b' fresh where b': "own_prepend bytes b = Inr b'"
    "slist b' = fresh @ (if bytes = [] then s else snd (slice_prepend bytes s)) # t"
    using own_prepend_slist [OF assms(1,2,5)] by blast
  have "content b' = bytes @ content b" using own_prepend_total [OF assms(1,5)] b'(1) by auto
  moreover have "\<not> isMutable (snd (slice_prepend bytes s))"
    using assms(3) by (simp add: slice_prepend_def slice_write_def isMutable_def Let_def)
  moreover have "s_base (snd (slice_prepend bytes s)) =
      take (s_data s - k) (s_base s) @ drop (length bytes - k) bytes @ drop (s_data s) (s_base s)"
    using wf assms(4,6) by (auto simp: slice_prepend_def slice_write_def blit_def Let_def slice_wf_def min_def)
  ultimately show ?thesis using b' assms(3,6) by (cases "bytes = []") auto
qed

text \<open>A fragment of three bytes, one of them drained: of two bytes prepended the second overwrites it.\<close>

theorem prepend_overwrites_fragment_witness:
  "\<exists>b' s' fresh. own_prepend [8, 9] (own_drain 1 (addBufferFragment [1, 2, 3] 7 (owned_new None))) = Inr b'
    \<and> content b' = [8, 9, 2, 3] \<and> slist b' = fresh @ [s'] \<and> \<not> isMutable s' \<and> s_base s' = [9, 2, 3]"
proof -
  let ?f = "addBufferFragment [1, 2, 3] 7 (owned_new None)"
  let ?s = "slice_drain 1 (slice_of_fragment [1, 2, 3] 7)"
  have "own_inv ?f" by (simp add: addBufferFragment_step own_inv_new)
  then have inv: "own_inv (own_drain 1 ?f)" "content (own_drain 1 ?f) = [2, 3]"
    by (simp_all add: own_drain_def drainImpl_step addBufferFragment_step own_inv_new)
  have sl: "slist (own_drain 1 ?f) = [?s]" by code_simp
  have s: "\<not> isMutable ?s" "0 < dataSize ?s" "s_data ?s = 1" "s_base ?s = [1, 2, 3]" by code_simp+
  have "length [8 :: byte, 9] \<le> max_request" by simp
  moreover have "1 = min (length [8 :: byte, 9]) (s_data ?s)" unfolding s(3) by simp
  ultimately have "\<exists>b' s' fresh. own_prepend [8, 9] (own_drain 1 ?f) = Inr b' \<and> content b' = [8, 9] @ content (own_drain 1 ?f)
      \<and> slist b' = fresh @ [s'] \<and> \<not> isMutable s'
      \<and> s_base s' = take (s_data ?s - 1) (s_base ?s) @ drop (length [8 :: byte, 9] - 1) [8, 9] @ drop (s_data ?s) (s_base ?s)"
    by (rule prepend_overwrites_fragment [OF inv(1) sl s(1,2)])
  then show ?thesis unfolding inv(2) s(3,4) by simp
qed

section \<open>Reservations\<close>



text \<open>\<open>reserveSingleSlice(length)\<close> yields one slice of exactly \<open>length\<close> contiguous
  bytes, in storage of its own when a separate slice is asked for; committing what was written
  through it appends exactly that.\<close>

theorem reserve_single_write_commit:
  assumes "own_inv b" and "0 < len" and "len \<le> max_request"
  shows "\<exists>raw st b1. reserveSingleSlice len separate b =
      Inr (\<lparr>r_slices = [raw], r_owner = Some (Owner_single st), r_length = Some len\<rparr>, b1)
    \<and> rs_len raw = len \<and> (separate \<longrightarrow> ss_mem st \<noteq> None)
    \<and> own_inv b1 \<and> content b1 = content b \<and> keeps_books b b1
    \<and> (\<forall>bytes. length bytes \<le> len \<longrightarrow>
        (\<exists>r1 b2 r2 b3.
          fill_reservation bytes \<lparr>r_slices = [raw], r_owner = Some (Owner_single st), r_length = Some len\<rparr> b1
            = (r1, b2)
          \<and> reservation_single_commit (length bytes) r1 b2 = Inr (r2, b3)
          \<and> own_inv b3 \<and> content b3 = content b @ bytes \<and> keeps_books b b3))"
proof -
  obtain raw st b1 where res: "reserveSingleSlice len separate b =
      Inr (\<lparr>r_slices = [raw], r_owner = Some (Owner_single st), r_length = Some len\<rparr>, b1)"
    and b1: "own_inv b1" "content b1 = content b" "keeps_books b b1"
    and ok: "ready b1 [raw] [st]" "rs_len raw = len" "separate \<longrightarrow> ss_mem st \<noteq> None"
    using reserveSingleSlice_total [OF assms] by blast
  show ?thesis
    using res b1 ok single_commit_total [OF ok(1) b1(1), of _ "Some len"] keeps_books_trans [OF b1(3)]
    by fastforce
qed

lemma reserve_single_write_commit_witness:
  "\<exists>raw st b1. reserveSingleSlice 100 True sample1 =
      Inr (\<lparr>r_slices = [raw], r_owner = Some (Owner_single st), r_length = Some 100\<rparr>, b1)
    \<and> rs_len raw = 100 \<and> content b1 = [1, 2, 3, 4, 5]"
  using reserve_single_write_commit [of sample1 100 True] by auto

section \<open>Integers\<close>

text \<open>Property C18. Integer round trip: a value of an integral type that fits into \<open>sz\<close> bytes (for a
  signed type, sign included), written with \<open>writeInt\<close> in either byte order, is appended as \<open>sz\<close>
  bytes, and \<open>drainInt\<close> with the same parameters gets the same value back and drains exactly them.\<close>

theorem writeInt_drainInt_roundtrip:
  assumes "own_inv b" and "0 < sz" and "sz \<le> sizeof_T T" and "sizeof_T T \<le> 8" and "fits T sz v"
  shows "\<exists>b1 b2. writeInt T e sz v b = Inr b1 \<and> content b1 = content b @ encoded e sz v
    \<and> drainInt T e sz (own_drain (length (content b)) b1) = Inr (v, b2) \<and> own_inv b2 \<and> content b2 = []"
proof -
  have v: "v < 256 ^ sizeof_T T" using assms(5) by (simp add: fits_def)
  have "length (encoded e sz v) \<le> max_request" using assms(3,4) by (simp add: max_request_def)
  from addImpl_total [OF assms(1) this] obtain b1 where b1: "own_add (encoded e sz v) b = Inr b1"
    "own_inv b1" "content b1 = content b @ encoded e sz v" by (auto simp: own_add_def)
  let ?d = "own_drain (length (content b)) b1"
  have d: "own_inv ?d" "content ?d = encoded e sz v"
    using drainImpl_step [OF b1(2), of "length (content b)"] b1(3) by (simp_all add: own_drain_def)
  have "peekInt T e sz 0 ?d = Inr (sign_extend T sz (decoded e (encoded e sz v)))"
    using peekInt_eq [OF d(1) _ assms(2,3), of 0 e] by (simp add: d(2))
  then have "peekInt T e sz 0 ?d = Inr v"
    by (simp add: decoded_encoded sign_extend_fits [OF assms(5,3)])
  then have "drainInt T e sz ?d = Inr (v, own_drain sz ?d)" by (simp add: drainInt_def)
  moreover have "own_inv (own_drain sz ?d)" "content (own_drain sz ?d) = []"
    using drainImpl_step [OF d(1), of sz] d(2) by (simp_all add: own_drain_def)
  moreover have "writeInt T e sz v b = Inr b1" using writeInt_bytes [OF assms(2,3) v, of e b] b1(1) by simp
  ultimately show ?thesis using b1(3) by blast
qed

lemma writeInt_drainInt_roundtrip_witness:
  "\<exists>b1 b2. writeInt \<lparr>sizeof_T = 4, is_signed = True\<rparr> BigEndian 3 (2 ^ 32 - 2) (owned_new None) = Inr b1
    \<and> content b1 = [255, 255, 254]
    \<and> drainInt \<lparr>sizeof_T = 4, is_signed = True\<rparr> BigEndian 3 (own_drain 0 b1) = Inr (2 ^ 32 - 2, b2)"
proof -
  let ?T = "\<lparr>sizeof_T = 4, is_signed = True\<rparr>"
  have "fits ?T 3 (2 ^ 32 - 2)" by (simp add: fits_def)
  moreover have "encoded BigEndian 3 (2 ^ 32 - 2) = [255, 255, 254]"
    by (simp add: encoded_def numeral_3_eq_3)
  ultimately show ?thesis
    using writeInt_drainInt_roundtrip [of "owned_new None" 3 ?T "2 ^ 32 - 2" BigEndian] by auto
qed

text \<open>Property C19. \<open>peekInt(start)\<close> decodes the \<open>sz\<close> bytes at \<open>start\<close> in the given byte order, wherever the
  slice boundaries fall, and sign-extends a signed type; its own underflow check does nothing, so a
  read past the end dies at the assertion of \<open>copyOut\<close> and throws no exception.\<close>

theorem peekInt_decodes:
  assumes "own_inv b" and "0 < sz" and "sz \<le> sizeof_T T"
  shows "peekInt T e sz start b =
    (if start + sz \<le> length (content b)
     then Inr (sign_extend T sz (decoded e (take sz (drop start (content b))))) else Inl Assert_failed)"
  using peekInt_eq [OF assms(1) _ assms(2,3), of start e] peekInt_short [OF assms(1) _ assms(2), of start T e]
  by auto

lemma peekInt_decodes_witness:
  "peekInt \<lparr>sizeof_T = 2, is_signed = False\<rparr> BigEndian 2 2 sample1 = Inr 772
    \<and> peekInt \<lparr>sizeof_T = 2, is_signed = False\<rparr> BigEndian 2 4 sample1 = Inl Assert_failed"
  using peekInt_decodes [of sample1 2 "\<lparr>sizeof_T = 2, is_signed = False\<rparr>" BigEndian 2]
    peekInt_decodes [of sample1 2 "\<lparr>sizeof_T = 2, is_signed = False\<rparr>" BigEndian 4]
  by (simp add: sign_extend_def decoded_def)

end
