(* ===== verification/IntervalSet.thy ===== *)
theory IntervalSet
  imports Prelude
begin

text \<open>
  The class \<open>IntervalSetImpl\<close> of \<open>common/common/Utility.h\<close>: a \<open>std::set\<close> of intervals
  \<open>[left, right)\<close> under the order "ends before the other starts". The set is the list of its
  elements in order; \<open>lower_bound\<close>, \<open>upper_bound\<close>, \<open>insert\<close> and \<open>erase\<close> are the operations of
  \<open>std::set\<close> on it, positions being indices. \<open>Value\<close> is \<open>size_t\<close>, as in its only use.
\<close>

section \<open>Definitions\<close>

type_synonym interval = "nat \<times> nat"

definition iv_less :: "interval \<Rightarrow> interval \<Rightarrow> bool" where
  "iv_less a b \<longleftrightarrow> snd a < fst b"

definition lower_bound :: "interval \<Rightarrow> interval list \<Rightarrow> nat" where
  "lower_bound k xs = length (takeWhile (\<lambda>e. iv_less e k) xs)"

definition upper_bound :: "interval \<Rightarrow> interval list \<Rightarrow> nat" where
  "upper_bound k xs = length (takeWhile (\<lambda>e. \<not> iv_less k e) xs)"

text \<open>\<open>std::set::insert\<close>: nothing happens when an equivalent element is there.\<close>

definition set_insert :: "interval \<Rightarrow> interval list \<Rightarrow> interval list" where
  "set_insert k xs =
     (let p = lower_bound k xs in
      if p < length xs \<and> \<not> iv_less k (xs ! p) then xs else take p xs @ k # drop p xs)"

definition iv_insert :: "nat \<Rightarrow> nat \<Rightarrow> interval list \<Rightarrow> interval list result" where
  "iv_insert left right intervals =
     (if left = right then Inr intervals
      else assert_then (left < right)
        (let (left1, right1, intervals1) =
           (if intervals \<noteq> [] then
              let left_pos = lower_bound (left, left) intervals in
              if left_pos \<noteq> length intervals \<and> right \<ge> fst (intervals ! left_pos) then
                let right_pos = upper_bound (right, right) intervals in
                if right_pos \<noteq> 0 then
                  let right_pos1 = right_pos - 1 in
                  if snd (intervals ! right_pos1) \<ge> left then
                    (min (fst (intervals ! left_pos)) left, max (snd (intervals ! right_pos1)) right,
                     take left_pos intervals @ drop (right_pos1 + 1) intervals)
                  else (left, right, intervals)
                else (left, right, intervals)
              else (left, right, intervals)
            else (left, right, intervals))
         in Inr (set_insert (left1, right1) intervals1)))"

definition iv_test :: "nat \<Rightarrow> interval list \<Rightarrow> bool" where
  "iv_test v intervals =
     (let left_pos = lower_bound (v, v + 1) intervals in
      left_pos \<noteq> length intervals \<and> v \<ge> fst (intervals ! left_pos) \<and> v < snd (intervals ! left_pos))"

definition iv_toVector :: "interval list \<Rightarrow> interval list" where
  "iv_toVector intervals = intervals"

definition iv_clear :: "interval list \<Rightarrow> interval list" where
  "iv_clear intervals = []"

section \<open>The set of numbers an interval set stands for\<close>

definition iv_wf :: "interval list \<Rightarrow> bool" where
  "iv_wf xs \<longleftrightarrow> sorted_wrt iv_less xs \<and> (\<forall>e\<in>set xs. fst e < snd e)"

definition covered :: "interval list \<Rightarrow> nat \<Rightarrow> bool" where
  "covered xs v \<longleftrightarrow> (\<exists>e\<in>set xs. fst e \<le> v \<and> v < snd e)"

lemma covered_simps [simp]:
  "covered [] v = False"
  "covered (e # xs) v \<longleftrightarrow> (fst e \<le> v \<and> v < snd e) \<or> covered xs v"
  "covered (xs @ ys) v \<longleftrightarrow> covered xs v \<or> covered ys v"
  by (auto simp: covered_def)

lemma iv_wf_append:
  "iv_wf (xs @ ys) \<longleftrightarrow> iv_wf xs \<and> iv_wf ys \<and> (\<forall>a\<in>set xs. \<forall>b\<in>set ys. iv_less a b)"
  by (auto simp: iv_wf_def sorted_wrt_append)

lemma iv_wf_Cons: "iv_wf (e # xs) \<longleftrightarrow> fst e < snd e \<and> iv_wf xs \<and> (\<forall>b\<in>set xs. iv_less e b)"
  by (auto simp: iv_wf_def)

lemma iv_first_least:
  assumes "iv_wf (m # M)" "e \<in> set (m # M)"
  shows "fst m \<le> fst e \<and> snd m \<le> snd e"
proof (cases "e = m")
  case False
  then have "e \<in> set M" using assms(2) by simp
  then have "snd m < fst e" "fst m < snd m" "fst e < snd e"
    using assms(1) by (auto simp: iv_wf_def iv_less_def)
  then show ?thesis by simp
qed simp

lemma iv_last_greatest:
  assumes "iv_wf (M @ [m])" "e \<in> set (M @ [m])"
  shows "fst e \<le> fst m \<and> snd e \<le> snd m"
proof (cases "e = m")
  case False
  then have "e \<in> set M" using assms(2) by simp
  then have "snd e < fst m" "fst m < snd m" "fst e < snd e"
    using assms(1) by (auto simp: iv_wf_def iv_less_def sorted_wrt_append)
  then show ?thesis by simp
qed simp

lemma set_insert_between:
  assumes "\<forall>e\<in>set xs. iv_less e k" and "ys = [] \<or> iv_less k (hd ys)" and "fst k < snd k" and "\<forall>e\<in>set ys. fst e < snd e"
  shows "set_insert k (xs @ ys) = xs @ k # ys"
proof -
  have "\<not> iv_less y k" if "ys = y # zs" for y zs
    using assms(2-4) that by (auto simp: iv_less_def)
  then have "takeWhile (\<lambda>e. iv_less e k) ys = []" by (cases ys) auto
  then have "takeWhile (\<lambda>e. iv_less e k) (xs @ ys) = xs" using assms(1) by (simp add: takeWhile_append2)
  then have "lower_bound k (xs @ ys) = length xs" by (simp add: lower_bound_def)
  then show ?thesis using assms(2) by (cases ys) (auto simp: set_insert_def nth_append)
qed

lemma takeWhile_split:
  assumes "\<And>x. x \<in> set xs \<Longrightarrow> P x" and "ys = [] \<or> \<not> P (hd ys)"
  shows "takeWhile P (xs @ ys) = xs"
  using assms by (cases ys) (auto simp: takeWhile_append2)

lemma iv_insert_spec:
  assumes wf: "iv_wf xs" and less: "left < right"
  shows "\<exists>ys. iv_insert left right xs = Inr ys \<and> iv_wf ys
    \<and> (\<forall>v. covered ys v \<longleftrightarrow> covered xs v \<or> left \<le> v \<and> v < right)"
proof -
  define A where "A = takeWhile (\<lambda>e. snd e < left) xs"
  define B where "B = dropWhile (\<lambda>e. snd e < left) xs"
  have xs: "xs = A @ B" by (simp add: A_def B_def)
  have A: "\<And>e. e \<in> set A \<Longrightarrow> snd e < left" by (auto simp: A_def dest: set_takeWhileD)
  have hdB: "B \<noteq> [] \<Longrightarrow> left \<le> snd (hd B)"
    unfolding B_def using hd_dropWhile [of "\<lambda>e. snd e < left" xs] by auto
  have lp: "lower_bound (left, left) xs = length A" by (simp add: lower_bound_def A_def iv_less_def)
  have at: "length A = length xs \<longleftrightarrow> B = []" "B \<noteq> [] \<Longrightarrow> xs ! length A = hd B"
    by (simp_all add: xs nth_append hd_conv_nth)
  have wfs: "iv_wf A" "iv_wf B" "\<And>a b. a \<in> set A \<Longrightarrow> b \<in> set B \<Longrightarrow> iv_less a b"
    using wf by (auto simp: xs iv_wf_append)
  show ?thesis
  proof (cases "B \<noteq> [] \<and> fst (hd B) \<le> right")
    case False
    then have front: "B = [] \<or> iv_less (left, right) (hd B)" by (auto simp: iv_less_def)
    have "iv_insert left right xs = Inr (set_insert (left, right) xs)"
      using less False at by (cases "B = []") (simp_all add: iv_insert_def lp Let_def)
    also have "set_insert (left, right) xs = A @ (left, right) # B"
      unfolding xs using A front less wfs(2) by (intro set_insert_between) (auto simp: iv_less_def iv_wf_def)
    moreover have "iv_less (left, right) b" if "b \<in> set B" for b
      using that front wfs(2) by (cases B) (auto simp: iv_less_def iv_wf_Cons)
    then have "iv_wf (A @ (left, right) # B)"
      using less wfs A by (auto simp: iv_wf_append iv_wf_Cons iv_less_def)
    ultimately show ?thesis by (auto simp: xs)
  next
    case True
    define M where "M = takeWhile (\<lambda>e. fst e \<le> right) B"
    define D where "D = dropWhile (\<lambda>e. fst e \<le> right) B"
    have B: "B = M @ D" by (simp add: M_def D_def)
    have M: "\<And>e. e \<in> set M \<Longrightarrow> fst e \<le> right" by (auto simp: M_def dest: set_takeWhileD)
    have hdD: "D \<noteq> [] \<Longrightarrow> right < fst (hd D)"
      unfolding D_def using hd_dropWhile [of "\<lambda>e. fst e \<le> right" B] by auto
    have Mne: "M \<noteq> []" using True by (cases B) (auto simp: M_def)
    have wfM: "iv_wf M" "iv_wf D" "\<And>a b. a \<in> set M \<Longrightarrow> b \<in> set D \<Longrightarrow> iv_less a b"
      using wfs(2) by (auto simp: B iv_wf_append)
    have Aright: "fst e \<le> right" if "e \<in> set A" for e
      using A [OF that] wfs(1) less that by (fastforce simp: iv_wf_def)
    have "takeWhile (\<lambda>e. \<not> iv_less (right, right) e) ((A @ M) @ D) = A @ M"
      using Aright M hdD by (intro takeWhile_split) (auto simp: iv_less_def not_less)
    then have up: "upper_bound (right, right) xs = length A + length M"
      by (simp add: upper_bound_def xs B)
    have nthL: "xs ! length A = hd M" using Mne by (simp add: xs B nth_append hd_conv_nth)
    have nthR: "xs ! (length A + length M - 1) = last M"
      using Mne by (cases M rule: rev_cases) (simp_all add: xs B nth_append)
    have hdM: "hd B = hd M" using Mne by (simp add: B)
    have hd_le: "fst (hd M) \<le> fst e \<and> snd (hd M) \<le> snd e" if "e \<in> set M" for e
      using iv_first_least [of "hd M" "tl M" e] that wfM(1) Mne by simp
    have le_last: "fst e \<le> fst (last M) \<and> snd e \<le> snd (last M)" if "e \<in> set M" for e
      using iv_last_greatest [of "butlast M" "last M" e] that wfM(1) Mne by simp
    have lastge: "left \<le> snd (last M)"
      using hdB Mne hdM le_last [of "hd M"] by (auto simp: B)
    let ?l = "min (fst (hd M)) left" and ?r = "max (snd (last M)) right"
    have eq: "iv_insert left right xs = Inr (set_insert (?l, ?r) (A @ D))"
    proof -
      have "xs \<noteq> []" "0 < length A + length M" "length A + length M - 1 + 1 = length A + length M"
        using True Mne by (auto simp: xs)
      moreover have "take (length A) xs = A" "drop (length A + length M) xs = D" by (simp_all add: xs B)
      ultimately show ?thesis
        using less True lastge at hdM nthR by (simp add: iv_insert_def lp up Let_def)
    qed
    have D: "iv_less (?l, ?r) d" if "d \<in> set D" for d
    proof -
      have "right < fst d" using that hdD wfM(2) by (cases D) (auto simp: iv_wf_Cons iv_less_def)
      moreover have "snd (last M) < fst d" using wfM(3) [of "last M" d] that Mne by (auto simp: iv_less_def)
      ultimately show ?thesis by (simp add: iv_less_def)
    qed
    have A': "iv_less a (?l, ?r)" if "a \<in> set A" for a
      using A [OF that] wfs(3) [OF that, of "hd M"] Mne by (auto simp: B iv_less_def)
    have "set_insert (?l, ?r) (A @ D) = A @ (?l, ?r) # D"
      using A' D [OF hd_in_set] less wfM(2) by (intro set_insert_between) (auto simp: iv_wf_def)
    moreover have "iv_wf (A @ (?l, ?r) # D)"
      using A' D less wfs wfM by (auto simp: iv_wf_append iv_wf_Cons B iv_less_def)
    moreover have "covered M v \<or> left \<le> v \<and> v < right \<longleftrightarrow> ?l \<le> v \<and> v < ?r" for v
    proof
      assume "covered M v \<or> left \<le> v \<and> v < right"
      then show "?l \<le> v \<and> v < ?r" using hd_le le_last by (fastforce simp: covered_def)
    next
      assume v: "?l \<le> v \<and> v < ?r"
      have "hd M \<in> set M" "last M \<in> set M" using Mne by simp_all
      moreover have "left \<le> snd (hd M)" using hdB hdM True by simp
      moreover have "fst (last M) \<le> right" using M Mne by simp
      ultimately show "covered M v \<or> left \<le> v \<and> v < right"
      proof -
        consider "v < left" | "left \<le> v" "v < right" | "right \<le> v" by linarith
        then show ?thesis
        proof cases
          case 1
          then have "fst (hd M) \<le> v" "v < snd (hd M)" using v \<open>left \<le> snd (hd M)\<close> by auto
          then show ?thesis using \<open>hd M \<in> set M\<close> by (auto simp: covered_def)
        next
          case 3
          then have "fst (last M) \<le> v" "v < snd (last M)" using v \<open>fst (last M) \<le> right\<close> by auto
          then show ?thesis using \<open>last M \<in> set M\<close> by (auto simp: covered_def)
        qed simp
      qed
    qed
    ultimately show ?thesis unfolding eq by (auto simp: xs B)
  qed
qed

lemma iv_test_covered:
  assumes "iv_wf xs"
  shows "iv_test v xs = covered xs v"
proof -
  define A where "A = takeWhile (\<lambda>e. snd e < v) xs"
  define B where "B = dropWhile (\<lambda>e. snd e < v) xs"
  have xs: "xs = A @ B" by (simp add: A_def B_def)
  have A: "\<not> covered A v"
    unfolding covered_def A_def by (auto dest: set_takeWhileD)
  have wfB: "iv_wf B" using assms by (simp add: xs iv_wf_append)
  have lp: "lower_bound (v, Suc v) xs = length A" by (simp add: lower_bound_def A_def iv_less_def)
  show ?thesis
  proof (cases B)
    case Nil
    then show ?thesis using A lp by (simp add: iv_test_def xs)
  next
    case (Cons e ys)
    have "B \<noteq> []" using Cons by simp
    then have "v \<le> snd e" using hd_dropWhile [of "\<lambda>e. snd e < v" xs] Cons unfolding B_def by simp
    then have "\<not> covered ys v"
      using wfB Cons by (auto simp: covered_def iv_wf_Cons iv_less_def)
    moreover have "length A \<noteq> length xs" "xs ! length A = e" by (simp_all add: xs Cons)
    moreover have "covered xs v = covered (e # ys) v" using A by (simp add: xs Cons)
    ultimately show ?thesis by (simp add: iv_test_def lp)
  qed
qed

lemma iv_insert_ok:
  assumes "iv_wf xs" and "left \<le> right"
  shows "\<exists>ys. iv_insert left right xs = Inr ys \<and> iv_wf ys
    \<and> (\<forall>v. covered ys v \<longleftrightarrow> covered xs v \<or> left \<le> v \<and> v < right)"
proof (cases "left = right")
  case True
  then show ?thesis using assms(1) by (auto simp: iv_insert_def)
next
  case False
  then show ?thesis using iv_insert_spec [OF assms(1), of left right] assms(2) by simp
qed

text \<open>As intervals that overlap or touch are merged, there is one list for a set of numbers.\<close>

lemma covered_later:
  assumes "iv_wf (x # xs)"
  shows "covered xs v \<longleftrightarrow> covered (x # xs) v \<and> snd x < v"
proof -
  have "snd x < fst e" if "e \<in> set xs" for e using assms that by (simp add: iv_wf_Cons iv_less_def)
  then show ?thesis by (force simp: covered_def)
qed

lemma first_bounds:
  assumes "iv_wf (x # xs)" and "iv_wf (y # ys)" and "\<And>v. covered (x # xs) v \<longleftrightarrow> covered (y # ys) v"
  shows "fst y \<le> fst x" and "fst x = fst y \<Longrightarrow> snd y \<le> snd x"
proof -
  have x: "fst x < snd x" using assms(1) by (simp add: iv_wf_Cons)
  then have "covered (x # xs) (fst x)" by simp
  then have "covered (y # ys) (fst x)" using assms(3) by blast
  then obtain e where "e \<in> set (y # ys)" "fst e \<le> fst x" unfolding covered_def by blast
  then show "fst y \<le> fst x" using iv_first_least [OF assms(2)] le_trans by blast
  assume eq: "fst x = fst y"
  show "snd y \<le> snd x"
  proof (rule ccontr)
    assume "\<not> snd y \<le> snd x"
    then have "covered (y # ys) (snd x)" using eq x by simp
    then have "covered (x # xs) (snd x)" using assms(3) by blast
    moreover have "\<not> covered xs (snd x)" using covered_later [OF assms(1), of "snd x"] by blast
    ultimately show False by simp
  qed
qed

lemma iv_wf_unique: "iv_wf xs \<Longrightarrow> iv_wf ys \<Longrightarrow> (\<And>v. covered xs v \<longleftrightarrow> covered ys v) \<Longrightarrow> xs = ys"
proof (induction xs arbitrary: ys)
  case Nil
  then show ?case by (cases ys) (auto simp: iv_wf_Cons)
next
  case (Cons x xs)
  show ?case
  proof (cases ys)
    case Nil
    then show ?thesis using Cons.prems by (auto simp: iv_wf_Cons)
  next
    case (Cons y ys')
    note wf = Cons.prems(1) Cons.prems(2) [unfolded Cons] and cov = Cons.prems(3) [unfolded Cons]
    have "x = y"
      using first_bounds [OF wf cov] first_bounds [OF wf(2,1) cov [symmetric]]
      by (simp add: prod_eq_iff)
    moreover have "covered xs v \<longleftrightarrow> covered ys' v" for v
      using covered_later [OF wf(1), of v] covered_later [OF wf(2), of v] cov [of v] \<open>x = y\<close> by blast
    then have "xs = ys'" using Cons.IH [of ys'] wf by (simp add: iv_wf_Cons)
    ultimately show ?thesis by (simp add: Cons)
  qed
qed

section \<open>The interface\<close>

text \<open>\<open>IntervalSet\<close> of \<open>include/common/IntervalSet.h\<close>: ranges are put in, numbers are tested, and what is tested is all
  there is to a set.\<close>

fun insert_ranges :: "(nat \<Rightarrow> nat \<Rightarrow> 's \<Rightarrow> 's result) \<Rightarrow> (nat \<times> nat) list \<Rightarrow> 's \<Rightarrow> 's result" where
  "insert_ranges ins [] s = Inr s"
| "insert_ranges ins ((l, r) # rs) s = res_bind (ins l r s) (insert_ranges ins rs)"

locale range_set =
  fixes ins :: "nat \<Rightarrow> nat \<Rightarrow> 's \<Rightarrow> 's result" and test :: "nat \<Rightarrow> 's \<Rightarrow> bool" and ok :: "'s \<Rightarrow> bool"
  assumes ins_ok: "ok s \<Longrightarrow> l \<le> r \<Longrightarrow> \<exists>s'. ins l r s = Inr s' \<and> ok s' \<and> (\<forall>v. test v s' \<longleftrightarrow> test v s \<or> l \<le> v \<and> v < r)"
    and ins_reversed: "ok s \<Longrightarrow> r < l \<Longrightarrow> ins l r s = Inl Assert_failed"
    and extensional: "ok s \<Longrightarrow> ok s' \<Longrightarrow> (\<And>v. test v s \<longleftrightarrow> test v s') \<Longrightarrow> s = s'"
begin

lemma insert_ranges_ok:
  "ok s \<Longrightarrow> list_all (\<lambda>(l, r). l \<le> r) rs \<Longrightarrow>
   \<exists>s'. insert_ranges ins rs s = Inr s' \<and> ok s'
     \<and> (\<forall>v. test v s' \<longleftrightarrow> test v s \<or> (\<exists>(l, r) \<in> set rs. l \<le> v \<and> v < r))"
proof (induction rs arbitrary: s)
  case (Cons lr rs)
  obtain l r where lr: "lr = (l, r)" by (cases lr)
  obtain s1 where "ins l r s = Inr s1" "ok s1" "\<forall>v. test v s1 \<longleftrightarrow> test v s \<or> l \<le> v \<and> v < r"
    using ins_ok [OF Cons.prems(1), of l r] Cons.prems(2) lr by auto
  then show ?case using Cons.IH [of s1] Cons.prems(2) by (fastforce simp: lr)
qed simp

text \<open>The order of the insertions is immaterial, and so are repetitions.\<close>

lemma insert_ranges_set:
  assumes "ok s" and "list_all (\<lambda>(l, r). l \<le> r) rs" and "set rs = set rs'"
  shows "insert_ranges ins rs s = insert_ranges ins rs' s"
proof -
  have "list_all (\<lambda>(l, r). l \<le> r) rs'" using assms(2,3) by (simp add: list_all_iff)
  then show ?thesis
    using insert_ranges_ok [OF assms(1,2)] insert_ranges_ok [OF assms(1), of rs'] extensional assms(3) by metis
qed

lemma insert_ranges_reversed:
  assumes "ok s" and "list_all (\<lambda>(l, r). l \<le> r) rs" and "r < l"
  shows "insert_ranges ins (rs @ (l, r) # rs') s = Inl Assert_failed"
proof -
  have app: "insert_ranges ins (xs @ ys) t = res_bind (insert_ranges ins xs t) (insert_ranges ins ys)" for xs ys t
    by (induction ins xs t rule: insert_ranges.induct) (auto simp: res_bind_def split: sum.splits)
  show ?thesis using insert_ranges_ok [OF assms(1,2)] ins_reversed assms(3) by (auto simp: app)
qed

end

interpretation intervals: range_set iv_insert iv_test iv_wf
proof
  fix s l r
  assume wf: "iv_wf s"
  show "l \<le> r \<Longrightarrow> \<exists>s'. iv_insert l r s = Inr s' \<and> iv_wf s' \<and> (\<forall>v. iv_test v s' \<longleftrightarrow> iv_test v s \<or> l \<le> v \<and> v < r)"
    using iv_insert_ok [OF wf, of l r] wf by (auto simp: iv_test_covered)
  show "r < l \<Longrightarrow> iv_insert l r s = Inl Assert_failed" by (simp add: iv_insert_def)
next
  fix s s'
  assume "iv_wf s" "iv_wf s'" "\<And>v. iv_test v s \<longleftrightarrow> iv_test v s'"
  then show "s = s'" by (auto simp: iv_test_covered intro: iv_wf_unique)
qed

end
