(* ===== verification/StringUtil.thy ===== *)
theory StringUtil
  imports IntervalSet
begin

text \<open>
  \<open>StringUtil\<close> of \<open>common/common/Utility.cpp\<close>, trimming and cropping, escaping, number conversion, bounded copying and \<open>removeCharacters\<close>.
  A \<open>string_view\<close> or \<open>std::string\<close> is a \<open>string\<close>; a C string is the list of its characters
  before the terminating NUL; an output buffer is the list of its bytes. \<open>npos\<close> is \<open>None\<close>.
\<close>

section \<open>What the code uses of the standard library\<close>

fun find_first :: "('a \<Rightarrow> bool) \<Rightarrow> 'a list \<Rightarrow> nat option" where
  "find_first P [] = None"
| "find_first P (x # xs) = (if P x then Some 0 else map_option Suc (find_first P xs))"

definition find_last :: "('a \<Rightarrow> bool) \<Rightarrow> 'a list \<Rightarrow> nat option" where
  "find_last P xs = map_option (\<lambda>k. length xs - 1 - k) (find_first P (rev xs))"

text \<open>\<open>string_view::find\<close>: the first position at which \<open>needle\<close> starts.\<close>

fun find_sub :: "string \<Rightarrow> string \<Rightarrow> nat option" where
  "find_sub needle [] = (if needle = [] then Some 0 else None)"
| "find_sub needle (x # xs) =
     (if take (length needle) (x # xs) = needle then Some 0 else map_option Suc (find_sub needle xs))"

definition remove_prefix :: "nat \<Rightarrow> string \<Rightarrow> string" where
  "remove_prefix n s = drop n s"

definition remove_suffix :: "nat \<Rightarrow> string \<Rightarrow> string" where
  "remove_suffix n s = take (length s - n) s"

text \<open>\<open>string_view::substr(pos, n)\<close> throws \<open>std::out_of_range\<close> past the end.\<close>

definition substr :: "string \<Rightarrow> nat \<Rightarrow> nat option \<Rightarrow> string result" where
  "substr s pos n =
     (if pos > length s then Inl Out_of_range
      else Inr (case n of None \<Rightarrow> drop pos s | Some k \<Rightarrow> take k (drop pos s)))"

definition digit_value :: "char \<Rightarrow> nat option" where
  "digit_value c =
     (let n = (of_char c :: nat) in
      if 48 \<le> n \<and> n \<le> 57 then Some (n - 48)
      else if 65 \<le> n \<and> n \<le> 90 then Some (n - 55)
      else if 97 \<le> n \<and> n \<le> 122 then Some (n - 87)
      else None)"

definition is_digit_in :: "nat \<Rightarrow> char \<Rightarrow> bool" where
  "is_digit_in b c = (case digit_value c of None \<Rightarrow> False | Some d \<Rightarrow> d < b)"

definition digits_value :: "nat \<Rightarrow> string \<Rightarrow> nat" where
  "digits_value b ds = foldl (\<lambda>v c. v * b + the (digit_value c)) 0 ds"

definition c_isspace :: "char \<Rightarrow> bool" where
  "c_isspace c \<longleftrightarrow> (of_char c :: nat) \<in> {9, 10, 11, 12, 13, 32}"

text \<open>\<open>std::strtoull\<close>: the value, the offset of \<open>end_ptr\<close> and whether \<open>errno\<close> is \<open>ERANGE\<close>.\<close>

definition c_strtoull :: "string \<Rightarrow> nat \<Rightarrow> nat \<times> nat \<times> bool" where
  "c_strtoull s b =
     (let s1 = dropWhile c_isspace s;
          negative = (s1 \<noteq> [] \<and> hd s1 = CHR 0x2D);
          s2 = (if s1 \<noteq> [] \<and> (hd s1 = CHR 0x2D \<or> hd s1 = CHR 0x2B) then tl s1 else s1);
          hex = (b = 0 \<or> b = 16) \<and> length s2 > 2 \<and> s2 ! 0 = CHR 0x30 \<and> s2 ! 1 \<in> {CHR 0x58, CHR 0x78}
                \<and> is_digit_in 16 (s2 ! 2);
          s3 = (if hex then drop 2 s2 else s2);
          b1 = (if hex then 16 else if b \<noteq> 0 then b
                else if s3 \<noteq> [] \<and> hd s3 = CHR 0x30 then 8 else 10);
          ds = takeWhile (is_digit_in b1) s3;
          v = digits_value b1 ds
      in if ds = [] then (0, 0, False)
         else let end_offset = length s - length s3 + length ds in
           if v \<ge> 2 ^ 64 then (2 ^ 64 - 1, end_offset, True)
           else if negative then ((2 ^ 64 - v) mod 2 ^ 64, end_offset, False)
           else (v, end_offset, False))"

section \<open>Definitions\<close>

definition WhitespaceChars :: string where
  "WhitespaceChars = [CHR 0x20, CHR 0x09, CHR 0x0C, CHR 0x0B, CHR 0x0A, CHR 0x0D]"

definition whitespace :: "char \<Rightarrow> bool" where
  "whitespace c \<longleftrightarrow> c \<in> set WhitespaceChars"

text \<open>\<open>StringUtil::strtoull\<close>: the end pointer (\<open>None\<close> for null) and \<open>out\<close>.\<close>

definition str_strtoull :: "string \<Rightarrow> nat \<Rightarrow> nat \<Rightarrow> nat option \<times> nat" where
  "str_strtoull str out b =
     (if length str = 0 then (None, out)
      else let (out1, end_ptr, erange) = c_strtoull str b in
        if end_ptr = 0 \<or> (out1 = 2 ^ 64 - 1 \<and> erange) then (None, out1) else (Some end_ptr, out1))"

definition atoull :: "string \<Rightarrow> nat \<Rightarrow> nat \<Rightarrow> bool \<times> nat" where
  "atoull str out b =
     (case str_strtoull str out b of
        (None, out1) \<Rightarrow> (False, out1)
      | (Some end_ptr, out1) \<Rightarrow> (\<not> end_ptr < length str, out1))"

definition ltrim :: "string \<Rightarrow> string" where
  "ltrim source =
     (case find_first (\<lambda>c. \<not> whitespace c) source of
        Some pos \<Rightarrow> remove_prefix pos source
      | None \<Rightarrow> remove_prefix (length source) source)"

definition rtrim :: "string \<Rightarrow> string" where
  "rtrim source =
     (case find_last (\<lambda>c. \<not> whitespace c) source of
        Some pos \<Rightarrow> remove_suffix (length source - pos - 1) source
      | None \<Rightarrow> remove_suffix (length source) source)"

definition trim :: "string \<Rightarrow> string" where
  "trim source = ltrim (rtrim source)"

definition removeTrailingCharacters :: "string \<Rightarrow> char \<Rightarrow> string" where
  "removeTrailingCharacters source ch =
     (case find_last (\<lambda>c. c \<noteq> ch) source of
        Some pos \<Rightarrow> remove_suffix (length source - pos - 1) source
      | None \<Rightarrow> remove_suffix (length source) source)"

definition cropRight :: "string \<Rightarrow> string \<Rightarrow> string" where
  "cropRight source delimiter =
     (case find_sub delimiter source of
        Some pos \<Rightarrow> remove_suffix (length source - pos) source
      | None \<Rightarrow> source)"

definition cropLeft :: "string \<Rightarrow> string \<Rightarrow> string" where
  "cropLeft source delimiter =
     (case find_sub delimiter source of
        Some pos \<Rightarrow> remove_prefix (pos + length delimiter) source
      | None \<Rightarrow> source)"

text \<open>\<open>itoa\<close>: the digits are written backwards, then reversed in place.\<close>

function itoa_digits :: "string \<Rightarrow> nat \<Rightarrow> nat \<Rightarrow> string \<times> nat" where
  "itoa_digits out current i =
     (let out1 = out[current := ''0123456789'' ! (i mod 10)]; i1 = i div 10
      in if i1 > 0 then itoa_digits out1 (current + 1) i1 else (out1, current + 1))"
  by pat_completeness auto
termination
  by (relation "measure (\<lambda>(out, current, i). i)") auto

function itoa_reverse :: "string \<Rightarrow> nat \<Rightarrow> nat \<Rightarrow> string" where
  "itoa_reverse out i j =
     (if i < j then itoa_reverse (out[i := out ! j, j := out ! i]) (i + 1) (j - 1) else out)"
  by pat_completeness auto
termination
  by (relation "measure (\<lambda>(out, i, j). j - i)") auto

declare itoa_digits.simps [simp del] itoa_reverse.simps [simp del]

definition itoa :: "string \<Rightarrow> nat \<Rightarrow> u64 \<Rightarrow> (string \<times> u32) result" where
  "itoa out buffer_size i =
     (if buffer_size < 21 then Inl (Invalid_argument ''itoa buffer too small'')
      else let (out1, current) = itoa_digits out 0 (unat i);
               out2 = itoa_reverse out1 0 (current - 1);
               out3 = out2[current := CHR 0x00]
           in Inr (out3, word_of_nat current))"

text \<open>\<open>strlcpy\<close>: \<open>size - 1\<close> wraps for \<open>size = 0\<close>, and the copy leaves the buffer.\<close>

definition strlcpy :: "string \<Rightarrow> string \<Rightarrow> nat \<Rightarrow> (string \<times> nat) result" where
  "strlcpy dst src sz =
     (if sz = 0 \<or> sz > length dst then Inl Undefined_behaviour
      else let copied = take (sz - 1) (src @ replicate (sz - 1 - length src) (CHR 0x00));
               dst1 = blit 0 copied dst
           in Inr (dst1[sz - 1 := CHR 0x00], length src))"

text \<open>\<open>subspan\<close> reads \<open>end - start\<close> bytes without a check.\<close>

definition subspan :: "string \<Rightarrow> nat \<Rightarrow> nat \<Rightarrow> string result" where
  "subspan source start stop =
     (if start \<le> stop \<and> stop \<le> length source then Inr (take (stop - start) (drop start source))
      else Inl Undefined_behaviour)"

definition escape_char :: "char \<Rightarrow> string" where
  "escape_char c =
     (if c = CHR 0x0D then [CHR 0x5C, CHR ''r'']
      else if c = CHR 0x0A then [CHR 0x5C, CHR ''n'']
      else if c = CHR 0x09 then [CHR 0x5C, CHR ''t'']
      else if c = CHR 0x22 then [CHR 0x5C, CHR 0x22]
      else [c])"

definition escape :: "string \<Rightarrow> string" where
  "escape source = foldl (\<lambda>ret c. ret @ escape_char c) [] source"

definition escape_ostream_char :: "char \<Rightarrow> string" where
  "escape_ostream_char c =
     (if c = CHR 0x0D then [CHR 0x5C, CHR ''r'']
      else if c = CHR 0x0A then [CHR 0x5C, CHR ''n'']
      else if c = CHR 0x09 then [CHR 0x5C, CHR ''t'']
      else if c = CHR 0x0B then [CHR 0x5C, CHR ''v'']
      else if c = CHR 0x00 then [CHR 0x5C, CHR ''0'']
      else if c = CHR 0x22 then [CHR 0x5C, CHR 0x22]
      else if c = CHR 0x27 then [CHR 0x5C, CHR 0x27]
      else if c = CHR 0x5C then [CHR 0x5C, CHR 0x5C]
      else [c])"

definition escapeToOstream :: "string \<Rightarrow> string \<Rightarrow> string" where
  "escapeToOstream os view = foldl (\<lambda>os c. os @ escape_ostream_char c) os view"

definition nonEmptyStringOrDefault :: "string \<Rightarrow> string \<Rightarrow> string" where
  "nonEmptyStringOrDefault s default_value = (if s = [] then default_value else s)"

fun removeCharacters_loop :: "string \<Rightarrow> interval list \<Rightarrow> nat \<Rightarrow> string list \<Rightarrow> (nat \<times> string list) result" where
  "removeCharacters_loop str [] pos pieces = Inr (pos, pieces)"
| "removeCharacters_loop str ((left_bound, right_bound) # intervals) pos pieces =
     (if left_bound \<noteq> pos then
        res_bind (substr str pos (Some (left_bound - pos))) (\<lambda>piece.
          removeCharacters_loop str intervals right_bound (pieces @ [piece]))
      else removeCharacters_loop str intervals right_bound pieces)"

text \<open>\<open>absl::StrJoin\<close> is the parameter \<open>str_join\<close>; \<open>StrJoin_contract\<close> is its documented behaviour.\<close>

definition StrJoin_contract :: "(string list \<Rightarrow> string \<Rightarrow> string) \<Rightarrow> bool" where
  "StrJoin_contract str_join \<longleftrightarrow>
     (\<forall>sep. str_join [] sep = [] \<and> (\<forall>p. str_join [p] sep = p)
       \<and> (\<forall>p q ps. str_join (p # q # ps) sep = p @ sep @ str_join (q # ps) sep))"

definition removeCharacters ::
  "(string list \<Rightarrow> string \<Rightarrow> string) \<Rightarrow> string \<Rightarrow> interval list \<Rightarrow> string result" where
  "removeCharacters str_join str remove_characters =
     res_bind (removeCharacters_loop str (iv_toVector remove_characters) 0 []) (\<lambda>(pos, pieces).
       if pos \<noteq> length str
       then res_bind (substr str pos None) (\<lambda>piece. Inr (str_join (pieces @ [piece]) []))
       else Inr (str_join pieces []))"

definition hasEmptySpace :: "string \<Rightarrow> bool" where
  "hasEmptySpace view = (find_first whitespace view \<noteq> None)"

section \<open>Finding and trimming\<close>

lemma find_first_Some: "find_first P xs = Some k \<Longrightarrow> k < length xs \<and> P (xs ! k) \<and> (\<forall>j<k. \<not> P (xs ! j))"
proof (induction xs arbitrary: k)
  case (Cons x xs)
  then show ?case by (auto split: if_splits simp: less_Suc_eq_0_disj nth_Cons')
qed simp

lemma find_first_None: "find_first P xs = None \<longleftrightarrow> (\<forall>x\<in>set xs. \<not> P x)"
  by (induction xs) auto

lemma drop_find_first:
  "(case find_first P xs of Some k \<Rightarrow> drop k xs | None \<Rightarrow> drop (length xs) xs) = dropWhile (\<lambda>x. \<not> P x) xs"
  by (induction xs) (auto split: option.splits)

lemma ltrim_eq: "ltrim s = dropWhile whitespace s"
  using drop_find_first [where P = "\<lambda>c. \<not> whitespace c" and xs = s]
  by (auto simp: ltrim_def remove_prefix_def split: option.splits)

lemma take_find_last:
  "(case find_last P xs of Some k \<Rightarrow> take (length xs - (length xs - k - 1)) xs
     | None \<Rightarrow> take (length xs - length xs) xs) = rev (dropWhile (\<lambda>x. \<not> P x) (rev xs))"
proof (cases "find_first P (rev xs)")
  case None
  then have "\<forall>x\<in>set (rev xs). \<not> P x" by (simp only: find_first_None)
  then have "dropWhile (\<lambda>x. \<not> P x) (rev xs) = []" by simp
  then show ?thesis unfolding find_last_def None by simp
next
  case (Some k)
  then have k: "k < length xs" using find_first_Some [OF Some] by simp
  have "rev (dropWhile (\<lambda>x. \<not> P x) (rev xs)) = take (length xs - k) xs"
  proof -
    have "dropWhile (\<lambda>x. \<not> P x) (rev xs) = drop k (rev xs)"
      using drop_find_first [where P = P and xs = "rev xs"] Some by simp
    then show ?thesis by (simp add: rev_drop)
  qed
  moreover have "length xs - (length xs - (length xs - 1 - k) - 1) = length xs - k" using k by simp
  ultimately show ?thesis using Some by (simp add: find_last_def)
qed

lemma rtrim_eq: "rtrim s = rev (dropWhile whitespace (rev s))"
  using take_find_last [where P = "\<lambda>c. \<not> whitespace c" and xs = s]
  by (auto simp: rtrim_def remove_suffix_def split: option.splits)

lemma dropWhile_split: "\<exists>a. s = a @ dropWhile P s \<and> (\<forall>c\<in>set a. P c)"
  by (intro exI [of _ "takeWhile P s"]) (auto dest: set_takeWhileD)

lemma trim_spec:
  "\<exists>a z. s = a @ trim s @ z \<and> (\<forall>c\<in>set a. whitespace c) \<and> (\<forall>c\<in>set z. whitespace c)
    \<and> (trim s \<noteq> [] \<longrightarrow> \<not> whitespace (hd (trim s)) \<and> \<not> whitespace (last (trim s)))"
proof -
  obtain a where a: "rtrim s = a @ trim s" "\<forall>c\<in>set a. whitespace c"
    using dropWhile_split [of "rtrim s" whitespace] by (auto simp: trim_def ltrim_eq)
  obtain z where "rev s = z @ dropWhile whitespace (rev s)" "\<forall>c\<in>set z. whitespace c"
    using dropWhile_split [of "rev s" whitespace] by auto
  then have z: "s = rtrim s @ rev z" "\<forall>c\<in>set (rev z). whitespace c"
    unfolding rtrim_eq by (metis rev_append rev_rev_ident, simp)
  have "\<not> whitespace (hd (trim s))" "\<not> whitespace (last (trim s))" if ne: "trim s \<noteq> []"
  proof -
    show "\<not> whitespace (hd (trim s))" using ne hd_dropWhile [of whitespace "rtrim s"] by (auto simp: trim_def ltrim_eq)
    have "rtrim s \<noteq> []" using ne a(1) by auto
    then have "dropWhile whitespace (rev s) \<noteq> []" by (simp add: rtrim_eq)
    then have "\<not> whitespace (last (rtrim s))"
      using hd_dropWhile [of whitespace "rev s"] by (simp add: rtrim_eq last_rev)
    moreover have "last (rtrim s) = last (trim s)" using ne a(1) by simp
    ultimately show "\<not> whitespace (last (trim s))" by simp
  qed
  then show ?thesis using a z by (metis append.assoc)
qed

lemma find_sub_Some:
  "find_sub p s = Some k \<Longrightarrow> k \<le> length s \<and> take (length p) (drop k s) = p
     \<and> (\<forall>j<k. take (length p) (drop j s) \<noteq> p)"
proof (induction p s arbitrary: k rule: find_sub.induct)
  case (2 needle x xs)
  then show ?case by (auto split: if_splits simp: less_Suc_eq_0_disj drop_Cons' gr0_conv_Suc)
qed (auto split: if_splits)

lemma find_sub_None: "find_sub p s = None \<Longrightarrow> j \<le> length s \<Longrightarrow> take (length p) (drop j s) \<noteq> p"
proof (induction p s arbitrary: j rule: find_sub.induct)
  case (2 needle x xs)
  then show ?case by (cases j) (auto split: if_splits)
qed (auto split: if_splits)

section \<open>Numbers\<close>

text \<open>The decimal digits of a number, the last one first.\<close>

fun rev_digits :: "nat \<Rightarrow> string" where
  "rev_digits i = ''0123456789'' ! (i mod 10) # (if i div 10 = 0 then [] else rev_digits (i div 10))"

declare rev_digits.simps [simp del]

lemma itoa_digits_eq:
  "current + length (rev_digits i) \<le> length out \<Longrightarrow>
   itoa_digits out current i = (blit current (rev_digits i) out, current + length (rev_digits i))"
proof (induction out current i rule: itoa_digits.induct)
  case (1 out current i)
  let ?d = "''0123456789'' ! (i mod 10)"
  have cur: "current < length out" using "1.prems" by (subst (asm) rev_digits.simps) auto
  show ?case
  proof (cases "i div 10 = 0")
    case True
    then have r: "rev_digits i = [?d]" by (subst rev_digits.simps) simp
    have "itoa_digits out current i = (out[current := ?d], current + 1)"
      using True by (subst itoa_digits.simps) (simp add: Let_def)
    then show ?thesis using cur by (simp add: r blit_def upd_conv_take_nth_drop)
  next
    case False
    have r: "rev_digits i = ?d # rev_digits (i div 10)" using False by (subst rev_digits.simps) simp
    have "itoa_digits (out[current := ?d]) (current + 1) (i div 10) =
        (blit (current + 1) (rev_digits (i div 10)) (out[current := ?d]),
         current + 1 + length (rev_digits (i div 10)))"
      using "1.IH" [OF refl refl] False "1.prems" by (simp add: r)
    moreover have "blit (current + 1) (rev_digits (i div 10)) (out[current := ?d]) = blit current (rev_digits i) out"
      using cur "1.prems" by (simp add: blit_def r take_Suc_conv_app_nth)
    ultimately show ?thesis
      using False by (subst itoa_digits.simps) (simp add: Let_def r)
  qed
qed

lemma itoa_reverse_eq:
  "length A = i \<Longrightarrow> length M = Suc j - i \<Longrightarrow> itoa_reverse (A @ M @ B) i j = A @ rev M @ B"
proof (induction "A @ M @ B" i j arbitrary: A M B rule: itoa_reverse.induct)
  case (1 i j)
  show ?case
  proof (cases "i < j")
    case False
    then have "length M \<le> 1" using "1.prems" by simp
    then have "rev M = M" by (cases M) auto
    then show ?thesis using False by (subst itoa_reverse.simps) simp
  next
    case True
    then have len: "2 \<le> length M" using "1.prems" by simp
    then obtain x M' y where M: "M = x # M' @ [y]"
      by (cases M; cases "tl M" rule: rev_cases) auto
    have j: "j = length A + Suc (length M')" using "1.prems" True by (simp add: M)
    have xs: "A @ M @ B = A @ x # M' @ y # B" by (simp add: M)
    have "(A @ x # M' @ y # B) ! j = y"
      using nth_append_length [of "A @ x # M'" y B] by (simp add: j)
    moreover have "(A @ x # M' @ y # B) ! i = x" using "1.prems"(1) by (metis nth_append_length)
    moreover have "(A @ x # M' @ y # B)[i := y] = A @ y # M' @ y # B"
      using "1.prems"(1) list_update_length [of A x "M' @ y # B" y] by simp
    moreover have "(A @ y # M' @ y # B)[j := x] = A @ y # M' @ x # B"
      using list_update_length [of "A @ y # M'" y B x] by (simp add: j)
    ultimately have swap: "(A @ M @ B)[i := (A @ M @ B) ! j, j := (A @ M @ B) ! i] = (A @ [y]) @ M' @ (x # B)"
      unfolding xs by simp
    have "itoa_reverse ((A @ [y]) @ M' @ (x # B)) (i + 1) (j - 1) = (A @ [y]) @ rev M' @ (x # B)"
      using "1.prems"(1) by (intro "1.hyps" [OF True swap]) (simp_all add: j)
    then show ?thesis using True swap by (subst itoa_reverse.simps) (simp add: M)
  qed
qed

lemma digit_nth:
  assumes "d < 10"
  shows "digit_value (''0123456789'' ! d) = Some d" "\<not> c_isspace (''0123456789'' ! d)"
    "''0123456789'' ! d \<noteq> CHR 0x2D" "''0123456789'' ! d \<noteq> CHR 0x2B"
proof -
  have "d \<in> {0, 1, 2, 3, 4, 5, 6, 7, 8, 9}" using assms by auto
  then show "digit_value (''0123456789'' ! d) = Some d" "\<not> c_isspace (''0123456789'' ! d)"
    "''0123456789'' ! d \<noteq> CHR 0x2D" "''0123456789'' ! d \<noteq> CHR 0x2B"
    by (auto simp: digit_value_def c_isspace_def)
qed

definition decimal_digit :: "char \<Rightarrow> bool" where
  "decimal_digit c \<longleftrightarrow> (\<exists>d<10. c = ''0123456789'' ! d)"

lemma decimal_digitD:
  "decimal_digit c \<Longrightarrow> is_digit_in 10 c" "decimal_digit c \<Longrightarrow> \<not> c_isspace c"
  "decimal_digit c \<Longrightarrow> c \<noteq> CHR 0x2D" "decimal_digit c \<Longrightarrow> c \<noteq> CHR 0x2B"
  using digit_nth by (auto simp: decimal_digit_def is_digit_in_def)

lemma rev_digits_digits: "c \<in> set (rev_digits i) \<Longrightarrow> decimal_digit c"
proof (induction i rule: rev_digits.induct)
  case (1 i)
  then show ?case by (subst (asm) (2) rev_digits.simps)
    (auto simp: decimal_digit_def split: if_splits intro: exI [of _ "i mod 10"])
qed

lemma length_rev_digits: "i < 10 ^ k \<Longrightarrow> 0 < k \<Longrightarrow> length (rev_digits i) \<le> k"
proof (induction k arbitrary: i)
  case (Suc k)
  show ?case
  proof (cases "i div 10 = 0")
    case True
    then show ?thesis by (subst rev_digits.simps) simp
  next
    case False
    have "i div 10 < 10 ^ k" using Suc.prems by (simp add: less_mult_imp_div_less mult.commute)
    moreover from this have "0 < k" using False by (cases k) auto
    ultimately have "length (rev_digits (i div 10)) \<le> k" by (rule Suc.IH)
    then show ?thesis using False by (subst rev_digits.simps) simp
  qed
qed simp

lemma digits_value_snoc: "digits_value b (ds @ [c]) = digits_value b ds * b + the (digit_value c)"
  by (simp add: digits_value_def)

lemma digits_value_rev_digits: "digits_value 10 (rev (rev_digits i)) = i"
proof (induction i rule: rev_digits.induct)
  case (1 i)
  have d: "the (digit_value (''0123456789'' ! (i mod 10))) = i mod 10" using digit_nth(1) [of "i mod 10"] by simp
  show ?case
  proof (cases "i div 10 = 0")
    case True
    then have "rev_digits i = [''0123456789'' ! (i mod 10)]" by (subst rev_digits.simps) simp
    moreover have "i mod 10 = i" using True by simp
    ultimately show ?thesis using d by (simp add: digits_value_def)
  next
    case False
    then have "rev_digits i = ''0123456789'' ! (i mod 10) # rev_digits (i div 10)" by (subst rev_digits.simps) simp
    then show ?thesis using "1.IH" [OF False] d by (simp add: digits_value_snoc)
  qed
qed

lemma rev_digits_ne [simp]: "rev_digits i \<noteq> []"
  by (subst rev_digits.simps) simp

definition decimal :: "nat \<Rightarrow> string" where
  "decimal i = rev (rev_digits i)"

lemma decimal_step: "decimal n = (if n div 10 = 0 then [] else decimal (n div 10)) @ [''0123456789'' ! (n mod 10)]"
  unfolding decimal_def by (subst rev_digits.simps) simp

lemma decimal_digits: "c \<in> set (decimal i) \<Longrightarrow> decimal_digit c" "decimal i \<noteq> []"
  by (auto simp: decimal_def rev_digits_digits)

lemma length_decimal_u64: "length (decimal (unat (i :: u64))) \<le> 20"
proof -
  have "unat i < 10 ^ 20" using unat_less_two_power [of i] by simp
  then show ?thesis unfolding decimal_def length_rev by (intro length_rev_digits) simp_all
qed

lemma itoa_eq:
  assumes "21 \<le> buffer_size" "21 \<le> length out"
  shows "itoa out buffer_size i =
    Inr (decimal (unat i) @ CHR 0x00 # drop (Suc (length (decimal (unat i)))) out,
         word_of_nat (length (decimal (unat i))))"
proof -
  let ?r = "rev_digits (unat i)" let ?n = "length ?r"
  have n: "?n \<le> 20" using length_decimal_u64 [of i] by (simp add: decimal_def)
  have n0: "0 < ?n" by simp
  have digits: "itoa_digits out 0 (unat i) = (?r @ drop ?n out, ?n)"
    using itoa_digits_eq [of 0 "unat i" out] n assms(2) by (simp add: blit_def)
  have "itoa_reverse ([] @ ?r @ drop ?n out) 0 (?n - 1) = [] @ rev ?r @ drop ?n out"
    using n0 by (intro itoa_reverse_eq) simp_all
  then have reverse: "itoa_reverse (?r @ drop ?n out) 0 (?n - 1) = decimal (unat i) @ drop ?n out"
    by (simp add: decimal_def)
  obtain c rest where rest: "drop ?n out = c # rest" using n assms(2) by (cases "drop ?n out") auto
  have "drop (Suc ?n) out = rest" using rest by (metis drop_Suc tl_drop list.sel(3))
  moreover have "(decimal (unat i) @ drop ?n out)[?n := CHR 0x00] = decimal (unat i) @ CHR 0x00 # rest"
    unfolding rest using list_update_length [of "decimal (unat i)" c rest] by (simp add: decimal_def)
  ultimately show ?thesis
    using assms(1) unfolding itoa_def digits Let_def prod.case reverse by (simp add: decimal_def)
qed

text \<open>A string of decimal digits.\<close>

lemma atoull_digits:
  assumes "\<forall>c\<in>set ds. decimal_digit c" "ds \<noteq> []"
  shows "atoull ds out 10 =
    (if digits_value 10 ds < 2 ^ 64 then (True, digits_value 10 ds) else (False, 2 ^ 64 - 1))"
proof -
  have hd: "decimal_digit (hd ds)" using assms by simp
  have dw: "dropWhile c_isspace ds = ds" using assms(2) decimal_digitD(2) [OF hd] by (cases ds) auto
  have tw: "takeWhile (is_digit_in 10) ds = ds" using assms(1) decimal_digitD(1) by (simp add: takeWhile_eq_all_conv)
  have "c_strtoull ds 10 =
      (if digits_value 10 ds \<ge> 2 ^ 64 then (2 ^ 64 - 1, length ds, True) else (digits_value 10 ds, length ds, False))"
    using assms(2) decimal_digitD(3,4) [OF hd] by (simp add: c_strtoull_def Let_def dw tw)
  then show ?thesis using assms(2) by (simp add: atoull_def str_strtoull_def)
qed

section \<open>Escaping\<close>

lemma foldl_append: "foldl (\<lambda>acc c. acc @ f c) acc s = acc @ concat (map f s)"
  by (induction s arbitrary: acc) auto

lemma escape_eq: "escape s = concat (map escape_char s)"
  by (simp add: escape_def foldl_append)

lemma escapeToOstream_eq: "escapeToOstream os s = os @ concat (map escape_ostream_char s)"
  by (simp add: escapeToOstream_def foldl_append)

text \<open>Reading an escaped string back.\<close>

fun unescape :: "string \<Rightarrow> string" where
  "unescape [] = []"
| "unescape [c] = [c]"
| "unescape (c # d # s) =
     (if c = CHR 0x5C then
        (if d = CHR ''r'' then CHR 0x0D else if d = CHR ''n'' then CHR 0x0A
         else if d = CHR ''t'' then CHR 0x09 else if d = CHR ''v'' then CHR 0x0B
         else if d = CHR ''0'' then CHR 0x00 else d) # unescape s
      else c # unescape (d # s))"

lemma unescape_step: "unescape (escape_ostream_char c @ s) = c # unescape s"
  by (cases s) (auto simp: escape_ostream_char_def)

lemma unescape_escape: "unescape (concat (map escape_ostream_char s)) = s"
  by (induction s) (simp_all add: unescape_step)

section \<open>Removing characters\<close>

lemma str_join_empty:
  assumes "StrJoin_contract str_join"
  shows "str_join ps [] = concat ps"
proof (induction ps)
  case (Cons p ps)
  then show ?case using assms by (cases ps) (auto simp: StrJoin_contract_def)
qed (use assms in \<open>simp add: StrJoin_contract_def\<close>)

text \<open>The characters of \<open>s\<close> from position \<open>k\<close> on that an interval set does not cover.\<close>

definition uncovered :: "string \<Rightarrow> interval list \<Rightarrow> nat \<Rightarrow> string" where
  "uncovered s iv k = map ((!) s) (filter (\<lambda>i. \<not> covered iv i) [k..<length s])"

lemma upt_split3: "k \<le> l \<Longrightarrow> l \<le> r \<Longrightarrow> r \<le> n \<Longrightarrow> [k..<n] = [k..<l] @ [l..<r] @ [r..<n]"
  by (metis le_Suc_ex upt_add_eq_append add.assoc)

lemma removeCharacters_loop_eq:
  "iv_wf iv \<Longrightarrow> \<forall>e\<in>set iv. pos \<le> fst e \<and> snd e \<le> length str \<Longrightarrow> pos \<le> length str \<Longrightarrow>
   \<exists>pos' pieces'. removeCharacters_loop str iv pos pieces = Inr (pos', pieces') \<and> pos' \<le> length str
     \<and> concat pieces' @ drop pos' str = concat pieces @ uncovered str iv pos"
proof (induction str iv pos pieces rule: removeCharacters_loop.induct)
  case (1 str pos pieces)
  have "map ((!) str) [pos..<length str] = drop pos str" by (rule nth_equalityI) auto
  then show ?case using "1.prems" by (simp add: uncovered_def)
next
  case (2 str l r iv pos pieces)
  have lr: "l < r" "r \<le> length str" "pos \<le> l" "iv_wf iv" "\<forall>e\<in>set iv. r < fst e"
    using "2.prems" by (auto simp: iv_wf_Cons iv_less_def)
  have after: "covered ((l, r) # iv) i \<longleftrightarrow> covered iv i" if "r \<le> i" for i using that by auto
  have before: "\<not> covered iv i" if "i \<le> r" for i using that lr(5) by (fastforce simp: covered_def)
  have "uncovered str ((l, r) # iv) pos = take (l - pos) (drop pos str) @ uncovered str iv r"
  proof -
    have "[pos..<length str] = [pos..<l] @ [l..<r] @ [r..<length str]" using lr by (intro upt_split3) auto
    moreover have "filter (\<lambda>i. \<not> covered ((l, r) # iv) i) [pos..<l] = [pos..<l]"
      using before lr by (auto simp: filter_id_conv)
    moreover have "filter (\<lambda>i. \<not> covered ((l, r) # iv) i) [l..<r] = []" by (auto simp: filter_empty_conv)
    moreover have "filter (\<lambda>i. \<not> covered ((l, r) # iv) i) [r..<length str] = filter (\<lambda>i. \<not> covered iv i) [r..<length str]"
      using after by (intro filter_cong) auto
    moreover have "map ((!) str) [pos..<l] = take (l - pos) (drop pos str)"
      using lr by (intro nth_equalityI) auto
    ultimately show ?thesis by (simp add: uncovered_def)
  qed
  moreover have "\<forall>e\<in>set iv. r \<le> fst e \<and> snd e \<le> length str" using lr(5) "2.prems"(2) by auto
  ultimately show ?case
    using "2.IH" lr "2.prems"(3) by (cases "l = pos") (auto simp: substr_def)
qed

lemma removeCharacters_eq:
  assumes join: "StrJoin_contract str_join" and wf: "iv_wf iv" and inside: "\<forall>e\<in>set iv. snd e \<le> length str"
  shows "removeCharacters str_join str iv =
    Inr (map ((!) str) (filter (\<lambda>i. \<not> covered iv i) [0..<length str]))"
proof -
  have "\<forall>e\<in>set iv. 0 \<le> fst e \<and> snd e \<le> length str" using inside by simp
  from removeCharacters_loop_eq [OF wf this, of "[]"] obtain pos' pieces' where
    "removeCharacters_loop str iv 0 [] = Inr (pos', pieces')" "pos' \<le> length str"
    "concat pieces' @ drop pos' str = uncovered str iv 0" by auto
  then show ?thesis
    by (auto simp: removeCharacters_def iv_toVector_def substr_def str_join_empty [OF join] uncovered_def)
qed

end
