(* ===== verification/CommonUtil.thy ===== *)
theory CommonUtil
  imports StringUtil
begin

text \<open>
  The remaining utilities of \<open>common/common/Utility.h\<close> and \<open>.cpp\<close>: rounding, primes, weighted
  choice, the prefix trie and the case-insensitive hash and comparison (with \<open>Hash.h\<close>). The word
  types of the code are kept; a loop that leaves its function without a \<open>return\<close> is
  \<open>Undefined_behaviour\<close>.
\<close>

section \<open>Definitions\<close>

text \<open>\<open>IntUtil::roundUpToMultiple\<close>\<close>

definition roundUpToMultiple :: "u64 \<Rightarrow> u32 \<Rightarrow> u64 result" where
  "roundUpToMultiple val multiple =
     (if multiple = 0 then Inl Undefined_behaviour
      else Inr ((val + ucast multiple - 1) div ucast multiple * ucast multiple))"

text \<open>\<open>sqrt(x)\<close> converted to \<open>uint32_t\<close>: exact for 32-bit \<open>x\<close> in double precision.\<close>

function isqrt_from :: "nat \<Rightarrow> nat \<Rightarrow> nat" where
  "isqrt_from n k = (if (k + 1) * (k + 1) \<le> n then isqrt_from n (k + 1) else k)"
  by pat_completeness auto
termination
  by (relation "measure (\<lambda>(n, k). Suc n - k)") (auto intro: diff_less_mono2 le_less_trans)

definition isqrt :: "nat \<Rightarrow> nat" where
  "isqrt n = isqrt_from n 0"

function no_factor_from :: "nat \<Rightarrow> nat \<Rightarrow> nat \<Rightarrow> bool" where
  "no_factor_from x limit factor =
     (if factor \<le> limit then (if x mod factor = 0 then False else no_factor_from x limit (factor + 2))
      else True)"
  by pat_completeness auto
termination
  by (relation "measure (\<lambda>(x, limit, factor). Suc limit - factor)") auto

declare isqrt_from.simps [simp del] no_factor_from.simps [simp del]

definition isPrime :: "u32 \<Rightarrow> bool" where
  "isPrime x =
     (if x \<noteq> 0 \<and> x < 4 then True
      else if x AND 1 = 0 then False
      else no_factor_from (unat x) (isqrt (unat x)) 3)"

partial_function (option) findPrime_loop :: "u32 \<Rightarrow> u32 option" where
  "findPrime_loop x = (if isPrime x then Some x else findPrime_loop (x + 2))"

definition findPrimeLargerThan :: "u32 \<Rightarrow> u32 option" where
  "findPrimeLargerThan x = findPrime_loop (x + (x mod 2 + 1))"

text \<open>\<open>WeightedClusterUtil::pickCluster\<close> over the weights; the result is an index.\<close>

fun pickCluster_loop :: "u64 list \<Rightarrow> nat \<Rightarrow> u64 \<Rightarrow> u64 \<Rightarrow> nat result" where
  "pickCluster_loop [] i begn selected_value = Inl Undefined_behaviour"
| "pickCluster_loop (weight # weights) i begn selected_value =
     (let endv = begn + weight in
      if selected_value \<ge> begn \<and> selected_value < endv then Inr i
      else pickCluster_loop weights (i + 1) endv selected_value)"

definition pickCluster :: "u64 list \<Rightarrow> u64 \<Rightarrow> u64 \<Rightarrow> bool \<Rightarrow> nat result" where
  "pickCluster weighted_clusters total_cluster_weight random_value ignore_overflow =
     (if total_cluster_weight = 0 then Inl Undefined_behaviour
      else pickCluster_loop weighted_clusters 0 0 (random_value mod total_cluster_weight))"

text \<open>\<open>TrieEntry\<close> and \<open>TrieLookupTable\<close>; a null value is \<open>None\<close>.\<close>

datatype 'v trie = Trie (trie_value: "'v option") (trie_entries: "char \<Rightarrow> 'v trie option")

definition trie_empty :: "'v trie" where
  "trie_empty = Trie None (\<lambda>_. None)"

fun trie_add :: "string \<Rightarrow> 'v option \<Rightarrow> bool \<Rightarrow> 'v trie \<Rightarrow> bool \<times> 'v trie" where
  "trie_add [] value overwrite_existing (Trie v es) =
     (if v \<noteq> None \<and> \<not> overwrite_existing then (False, Trie v es) else (True, Trie value es))"
| "trie_add (c # key) value overwrite_existing (Trie v es) =
     (let child = (case es c of None \<Rightarrow> trie_empty | Some t \<Rightarrow> t);
          (added, child1) = trie_add key value overwrite_existing child
      in (added, Trie v (es(c := Some child1))))"

fun trie_find :: "'v trie \<Rightarrow> string \<Rightarrow> 'v option" where
  "trie_find t [] = trie_value t"
| "trie_find t (c # key) = (case trie_entries t c of None \<Rightarrow> None | Some t1 \<Rightarrow> trie_find t1 key)"

text \<open>\<open>findLongestPrefix\<close>: \<open>result\<close> is the value of the last entry passed that has one.\<close>

fun longest_prefix_loop :: "'v trie \<Rightarrow> string \<Rightarrow> 'v option \<Rightarrow> 'v option" where
  "longest_prefix_loop current [] result = trie_value current"
| "longest_prefix_loop current (c # key) result =
     (let result1 = (if trie_value current \<noteq> None then trie_value current else result) in
      case trie_entries current c of
        None \<Rightarrow> result1
      | Some next_entry \<Rightarrow> longest_prefix_loop next_entry key result1)"

definition findLongestPrefix :: "'v trie \<Rightarrow> string \<Rightarrow> 'v option" where
  "findLongestPrefix t key = longest_prefix_loop t key None"

text \<open>
  \<open>HashUtil::djb2CaseInsensitiveHash\<close> over \<open>absl::ascii_tolower\<close>, and the comparison
  \<open>CaseInsensitiveCompare\<close>, which is \<open>absl::EqualsIgnoreCase\<close>. Both are parameters;
  \<open>ignore_case_contract\<close> is what \<open>absl\<close> documents: equality after lower-casing.
\<close>

definition djb2CaseInsensitiveHash :: "(char \<Rightarrow> char) \<Rightarrow> string \<Rightarrow> u64" where
  "djb2CaseInsensitiveHash ascii_tolower input =
     foldl (\<lambda>hash c. (push_bit 5 hash + hash) + word_of_nat (of_char (ascii_tolower c))) 5381 input"

definition CaseInsensitiveCompare :: "(string \<Rightarrow> string \<Rightarrow> bool) \<Rightarrow> string \<Rightarrow> string \<Rightarrow> bool" where
  "CaseInsensitiveCompare equals_ignore_case lhs rhs = equals_ignore_case lhs rhs"

definition CaseInsensitiveHash :: "(char \<Rightarrow> char) \<Rightarrow> string \<Rightarrow> u64" where
  "CaseInsensitiveHash ascii_tolower key = djb2CaseInsensitiveHash ascii_tolower key"

definition ignore_case_contract :: "(char \<Rightarrow> char) \<Rightarrow> (string \<Rightarrow> string \<Rightarrow> bool) \<Rightarrow> bool" where
  "ignore_case_contract ascii_tolower equals_ignore_case \<longleftrightarrow>
     (\<forall>a b. equals_ignore_case a b = (map ascii_tolower a = map ascii_tolower b))"

text \<open>\<open>xxHash64\<close> of one and of several strings, and the functors of \<open>SharedStringSet\<close> over it; \<open>XXH64\<close> is a parameter.\<close>

definition xxHash64 :: "(string \<Rightarrow> u64 \<Rightarrow> u64) \<Rightarrow> string \<Rightarrow> u64 \<Rightarrow> u64" where
  "xxHash64 XXH64 input seed = XXH64 input seed"

fun xxHash64_span :: "(string \<Rightarrow> u64 \<Rightarrow> u64) \<Rightarrow> string list \<Rightarrow> u64 \<Rightarrow> u64" where
  "xxHash64_span XXH64 [] seed = seed"
| "xxHash64_span XXH64 (i # input) seed = xxHash64_span XXH64 input (XXH64 i seed)"

definition HeterogeneousStringHash :: "(string \<Rightarrow> u64 \<Rightarrow> u64) \<Rightarrow> string \<Rightarrow> u64" where
  "HeterogeneousStringHash XXH64 a = xxHash64 XXH64 a 0"

definition HeterogeneousStringEqual :: "string \<Rightarrow> string \<Rightarrow> bool" where
  "HeterogeneousStringEqual a b = (a = b)"

lemma xxHash64_span_append: "xxHash64_span XXH64 (xs @ ys) seed = xxHash64_span XXH64 ys (xxHash64_span XXH64 xs seed)"
  by (induction XXH64 xs seed rule: xxHash64_span.induct) simp_all

lemma heterogeneous_hash_equal:
  "HeterogeneousStringEqual a b \<Longrightarrow> HeterogeneousStringHash XXH64 a = HeterogeneousStringHash XXH64 b"
  by (simp add: HeterogeneousStringEqual_def)

text \<open>\<open>MurmurHash::murmurHash2\<close>; a key is shorter than \<open>2 ^ 31\<close> bytes (\<open>int len_aligned\<close>).\<close>

definition shiftMix :: "u64 \<Rightarrow> u64" where
  "shiftMix v = v XOR drop_bit 47 v"

definition loadBytes :: "byte list \<Rightarrow> u64" where
  "loadBytes p = foldr (\<lambda>b result. push_bit 8 result + ucast b) p 0"

definition unalignedLoad :: "byte list \<Rightarrow> u64" where
  "unalignedLoad p = loadBytes (take 8 p)"

fun murmur_blocks :: "u64 \<Rightarrow> nat \<Rightarrow> byte list \<Rightarrow> u64 \<Rightarrow> u64" where
  "murmur_blocks mul 0 p hash = hash"
| "murmur_blocks mul (Suc n) p hash =
     (let data = shiftMix (unalignedLoad p * mul) * mul
      in murmur_blocks mul n (drop 8 p) ((hash XOR data) * mul))"

definition murmurHash2 :: "byte list \<Rightarrow> u64 \<Rightarrow> u64" where
  "murmurHash2 key seed =
     (let mul = 0xc6a4a7935bd1e995;
          len = length key;
          blocks = len div 8;
          hash1 = murmur_blocks mul blocks key (seed XOR (word_of_nat len * mul));
          hash2 = (if len mod 8 \<noteq> 0 then (hash1 XOR loadBytes (drop (8 * blocks) key)) * mul else hash1)
      in shiftMix (shiftMix hash2 * mul))"

section \<open>Primes\<close>

lemma isqrt_from_bounds:
  "k * k \<le> n \<Longrightarrow> isqrt_from n k * isqrt_from n k \<le> n \<and> n < (isqrt_from n k + 1) * (isqrt_from n k + 1)"
proof (induction n k rule: isqrt_from.induct)
  case (1 n k)
  then show ?case by (cases "(k + 1) * (k + 1) \<le> n"; subst (1 2 3 4) isqrt_from.simps) auto
qed

lemma isqrt_bounds: "isqrt n * isqrt n \<le> n" "n < (isqrt n + 1) * (isqrt n + 1)"
  using isqrt_from_bounds [of 0 n] by (simp_all add: isqrt_def)

lemma no_factor_from_iff:
  "odd factor \<Longrightarrow> no_factor_from x limit factor \<longleftrightarrow> (\<forall>f. odd f \<and> factor \<le> f \<and> f \<le> limit \<longrightarrow> \<not> f dvd x)"
proof (induction x limit factor rule: no_factor_from.induct)
  case (1 x limit factor)
  show ?case
  proof (cases "factor \<le> limit")
    case False
    then show ?thesis by (subst no_factor_from.simps) auto
  next
    case le: True
    show ?thesis
    proof (cases "x mod factor = 0")
      case True
      then have "factor dvd x" by (simp add: dvd_eq_mod_eq_0)
      then show ?thesis using le True "1.prems" by (subst no_factor_from.simps) auto
    next
      case False
      then have nd: "\<not> factor dvd x" by (simp add: dvd_eq_mod_eq_0)
      have split: "odd f \<and> factor \<le> f \<longleftrightarrow> f = factor \<or> (odd f \<and> factor + 2 \<le> f)" for f
        using "1.prems" by presburger
      have "no_factor_from x limit factor = no_factor_from x limit (factor + 2)"
        using le False by (subst no_factor_from.simps) simp
      also have "\<dots> \<longleftrightarrow> (\<forall>f. odd f \<and> factor + 2 \<le> f \<and> f \<le> limit \<longrightarrow> \<not> f dvd x)"
        using "1.IH" [OF le False] "1.prems" by simp
      finally show ?thesis using nd split by metis
    qed
  qed
qed

definition is_prime :: "nat \<Rightarrow> bool" where
  "is_prime p \<longleftrightarrow> 1 < p \<and> (\<forall>d. d dvd p \<longrightarrow> d = 1 \<or> d = p)"

lemma prime_even: "is_prime p \<Longrightarrow> even p \<Longrightarrow> p = 2"
  unfolding is_prime_def by (auto dest: spec [of _ 2])

lemma composite_small_factor:
  fixes x d :: nat
  assumes "d dvd x" "d \<noteq> 1" "d \<noteq> x" "0 < x"
  shows "\<exists>f. f dvd x \<and> 1 < f \<and> f * f \<le> x"
proof -
  obtain e where x: "x = d * e" using assms(1) by (rule dvdE)
  have d: "1 < d" using assms by (cases d) auto
  have e: "1 < e" using assms x by (cases e) auto
  show ?thesis
  proof (cases "d \<le> e")
    case True
    then show ?thesis using d x by (intro exI [of _ d]) simp
  next
    case False
    then show ?thesis using e x by (intro exI [of _ e]) simp
  qed
qed

lemma even_word_iff: "x AND 1 = 0 \<longleftrightarrow> even (unat (x :: u32))"
proof -
  have "unat (x AND 1) = unat x mod 2"
    unfolding and_one_eq unat_mod by simp
  then show ?thesis by (simp add: word_unat_eq_iff even_iff_mod_2_eq_zero)
qed

lemma isqrt_less: "4 \<le> n \<Longrightarrow> isqrt n < n"
proof (rule ccontr)
  assume "4 \<le> n" "\<not> isqrt n < n"
  then have "n * n \<le> isqrt n * isqrt n" by (intro mult_le_mono) simp_all
  then have "n * n \<le> n" using isqrt_bounds(1) [of n] by (rule le_trans)
  then show False using \<open>4 \<le> n\<close> by simp
qed

lemma no_small_odd_factor:
  assumes "4 \<le> n" "odd n"
  shows "(\<forall>f. odd f \<and> 3 \<le> f \<and> f \<le> isqrt n \<longrightarrow> \<not> f dvd n) \<longleftrightarrow> is_prime n"
proof
  assume none: "\<forall>f. odd f \<and> 3 \<le> f \<and> f \<le> isqrt n \<longrightarrow> \<not> f dvd n"
  have "d = 1 \<or> d = n" if dv: "d dvd n" for d
  proof (rule ccontr)
    assume "\<not> (d = 1 \<or> d = n)"
    then obtain f where f: "f dvd n" "1 < f" "f * f \<le> n"
      using composite_small_factor [OF dv] assms(1) by auto
    have "odd f" using f(1) assms(2) by (auto elim: dvdE)
    then have "3 \<le> f" using f(2) by presburger
    moreover have "f \<le> isqrt n"
    proof (rule ccontr)
      assume "\<not> f \<le> isqrt n"
      then have "(isqrt n + 1) * (isqrt n + 1) \<le> f * f" by (intro mult_le_mono) simp_all
      then show False using f(3) isqrt_bounds(2) [of n] by linarith
    qed
    ultimately show False using none \<open>odd f\<close> f(1) by blast
  qed
  then show "is_prime n" using assms(1) by (simp add: is_prime_def)
next
  assume "is_prime n"
  then show "\<forall>f. odd f \<and> 3 \<le> f \<and> f \<le> isqrt n \<longrightarrow> \<not> f dvd n"
    using isqrt_less [OF assms(1)] by (fastforce simp: is_prime_def)
qed

lemma small_primes: "is_prime 2" "is_prime 3"
proof -
  have "d = 1 \<or> d = 2" if "d dvd 2" for d :: nat
    using dvd_imp_le [OF that] that by (cases d) (auto simp: le_Suc_eq)
  then show "is_prime 2" by (simp add: is_prime_def)
  have "d = 1 \<or> d = 3" if "d dvd 3" for d :: nat
  proof -
    have "d \<le> 3" using dvd_imp_le [OF that] by simp
    moreover have "d \<noteq> 0" using that by (cases d) auto
    moreover have "d \<noteq> 2" using that by auto
    ultimately show ?thesis by linarith
  qed
  then show "is_prime 3" by (simp add: is_prime_def)
qed

lemma isPrime_iff: "isPrime x \<longleftrightarrow> x = 1 \<or> is_prime (unat x)"
proof -
  have lt4: "x < 4 \<longleftrightarrow> unat x < 4" by (simp add: word_less_nat_alt)
  have z: "x = 0 \<longleftrightarrow> unat x = 0" using word_unat_eq_iff [of x 0] by simp
  have one: "x = 1 \<longleftrightarrow> unat x = 1" using word_unat_eq_iff [of x 1] by simp
  show ?thesis
  proof (cases "unat x < 4")
    case True
    then consider "unat x = 0" | "unat x = 1" | "unat x = 2" | "unat x = 3" by linarith
    then show ?thesis
      using small_primes lt4 z one by cases (auto simp: isPrime_def is_prime_def)
  next
    case False
    then have n: "4 \<le> unat x" by simp
    have ip: "isPrime x \<longleftrightarrow> odd (unat x) \<and> no_factor_from (unat x) (isqrt (unat x)) 3"
      using False lt4 by (auto simp: isPrime_def even_word_iff)
    show ?thesis
    proof (cases "odd (unat x)")
      case True
      then show ?thesis
        using ip no_factor_from_iff [of 3] no_small_odd_factor [OF n True] one n by simp
    next
      case False
      then have "\<not> is_prime (unat x)" using n by (auto simp: is_prime_def)
      then show ?thesis using False ip one n by simp
    qed
  qed
qed

definition least_prime_from :: "nat \<Rightarrow> u32 \<Rightarrow> bool" where
  "least_prime_from n p \<longleftrightarrow>
     (is_prime (unat p) \<and> n \<le> unat p \<and> (\<forall>q. is_prime q \<and> n \<le> q \<longrightarrow> unat p \<le> q))
   \<or> (p = 1 \<and> (\<forall>q. is_prime q \<and> n \<le> q \<longrightarrow> 2 ^ 32 \<le> q))"

lemma findPrime_loop_spec:
  "odd (unat x) \<Longrightarrow> 3 \<le> unat x \<Longrightarrow> \<exists>p. findPrime_loop x = Some p \<and> least_prime_from (unat x) p"
proof (induction "2 ^ 32 - unat x" arbitrary: x rule: less_induct)
  case less
  have lt: "unat x < 2 ^ 32" using unat_less_two_power [of x] by simp
  show ?case
  proof (cases "isPrime x")
    case True
    then have "findPrime_loop x = Some x" by (subst findPrime_loop.simps) simp
    moreover have "is_prime (unat x)" using True less.prems by (auto simp: isPrime_iff)
    ultimately show ?thesis by (auto simp: least_prime_from_def)
  next
    case False
    then have step: "findPrime_loop x = findPrime_loop (x + 2)" by (subst findPrime_loop.simps) simp
    have np: "\<not> is_prime (unat x)" using False by (simp add: isPrime_iff)
    have np1: "\<not> is_prime (unat x + 1)"
    proof
      assume "is_prime (unat x + 1)"
      moreover have "even (unat x + 1)" using less.prems by simp
      ultimately have "unat x + 1 = 2" by (rule prime_even)
      then show False using less.prems by simp
    qed
    have up: "unat x \<le> q \<longleftrightarrow> unat x + 2 \<le> q" if "is_prime q" for q
    proof -
      have "q \<noteq> unat x" "q \<noteq> unat x + 1" using that np np1 by auto
      then show ?thesis by linarith
    qed
    show ?thesis
    proof (cases "unat x + 2 < 2 ^ 32")
      case True
      then have u: "unat (x + 2) = unat x + 2" by (simp add: unat_word_ariths)
      have "2 ^ 32 - unat (x + 2) < 2 ^ 32 - unat x" using lt u by linarith
      from less.hyps [OF this] u less.prems obtain p where
        "findPrime_loop (x + 2) = Some p" "least_prime_from (unat x + 2) p" by auto
      then show ?thesis using up unfolding step least_prime_from_def by auto
    next
      case False
      have "unat x + 2 \<noteq> 2 ^ 32"
      proof
        assume eq: "unat x + 2 = 2 ^ 32"
        have "even (unat x + 2)" unfolding eq by simp
        then show False using less.prems by simp
      qed
      then have n: "unat x = 2 ^ 32 - 1" using False lt by linarith
      then have eq: "x + 2 = 1" by (simp add: word_unat_eq_iff unat_word_ariths)
      have "findPrime_loop (x + 2) = Some 1" unfolding eq by (subst findPrime_loop.simps) (simp add: isPrime_def)
      moreover have "2 ^ 32 \<le> q" if "is_prime q" "unat x \<le> q" for q
        using up [OF that(1)] that(2) n by simp
      ultimately show ?thesis unfolding step least_prime_from_def by auto
    qed
  qed
qed

lemma findPrimeLargerThan_spec:
  assumes "2 \<le> unat x"
  shows "\<exists>p. findPrimeLargerThan x = Some p \<and> least_prime_from (unat x + 1) p"
proof -
  have lt: "unat x < 2 ^ 32" using unat_less_two_power [of x] by simp
  have m: "unat (x mod 2 + 1) = unat x mod 2 + 1"
  proof -
    have "unat (x mod 2) = unat x mod 2" by (simp add: unat_mod)
    then show ?thesis by (simp add: unat_word_ariths)
  qed
  let ?s = "x + (x mod 2 + 1)"
  show ?thesis
  proof (cases "unat x + (unat x mod 2 + 1) < 2 ^ 32")
    case True
    then have u: "unat ?s = unat x + (unat x mod 2 + 1)" using m by (simp add: unat_word_ariths)
    have "odd (unat ?s)" "3 \<le> unat ?s" unfolding u using assms by presburger+
    from findPrime_loop_spec [OF this] obtain p where
      p: "findPrimeLargerThan x = Some p" "least_prime_from (unat ?s) p"
      by (auto simp: findPrimeLargerThan_def)
    have "unat x + 1 \<le> q \<longleftrightarrow> unat ?s \<le> q" if "is_prime q" for q
    proof (cases "even (unat x)")
      case False
      have "q \<noteq> unat x + 1"
      proof
        assume q: "q = unat x + 1"
        then have "even q" using False by simp
        with that have "q = 2" by (rule prime_even)
        then show False using q assms by simp
      qed
      then show ?thesis using False unfolding u by (simp add: odd_iff_mod_2_eq_one) linarith
    qed (simp add: u)
    moreover have "unat x + 1 \<le> unat ?s" unfolding u by simp
    ultimately show ?thesis using p unfolding least_prime_from_def by auto
  next
    case False
    have "unat x mod 2 < 2" by simp
    moreover have "unat x \<noteq> 2 ^ 32 - 2"
    proof
      assume eq: "unat x = 2 ^ 32 - 2"
      show False using False unfolding eq by simp
    qed
    ultimately have n: "unat x = 2 ^ 32 - 1" using lt False by linarith
    then have eq: "?s = 1" by (simp add: word_unat_eq_iff unat_word_ariths m)
    have "findPrime_loop ?s = Some 1" unfolding eq by (subst findPrime_loop.simps) (simp add: isPrime_def)
    then show ?thesis using n by (auto simp: findPrimeLargerThan_def least_prime_from_def)
  qed
qed

section \<open>Weighted choice\<close>

definition weight_sum :: "u64 list \<Rightarrow> nat" where
  "weight_sum ws = sum_list (map unat ws)"

lemma weight_sum_simps [simp]:
  "weight_sum [] = 0" "weight_sum (w # ws) = unat w + weight_sum ws"
  by (simp_all add: weight_sum_def)

lemma pickCluster_loop_spec:
  "unat b + weight_sum ws < 2 ^ 64 \<Longrightarrow> unat b \<le> unat s \<Longrightarrow>
   (if unat s < unat b + weight_sum ws
    then \<exists>j<length ws. pickCluster_loop ws i b s = Inr (i + j)
      \<and> unat b + weight_sum (take j ws) \<le> unat s \<and> unat s < unat b + weight_sum (take (Suc j) ws)
    else pickCluster_loop ws i b s = Inl Undefined_behaviour)"
proof (induction ws i b s rule: pickCluster_loop.induct)
  case (1 i b s)
  then show ?case by simp
next
  case (2 w ws i b s)
  have e: "unat (b + w) = unat b + unat w" using "2.prems"(1) by (simp add: unat_word_ariths)
  show ?case
  proof (cases "unat s < unat b + unat w")
    case True
    then have "pickCluster_loop (w # ws) i b s = Inr (i + 0)"
      using "2.prems"(2) e by (simp add: Let_def word_le_nat_alt word_less_nat_alt)
    then show ?thesis using True "2.prems"(2) by (auto intro: exI [of _ 0])
  next
    case False
    then have "\<not> (b \<le> s \<and> s < b + w)" using e by (simp add: word_less_nat_alt)
    note IH = "2.IH" [OF refl this]
    have eq: "pickCluster_loop (w # ws) i b s = pickCluster_loop ws (i + 1) (b + w) s"
      using False e by (simp add: Let_def word_less_nat_alt)
    have "unat (b + w) + weight_sum ws < 2 ^ 64" "unat (b + w) \<le> unat s"
      using "2.prems" False e by simp_all
    note IH = IH [OF this]
    show ?thesis
    proof (cases "unat s < unat b + weight_sum (w # ws)")
      case True
      then obtain j where "j < length ws" "pickCluster_loop ws (i + 1) (b + w) s = Inr (i + 1 + j)"
        "unat b + unat w + weight_sum (take j ws) \<le> unat s"
        "unat s < unat b + unat w + weight_sum (take (Suc j) ws)"
        using IH unfolding e by (auto simp: add.assoc)
      then show ?thesis
        using True eq by (auto simp: add.assoc intro!: exI [of _ "Suc j"])
    next
      case False
      then show ?thesis using IH eq unfolding e by (simp add: add.assoc)
    qed
  qed
qed

section \<open>The trie as a map\<close>

lemma trie_find_empty [simp]: "trie_find trie_empty key = None"
  by (cases key) (simp_all add: trie_empty_def)

lemma trie_add_result: "fst (trie_add key val flag t) \<longleftrightarrow> flag \<or> trie_find t key = None"
proof (induction key val flag t rule: trie_add.induct)
  case (2 c key vl flag x es)
  then show ?case by (auto simp: Let_def case_prod_beta split: option.splits)
qed auto

lemma trie_find_add:
  "trie_find (snd (trie_add key val flag t)) key' =
    (if key' = key \<and> (flag \<or> trie_find t key = None) then val else trie_find t key')"
proof (induction key val flag t arbitrary: key' rule: trie_add.induct)
  case (1 vl flag x es)
  then show ?case by (cases key') auto
next
  case (2 c key vl flag x es)
  show ?case
  proof (cases key')
    case Nil
    then show ?thesis by (simp add: Let_def case_prod_beta)
  next
    case (Cons d ds)
    then show ?thesis
      using "2.IH" [OF refl, of ds] by (auto simp: Let_def case_prod_beta split: option.splits)
  qed
qed

text \<open>A table that is filled and looked up: with \<open>overwrite\<close> the last value of a key stays, without it the first.\<close>

definition add_each :: "('k \<Rightarrow> 'v option \<Rightarrow> bool \<Rightarrow> 't \<Rightarrow> bool \<times> 't) \<Rightarrow> bool \<Rightarrow> ('k \<times> 'v) list \<Rightarrow> 't \<Rightarrow> 't" where
  "add_each add overwrite kvs t = fold (\<lambda>(k, v) t. snd (add k (Some v) overwrite t)) kvs t"

locale lookup_table =
  fixes empty_table :: 't and find :: "'t \<Rightarrow> 'k \<Rightarrow> 'v option" and add :: "'k \<Rightarrow> 'v option \<Rightarrow> bool \<Rightarrow> 't \<Rightarrow> bool \<times> 't"
  assumes find_empty: "find empty_table k = None"
    and find_add: "find (snd (add k v overwrite t)) k' = (if k' = k \<and> (overwrite \<or> find t k = None) then v else find t k')"
    and add_result: "fst (add k v overwrite t) \<longleftrightarrow> overwrite \<or> find t k = None"
begin

lemma find_add_each:
  "find (add_each add True kvs t) k = (case map_of (rev kvs) k of None \<Rightarrow> find t k | Some v \<Rightarrow> Some v)"
  "find (add_each add False kvs t) k = (case find t k of None \<Rightarrow> map_of kvs k | Some v \<Rightarrow> Some v)"
  by (induction kvs arbitrary: t) (auto simp: add_each_def find_add map_add_def split: option.splits)

lemma table_of_list:
  "find (add_each add overwrite kvs empty_table) k = (if overwrite then map_of (rev kvs) k else map_of kvs k)"
  by (cases overwrite) (simp_all add: find_add_each find_empty split: option.splits)

end

interpretation tries: lookup_table trie_empty trie_find trie_add
  by unfold_locales (simp_all add: trie_find_add trie_add_result)

text \<open>Whether all entries along a key exist, and the value of the longest prefix that has one.\<close>

fun has_path :: "'v trie \<Rightarrow> string \<Rightarrow> bool" where
  "has_path t [] = True"
| "has_path t (c # key) = (case trie_entries t c of None \<Rightarrow> False | Some t1 \<Rightarrow> has_path t1 key)"

definition longest_match :: "'v trie \<Rightarrow> string \<Rightarrow> 'v \<Rightarrow> bool" where
  "longest_match t key v \<longleftrightarrow>
     (\<exists>n\<le>length key. trie_find t (take n key) = Some v
       \<and> (\<forall>m. n < m \<and> m \<le> length key \<longrightarrow> trie_find t (take m key) = None))"

lemma longest_match_Nil: "longest_match t [] v \<longleftrightarrow> trie_value t = Some v"
  by (simp add: longest_match_def)

lemma longest_match_Cons:
  "longest_match t (c # key) v \<longleftrightarrow>
     (case trie_entries t c of
        None \<Rightarrow> trie_value t = Some v
      | Some t1 \<Rightarrow> longest_match t1 key v \<or> ((\<nexists>w. longest_match t1 key w) \<and> trie_value t = Some v))"
proof (cases "trie_entries t c")
  case None
  then have find: "trie_find t (take m (c # key)) = (if m = 0 then trie_value t else None)" for m by (cases m) auto
  show ?thesis unfolding longest_match_def find using None by (auto intro: exI [of _ 0])
next
  case (Some t1)
  then have find: "trie_find t (take m (c # key)) = (if m = 0 then trie_value t else trie_find t1 (take (m - 1) key))" for m
    by (cases m) auto
  have suc: "longest_match t (c # key) v \<longleftrightarrow> longest_match t1 key v
      \<or> (trie_value t = Some v \<and> (\<forall>m\<le>length key. trie_find t1 (take m key) = None))"
  proof -
    have "(\<exists>n\<le>length (c # key). trie_find t (take n (c # key)) = Some v
        \<and> (\<forall>m. n < m \<and> m \<le> length (c # key) \<longrightarrow> trie_find t (take m (c # key)) = None)) \<longleftrightarrow>
      (trie_value t = Some v \<and> (\<forall>m\<le>length key. trie_find t1 (take m key) = None))
      \<or> (\<exists>n\<le>length key. trie_find t1 (take n key) = Some v
        \<and> (\<forall>m. n < m \<and> m \<le> length key \<longrightarrow> trie_find t1 (take m key) = None))"
      (is "?L \<longleftrightarrow> ?A \<or> ?B")
    proof
      assume ?L
      then obtain n where n: "n \<le> Suc (length key)" "trie_find t (take n (c # key)) = Some v"
        "\<And>m. n < m \<Longrightarrow> m \<le> Suc (length key) \<Longrightarrow> trie_find t (take m (c # key)) = None" by auto
      show "?A \<or> ?B"
      proof (cases n)
        case 0
        then have ?A using n(2) n(3) [of "Suc _"] by (auto simp: find Some)
        then show ?thesis ..
      next
        case (Suc k)
        then have ?B using n(1,2) n(3) [of "Suc _"] by (auto simp: find Some intro!: exI [of _ k])
        then show ?thesis ..
      qed
    next
      assume "?A \<or> ?B"
      then show ?L
      proof
        assume ?A
        then show ?L by (intro exI [of _ 0]) (auto simp: find Some)
      next
        assume ?B
        then obtain n where "n \<le> length key" "trie_find t1 (take n key) = Some v"
          "\<And>m. n < m \<Longrightarrow> m \<le> length key \<Longrightarrow> trie_find t1 (take m key) = None" by auto
        then show ?L by (intro exI [of _ "Suc n"]) (auto simp: find Some)
      qed
    qed
    then show ?thesis unfolding longest_match_def by auto
  qed
  have none: "(\<nexists>w. longest_match t1 key w) \<longleftrightarrow> (\<forall>m\<le>length key. trie_find t1 (take m key) = None)"
  proof
    assume no: "\<nexists>w. longest_match t1 key w"
    show "\<forall>m\<le>length key. trie_find t1 (take m key) = None"
    proof (rule ccontr)
      assume "\<not> (\<forall>m\<le>length key. trie_find t1 (take m key) = None)"
      then obtain m where m: "m \<le> length key" "trie_find t1 (take m key) \<noteq> None" by auto
      define P where "P k \<longleftrightarrow> k \<le> length key \<and> trie_find t1 (take k key) \<noteq> None" for k
      have "P (Greatest P)" "\<And>k. P k \<Longrightarrow> k \<le> Greatest P"
        using GreatestI_nat [of P m "length key"] Greatest_le_nat [of P _ "length key"] m by (auto simp: P_def)
      then obtain w where "trie_find t1 (take (Greatest P) key) = Some w" "Greatest P \<le> length key"
        "\<And>k. Greatest P < k \<Longrightarrow> k \<le> length key \<Longrightarrow> trie_find t1 (take k key) = None"
        unfolding P_def by (metis (mono_tags, lifting) leD option.exhaust)
      then have "longest_match t1 key w" unfolding longest_match_def by blast
      then show False using no by blast
    qed
  qed (auto simp: longest_match_def)
  show ?thesis unfolding suc none [symmetric] using Some by auto
qed

lemma longest_match_unique: "longest_match t key v \<Longrightarrow> longest_match t key w \<Longrightarrow> v = w"
  unfolding longest_match_def by (metis linorder_neqE_nat option.inject option.simps(3))

lemma longest_prefix_loop_spec:
  "longest_prefix_loop t key r =
    (if has_path t key then trie_find t key
     else if \<exists>v. longest_match t key v then Some (THE v. longest_match t key v) else r)"
proof (induction t key r rule: longest_prefix_loop.induct)
  case (2 t c key r)
  show ?case
  proof (cases "trie_entries t c")
    case None
    then have "longest_match t (c # key) = (\<lambda>v. trie_value t = Some v)"
      by (auto simp: longest_match_Cons)
    then show ?thesis using None by (cases "trie_value t") (simp_all add: Let_def)
  next
    case (Some t1)
    have "longest_prefix_loop t (c # key) r =
        longest_prefix_loop t1 key (if trie_value t \<noteq> None then trie_value t else r)"
      using Some by (simp add: Let_def)
    also note "2.IH" [OF refl Some]
    finally have eq: "longest_prefix_loop t (c # key) r =
        (if has_path t1 key then trie_find t1 key
         else if \<exists>v. longest_match t1 key v then Some (THE v. longest_match t1 key v)
         else if trie_value t \<noteq> None then trie_value t else r)" .
    show ?thesis
    proof (cases "\<exists>v. longest_match t1 key v")
      case True
      then have "longest_match t (c # key) = longest_match t1 key"
        using Some by (intro ext) (auto simp: longest_match_Cons)
      then show ?thesis using True Some unfolding eq by simp
    next
      case False
      then have "longest_match t (c # key) = (\<lambda>v. trie_value t = Some v)"
        using Some by (auto simp: longest_match_Cons)
      moreover have none: "Ex (longest_match t1 key) = False" using False by blast
      ultimately show ?thesis using Some unfolding eq none by (cases "trie_value t") simp_all
    qed
  qed
qed simp

lemma findLongestPrefix_spec:
  "findLongestPrefix t key = Some v \<longleftrightarrow>
    (if has_path t key then trie_find t key = Some v else longest_match t key v)"
proof (cases "has_path t key")
  case False
  have the: "(THE v. longest_match t key v) = w" if "longest_match t key w" for w
    using that longest_match_unique by (intro the_equality)
  show ?thesis
  proof (cases "\<exists>w. longest_match t key w")
    case True
    then obtain w where w: "longest_match t key w" ..
    have ex: "\<exists>w. longest_match t key w" using w by blast
    have "findLongestPrefix t key = Some w"
      unfolding findLongestPrefix_def longest_prefix_loop_spec the [OF w]
      using False ex by (simp only: if_False if_True)
    moreover have "longest_match t key v \<longleftrightarrow> w = v" using w longest_match_unique [OF w, of v] by auto
    ultimately show ?thesis using False by simp
  qed (use False in \<open>auto simp: findLongestPrefix_def longest_prefix_loop_spec\<close>)
qed (simp add: findLongestPrefix_def longest_prefix_loop_spec)

section \<open>Hash and comparison\<close>

lemma djb2_map: "djb2CaseInsensitiveHash f a = djb2CaseInsensitiveHash id (map f a)"
proof -
  have "foldl (\<lambda>hash c. (push_bit 5 hash + hash) + word_of_nat (of_char (f c))) h a =
      foldl (\<lambda>hash c. (push_bit 5 hash + hash) + word_of_nat (of_char (id c))) h (map f a)" for h :: u64
    by (induction a arbitrary: h) simp_all
  then show ?thesis by (simp add: djb2CaseInsensitiveHash_def)
qed

end
