(* ===== verification/Tokens.thy ===== *)
theory Tokens
  imports CommonUtil
begin

text \<open>
  The functions of \<open>StringUtil\<close> that are built on \<open>absl/strings\<close>: splitting into tokens, looking
  up and removing tokens, upper-casing and replacing white space. The \<open>absl\<close> functions are the
  fields of a record, a parameter of every definition; \<open>absl_contract\<close> states what \<open>absl\<close>
  documents of them, with \<open>split_any\<close> as the meaning of splitting at any of some characters.
\<close>

section \<open>Parameters\<close>

record absl =
  StrSplit :: "string \<Rightarrow> string \<Rightarrow> (string \<Rightarrow> bool) \<Rightarrow> string list"
  StrJoin :: "string list \<Rightarrow> string \<Rightarrow> string"
  StrReplaceAll :: "string \<Rightarrow> (string \<times> string) list \<Rightarrow> string"
  ascii_toupper :: "char \<Rightarrow> char"
  EqualsIgnoreCase :: "string \<Rightarrow> string \<Rightarrow> bool"

text \<open>The predicates \<open>absl::AllowEmpty\<close>, \<open>absl::SkipEmpty\<close> and \<open>absl::SkipWhitespace\<close>.\<close>

definition AllowEmpty :: "string \<Rightarrow> bool" where
  "AllowEmpty s = True"

definition SkipEmpty :: "string \<Rightarrow> bool" where
  "SkipEmpty s \<longleftrightarrow> s \<noteq> []"

definition SkipWhitespace :: "string \<Rightarrow> bool" where
  "SkipWhitespace s \<longleftrightarrow> (\<exists>c\<in>set s. \<not> whitespace c)"

fun split_any :: "string \<Rightarrow> string \<Rightarrow> string list" where
  "split_any delimiters [] = [[]]"
| "split_any delimiters (c # s) =
     (if c \<in> set delimiters then [] # split_any delimiters s
      else case split_any delimiters s of [] \<Rightarrow> [[c]] | w # ws \<Rightarrow> (c # w) # ws)"

definition absl_contract :: "absl \<Rightarrow> bool" where
  "absl_contract a \<longleftrightarrow>
     (\<forall>s d P. d \<noteq> [] \<longrightarrow> StrSplit a s d P = filter P (split_any d s)) \<and> StrJoin_contract (StrJoin a)
     \<and> (\<forall>x y. EqualsIgnoreCase a x y = (map (ascii_toupper a) x = map (ascii_toupper a) y))"

section \<open>Definitions\<close>

definition splitToken :: "absl \<Rightarrow> string \<Rightarrow> string \<Rightarrow> bool \<Rightarrow> bool \<Rightarrow> string list" where
  "splitToken a source delimiters keep_empty_string trim_whitespace =
     (let result =
        (if keep_empty_string then StrSplit a source delimiters AllowEmpty
         else if trim_whitespace then StrSplit a source delimiters SkipWhitespace
         else StrSplit a source delimiters SkipEmpty)
      in if trim_whitespace then map trim result else result)"

text \<open>\<open>trim_whitespace\<close> is passed where \<open>splitToken\<close> takes \<open>keep_empty_string\<close>.\<close>

definition findToken :: "absl \<Rightarrow> string \<Rightarrow> string \<Rightarrow> string \<Rightarrow> bool \<Rightarrow> bool" where
  "findToken a source delimiters key_token trim_whitespace =
     (let tokens = splitToken a source delimiters trim_whitespace False in
      if trim_whitespace then list_ex (\<lambda>token. key_token = trim token) tokens
      else list_ex (\<lambda>token. token = key_token) tokens)"

definition caseFindToken :: "absl \<Rightarrow> string \<Rightarrow> string \<Rightarrow> string \<Rightarrow> bool \<Rightarrow> bool" where
  "caseFindToken a source delimiters key_token trim_whitespace =
     (let tokens = splitToken a source delimiters trim_whitespace False;
          predicate = (if trim_whitespace then (\<lambda>token. EqualsIgnoreCase a key_token (trim token))
                       else (\<lambda>token. EqualsIgnoreCase a key_token token))
      in list_ex predicate tokens)"

text \<open>A \<open>CaseUnorderedSet\<close> is the list of its elements; \<open>count\<close> compares ignoring case.\<close>

definition removeTokens :: "absl \<Rightarrow> string \<Rightarrow> string \<Rightarrow> string list \<Rightarrow> string \<Rightarrow> string" where
  "removeTokens a source delimiters tokens_to_remove joiner =
     (let tokens = splitToken a source delimiters False True;
          kept = filter (\<lambda>t. \<not> list_ex (\<lambda>r. CaseInsensitiveCompare (EqualsIgnoreCase a) r t) tokens_to_remove) tokens
      in StrJoin a kept joiner)"

definition toUpper :: "absl \<Rightarrow> string \<Rightarrow> string" where
  "toUpper a s = map (ascii_toupper a) s"

definition emptySpaceReplacement :: "(string \<times> string) list" where
  "emptySpaceReplacement = map (\<lambda>c. ([c], ''_'')) WhitespaceChars"

definition replaceAllEmptySpace :: "absl \<Rightarrow> string \<Rightarrow> string" where
  "replaceAllEmptySpace a view = StrReplaceAll a view emptySpaceReplacement"

section \<open>Lemmas\<close>

lemma split_any_ne [simp]: "split_any d s \<noteq> []"
  by (cases s) (auto split: list.splits)

lemma split_any_no_delimiter: "w \<in> set (split_any d s) \<Longrightarrow> c \<in> set w \<Longrightarrow> c \<notin> set d"
proof (induction d s arbitrary: w rule: split_any.induct)
  case (2 d x s)
  obtain h t where ht: "split_any d s = h # t" by (meson split_any_ne list.exhaust)
  have "c \<notin> set d" if "v \<in> set (h # t)" "c \<in> set v" for v
    using "2.IH" [of v] that by (cases "x \<in> set d") (simp_all add: ht)
  then have "c \<notin> set d" if "c \<in> set h \<or> (\<exists>v\<in>set (h # t). c \<in> set v)"
    using that by auto
  then show ?case using "2.prems" by (auto simp: ht split: if_splits)
qed simp

lemma length_split_any: "length (split_any d s) = Suc (length (filter (\<lambda>c. c \<in> set d) s))"
proof (induction d s rule: split_any.induct)
  case (2 d c s)
  then show ?case by (cases "split_any d s") auto
qed simp

lemma split_any_filter: "concat (split_any d s) = filter (\<lambda>c. c \<notin> set d) s"
proof (induction d s rule: split_any.induct)
  case (2 d c s)
  then show ?case by (cases "split_any d s") auto
qed simp

lemma trim_nonblank: "SkipWhitespace s \<longleftrightarrow> trim s \<noteq> []"
proof -
  obtain a z where s: "s = a @ trim s @ z" "\<forall>c\<in>set a. whitespace c" "\<forall>c\<in>set z. whitespace c"
    "trim s \<noteq> [] \<longrightarrow> \<not> whitespace (hd (trim s))" using trim_spec [of s] by auto
  show ?thesis
  proof
    assume "SkipWhitespace s"
    then show "trim s \<noteq> []" using s(1-3) unfolding SkipWhitespace_def
      by (metis UnE append_Nil set_append)
  next
    assume ne: "trim s \<noteq> []"
    then have "hd (trim s) \<in> set s" using s(1) by (metis UnI1 UnI2 hd_in_set set_append)
    then show "SkipWhitespace s" using ne s(4) by (auto simp: SkipWhitespace_def)
  qed
qed

lemma findToken_eq:
  assumes "absl_contract a" "d \<noteq> []"
  shows "findToken a s d key t \<longleftrightarrow>
    (if t then key \<in> trim ` set (split_any d s) else key \<noteq> [] \<and> key \<in> set (split_any d s))"
  using assms by (auto simp: findToken_def splitToken_def absl_contract_def AllowEmpty_def SkipEmpty_def
      list_ex_iff Let_def)

lemma removeTokens_eq:
  assumes "absl_contract a" "d \<noteq> []"
  shows "removeTokens a s d rs j =
    StrJoin a (filter (\<lambda>t. t \<noteq> [] \<and> (\<forall>r\<in>set rs. toUpper a r \<noteq> toUpper a t)) (map trim (split_any d s))) j"
proof -
  have "StrSplit a s d SkipWhitespace = filter SkipWhitespace (split_any d s)"
    using assms by (simp add: absl_contract_def)
  moreover have "map trim (filter SkipWhitespace ws) = filter (\<lambda>t. t \<noteq> []) (map trim ws)" for ws
    by (induction ws) (auto simp: trim_nonblank)
  moreover have "EqualsIgnoreCase a x y \<longleftrightarrow> toUpper a x = toUpper a y" for x y
    using assms(1) by (simp add: absl_contract_def toUpper_def)
  ultimately show ?thesis
    by (simp add: removeTokens_def splitToken_def CaseInsensitiveCompare_def list_ex_iff Let_def)
qed

end
