(* ===== verification/CommonSpec.thy ===== *)
theory CommonSpec
  imports Tokens
begin

text \<open>What the utilities of \<open>common/common\<close> promise, with a concrete instance of each.\<close>

section \<open>Interval sets\<close>

text \<open>Property C21. \<open>IntervalSetImpl::insert\<close> keeps the intervals sorted, disjoint and non-empty, merges
  whatever overlaps or touches, and adds exactly the numbers of the new intervals; \<open>test\<close> is
  membership. The order of the insertions and repetitions make no difference to the set that is stored. A reversed
  interval dies at the assertion.\<close>

theorem IntervalSet_insert_adds:
  assumes "iv_wf xs" and "list_all (\<lambda>(l, r). l \<le> r) rs"
  shows "(\<exists>ys. insert_ranges iv_insert rs xs = Inr ys \<and> iv_wf ys
      \<and> (\<forall>v. iv_test v ys \<longleftrightarrow> iv_test v xs \<or> (\<exists>(l, r) \<in> set rs. l \<le> v \<and> v < r)))
    \<and> (\<forall>rs'. set rs' = set rs \<longrightarrow> insert_ranges iv_insert rs' xs = insert_ranges iv_insert rs xs)
    \<and> (\<forall>l r rs'. r < l \<longrightarrow> insert_ranges iv_insert (rs @ (l, r) # rs') xs = Inl Assert_failed)"
  using intervals.insert_ranges_ok [OF assms] intervals.insert_ranges_set [OF assms]
    intervals.insert_ranges_reversed [OF assms] by metis

lemma IntervalSet_insert_adds_witness:
  "(\<exists>ys. insert_ranges iv_insert [(4, 9), (20, 21)] [(1, 3), (5, 6), (8, 12)] = Inr ys \<and> iv_test 7 ys \<and> \<not> iv_test 3 ys)
    \<and> insert_ranges iv_insert [(4, 9), (9, 4)] [(1, 3), (5, 6), (8, 12)] = Inl Assert_failed"
proof -
  let ?xs = "[(1, 3), (5, 6), (8, 12)] :: interval list"
  have wf: "iv_wf ?xs" by (simp add: iv_wf_def iv_less_def)
  have "\<not> iv_test 3 ?xs" using iv_test_covered [OF wf] by simp
  then show ?thesis
    using IntervalSet_insert_adds [OF wf, of "[(4, 9), (20, 21)]"]
      IntervalSet_insert_adds [OF wf, of "[(4, 9)]", THEN conjunct2, THEN conjunct2, rule_format, of 4 9 "[]"] by auto
qed

text \<open>\<open>removeCharacters\<close> returns exactly the characters whose position no interval covers, in
  order, for intervals inside the string.\<close>

theorem removeCharacters_keeps_uncovered:
  assumes "StrJoin_contract str_join" and "iv_wf iv" and "\<forall>e\<in>set iv. snd e \<le> length str"
  shows "removeCharacters str_join str iv =
    Inr (map ((!) str) (filter (\<lambda>i. \<not> iv_test i iv) [0..<length str]))"
  using removeCharacters_eq [OF assms] by (simp add: iv_test_covered [OF assms(2)])

text \<open>A concrete \<open>StrJoin\<close>.\<close>

fun join_with :: "string list \<Rightarrow> string \<Rightarrow> string" where
  "join_with [] sep = []"
| "join_with [p] sep = p"
| "join_with (p # q # ps) sep = p @ sep @ join_with (q # ps) sep"

lemma join_with_contract: "StrJoin_contract join_with"
  by (simp add: StrJoin_contract_def)

lemma removeCharacters_keeps_uncovered_witness:
  "removeCharacters join_with ''abcdef'' [(1, 2), (3, 5)] = Inr ''acf''"
proof -
  have wf: "iv_wf [(1, 2), (3, 5)]" by (simp add: iv_wf_def iv_less_def)
  have "\<forall>e\<in>set [(1, 2), (3, 5)]. snd e \<le> length ''abcdef''" by simp
  note removed = removeCharacters_keeps_uncovered [OF join_with_contract wf this]
  have "filter (\<lambda>i. \<not> iv_test i [(1, 2), (3, 5)]) [0..<length ''abcdef''] = [0, 2, 5]"
    unfolding iv_test_covered [OF wf] by (simp add: upt_rec)
  then show ?thesis unfolding removed by simp
qed

section \<open>Strings\<close>

text \<open>\<open>trim\<close> cuts a prefix and a suffix of white space, all of it: what is left is empty or
  begins and ends with another character.\<close>

theorem trim_cuts_whitespace:
  "\<exists>a z. s = a @ trim s @ z \<and> (\<forall>c\<in>set a. whitespace c) \<and> (\<forall>c\<in>set z. whitespace c)
    \<and> (trim s = [] \<or> \<not> whitespace (hd (trim s)) \<and> \<not> whitespace (last (trim s)))"
  using trim_spec [of s] by blast

lemma trim_cuts_whitespace_witness: "trim '' ab '' = ''ab''"
proof -
  obtain a z where s: "'' ab '' = a @ trim '' ab '' @ z" "\<forall>c\<in>set a. whitespace c"
    "\<forall>c\<in>set z. whitespace c"
    "trim '' ab '' = [] \<or> \<not> whitespace (hd (trim '' ab '')) \<and> \<not> whitespace (last (trim '' ab ''))"
    using trim_cuts_whitespace [of "'' ab ''"] by blast
  show ?thesis by (simp add: trim_def ltrim_eq rtrim_eq whitespace_def WhitespaceChars_def)
qed

text \<open>Property C22. Number round trip: \<open>itoa\<close> on a buffer of at least 21 bytes writes the decimal digits of
  any 64-bit number and a NUL and returns their count, and \<open>atoull\<close> reads them back to the same
  number; on a smaller buffer it throws.\<close>

theorem itoa_atoull_roundtrip:
  assumes "buffer_size \<le> length out"
  shows "if buffer_size < 21 then itoa out buffer_size i = Inl (Invalid_argument ''itoa buffer too small'')
    else \<exists>s rest. itoa out buffer_size i = Inr (s @ CHR 0x00 # rest, word_of_nat (length s))
      \<and> length s \<le> 20 \<and> length (s @ CHR 0x00 # rest) = length out
      \<and> atoull s n0 10 = (True, unat i)"
proof (cases "buffer_size < 21")
  case True
  then show ?thesis by (simp add: itoa_def)
next
  case False
  let ?s = "decimal (unat i)"
  have len: "21 \<le> length out" "21 \<le> buffer_size" using False assms by simp_all
  have "digits_value 10 ?s < 2 ^ 64"
    using unat_less_two_power [of i] by (simp add: decimal_def digits_value_rev_digits)
  then have "atoull ?s n0 10 = (True, unat i)"
    using atoull_digits [where ds = ?s] decimal_digits
    by (simp add: decimal_def digits_value_rev_digits)
  moreover have "length ?s \<le> 20" by (rule length_decimal_u64)
  moreover have "length (?s @ CHR 0x00 # drop (Suc (length ?s)) out) = length out"
    using calculation(2) len(1) by simp
  ultimately show ?thesis using False itoa_eq [OF len(2,1), of i] by (metis (no_types))
qed

lemma itoa_atoull_roundtrip_witness:
  "(\<exists>s rest. itoa (replicate 21 (CHR ''x'')) 21 1203 = Inr (s @ CHR 0x00 # rest, word_of_nat (length s))
      \<and> atoull s 0 10 = (True, 1203))
    \<and> itoa (replicate 4 (CHR ''x'')) 4 7 = Inl (Invalid_argument ''itoa buffer too small'')"
proof -
  have "(21::nat) \<le> length (replicate 21 (CHR ''x''))" "(4::nat) \<le> length (replicate 4 (CHR ''x''))"
    by simp_all
  from itoa_atoull_roundtrip [OF this(1), of 1203 0] itoa_atoull_roundtrip [OF this(2), of 7 0]
  show ?thesis by fastforce
qed

text \<open>Escaping loses nothing: reading the escape sequences of \<open>escapeToOstream\<close> back gives the
  original string, so two strings never print the same.\<close>

theorem escapeToOstream_roundtrip:
  "\<exists>printed. escapeToOstream os s = os @ printed \<and> unescape printed = s"
  by (intro exI [of _ "concat (map escape_ostream_char s)"]) (simp add: escapeToOstream_eq unescape_escape)

section \<open>Choosing, hashing, looking up\<close>

text \<open>\<open>isPrime\<close> decides primality of every 32-bit number except 1, which it takes for a prime.
  From 2 on, \<open>findPrimeLargerThan\<close> returns the least larger prime, or 1 when there is none below
  \<open>2 ^ 32\<close>; it always returns.\<close>

theorem Primes_correct:
  "(isPrime x \<longleftrightarrow> x = 1 \<or> is_prime (unat x))
    \<and> (2 \<le> unat x \<longrightarrow> (\<exists>p. findPrimeLargerThan x = Some p \<and> least_prime_from (unat x + 1) p))"
  using isPrime_iff findPrimeLargerThan_spec by blast

lemma Primes_correct_witness: "\<exists>p. findPrimeLargerThan 24 = Some p \<and> least_prime_from 25 p"
  using Primes_correct [of 24] by simp

text \<open>Property C24. \<open>pickCluster\<close>, for weights whose sum does not overflow, returns the cluster into whose
  weight interval \<open>random mod total\<close> falls; it runs past its end exactly when that value lies
  beyond the sum of the weights.\<close>

theorem pickCluster_by_weight:
  fixes total_weight random_value :: u64
  assumes "total_weight \<noteq> 0" and "weight_sum ws < 2 ^ 64"
  shows "if unat random_value mod unat total_weight < weight_sum ws
    then \<exists>j<length ws. pickCluster ws total_weight random_value ignore_overflow = Inr j
      \<and> weight_sum (take j ws) \<le> unat random_value mod unat total_weight
      \<and> unat random_value mod unat total_weight < weight_sum (take (Suc j) ws)
    else pickCluster ws total_weight random_value ignore_overflow = Inl Undefined_behaviour"
proof -
  have "unat (0 :: u64) + weight_sum ws < 2 ^ 64" using assms(2) by simp
  note spec = pickCluster_loop_spec [OF this, of "random_value mod total_weight" 0]
  have code: "pickCluster ws total_weight random_value ignore_overflow =
      pickCluster_loop ws 0 0 (random_value mod total_weight)"
    using assms(1) by (simp add: pickCluster_def)
  show ?thesis unfolding code unat_mod [symmetric] by (rule spec [unfolded unat_0 add_0_left, OF le0])
qed

lemma pickCluster_by_weight_witness:
  "pickCluster [3, 5, 2] 10 24 False = Inr 1"
proof -
  have "weight_sum [3, 5, 2] < 2 ^ 64" "(10 :: u64) \<noteq> 0" by simp_all
  from pickCluster_by_weight [OF this(2,1), of 24 False] obtain j where
    j: "pickCluster [3, 5, 2] 10 24 False = Inr j" "weight_sum (take j [3, 5, 2]) \<le> 4"
      "4 < weight_sum (take (Suc j) [3, 5, 2])" "j < 3" by auto
  consider "j = 0" | "j = 1" | "j = 2" using j(4) by linarith
  then show ?thesis using j by cases simp_all
qed

text \<open>Property C23. The trie is a map: after \<open>add(key, value)\<close>, \<open>find\<close> gives the value at \<open>key\<close> and is
  unchanged elsewhere; without \<open>overwrite_existing\<close> an existing value stays and \<open>add\<close> returns
  false. A table filled from a list is the map of the list, the last value of a key winning with the flag, the
  first without.\<close>

theorem Trie_add_find:
  "trie_find (snd (trie_add key val flag t)) key' =
      (if key' = key \<and> (flag \<or> trie_find t key = None) then val else trie_find t key')
    \<and> (fst (trie_add key val flag t) \<longleftrightarrow> flag \<or> trie_find t key = None)
    \<and> trie_find (add_each trie_add flag kvs trie_empty) key' = (if flag then map_of (rev kvs) key' else map_of kvs key')"
  by (simp only: tries.find_add tries.add_result tries.table_of_list simp_thms)

text \<open>\<open>findLongestPrefix\<close> returns the value of the longest prefix of the key that has one, but
  only if the key leaves the trie: a key that is itself a path of the trie without a value of its
  own finds nothing, whatever shorter prefix has a value.\<close>

theorem findLongestPrefix_exact:
  "findLongestPrefix t key = Some v \<longleftrightarrow>
    (if has_path t key then trie_find t key = Some v else longest_match t key v)"
  by (rule findLongestPrefix_spec)

lemma findLongestPrefix_exact_witness:
  defines "t \<equiv> snd (trie_add ''foobar'' (Some 2) True (snd (trie_add ''foo'' (Some (1::nat)) True trie_empty)))"
  shows "findLongestPrefix t ''foox'' = Some 1 \<and> findLongestPrefix t ''foob'' = None"
proof -
  have "has_path t ''foob''" "trie_find t ''foob'' = None" by (simp_all add: t_def trie_empty_def)
  then have "findLongestPrefix t ''foob'' \<noteq> Some v" for v using findLongestPrefix_exact [of t "''foob''" v] by simp
  moreover have "findLongestPrefix t ''foox'' = Some 1"
    by (simp add: findLongestPrefix_def t_def trie_empty_def)
  ultimately show ?thesis by (cases "findLongestPrefix t ''foob''") auto
qed

text \<open>\<open>removeTokens\<close> splits at the delimiters, trims, drops the blank tokens and those that
  equal a token to remove ignoring case, and joins the rest in order; \<open>findToken\<close> finds exactly
  the trimmed tokens, the empty one included.\<close>

theorem tokens_removed_and_found:
  assumes "absl_contract a" and "d \<noteq> []"
  shows "removeTokens a s d rs j =
      StrJoin a (filter (\<lambda>t. t \<noteq> [] \<and> (\<forall>r\<in>set rs. toUpper a r \<noteq> toUpper a t)) (map trim (split_any d s))) j
    \<and> (findToken a s d key True \<longleftrightarrow> key \<in> trim ` set (split_any d s))"
  using removeTokens_eq [OF assms] findToken_eq [OF assms] by simp

definition sample_absl :: absl where
  "sample_absl = \<lparr>StrSplit = (\<lambda>s d P. filter P (split_any d s)), StrJoin = join_with,
     StrReplaceAll = (\<lambda>s m. s), ascii_toupper = id, EqualsIgnoreCase = (=)\<rparr>"

lemma tokens_removed_and_found_witness:
  "removeTokens sample_absl ''a; b ;;c'' '';'' [''b''] ''+'' = ''a+c'' \<and> findToken sample_absl ''a; b ;;c'' '';'' [] True"
proof -
  have "absl_contract sample_absl"
    using join_with_contract by (simp add: absl_contract_def sample_absl_def)
  from tokens_removed_and_found [OF this, of "'';''" "''a; b ;;c''" "[''b'']" "''+''" "[]"]
  show ?thesis
    by (simp add: trim_def ltrim_eq rtrim_eq whitespace_def WhitespaceChars_def toUpper_def sample_absl_def)
qed

end
