(* ===== verification/Address.thy ===== *)
theory Address
  imports StringUtil
begin

text \<open>
  The addresses of \<open>common/network/AddressImpl.h\<close> and \<open>AddressImpl.cpp\<close>: IPv4, IPv6, Unix domain
  (pipe) and Envoy-internal, with their constructors, names, comparison and the conversion from a
  \<open>sockaddr_storage\<close>. The host is little-endian (x86-64 Linux): the words in \<open>sin_addr\<close>, \<open>sin6_addr\<close> and
  \<open>sin_port\<close> are what a load from the structure gives, so that byte \<open>i\<close> of the address is
  \<open>drop_bit (8 * i)\<close>. What the code asks of the C library's resolver (\<open>inet_pton\<close>, \<open>inet_ntop\<close>,
  \<open>getaddrinfo\<close>, \<open>getifaddrs\<close>) is the parameter \<open>os_net\<close>.

  \<open>socket_interface_\<close> is left out: \<open>sockInterfaceOrDefault\<close> always returns null, the base class binds
  a reference to the null pointer's target, and nothing in the tree ever uses it.
\<close>

section \<open>Socket addresses\<close>

definition byte_of :: "'a::len word \<Rightarrow> nat \<Rightarrow> nat" where
  "byte_of w i = unat (drop_bit (8 * i) w AND 0xFF)"

definition htons :: "u16 \<Rightarrow> u16" where
  "htons w = push_bit 8 w OR drop_bit 8 w"

definition ntohs :: "u16 \<Rightarrow> u16" where
  "ntohs w = htons w"

definition htonl :: "u32 \<Rightarrow> u32" where
  "htonl w = push_bit 24 (w AND 0xFF) OR push_bit 16 (drop_bit 8 w AND 0xFF)
     OR push_bit 8 (drop_bit 16 w AND 0xFF) OR drop_bit 24 w"

definition ntohl :: "u32 \<Rightarrow> u32" where
  "ntohl w = htonl w"

datatype address_family = AF_INET | AF_INET6 | AF_UNIX | AF_other nat

record sockaddr_in =
  sin_family :: address_family
  sin_port :: u16
  sin_addr :: u32

record sockaddr_in6 =
  sin6_family :: address_family
  sin6_port :: u16
  sin6_addr :: u128
  sin6_scope_id :: u32

text \<open>\<open>sun_path\<close> is the array of 108 characters.\<close>

record sockaddr_un =
  sun_family :: address_family
  sun_path :: string

datatype sockaddr_storage =
    Storage_in sockaddr_in
  | Storage_in6 sockaddr_in6
  | Storage_un sockaddr_un
  | Storage_other nat

fun ss_family :: "sockaddr_storage \<Rightarrow> address_family" where
  "ss_family (Storage_in s) = AF_INET"
| "ss_family (Storage_in6 s) = AF_INET6"
| "ss_family (Storage_un s) = AF_UNIX"
| "ss_family (Storage_other n) = AF_other n"

definition sun_path_size :: nat where
  "sun_path_size = 108"

definition sun_path_offset :: nat where
  "sun_path_offset = 2"

definition sockaddr_in_zero :: sockaddr_in where
  "sockaddr_in_zero = \<lparr>sin_family = AF_other 0, sin_port = 0, sin_addr = 0\<rparr>"

definition sockaddr_in6_zero :: sockaddr_in6 where
  "sockaddr_in6_zero = \<lparr>sin6_family = AF_other 0, sin6_port = 0, sin6_addr = 0, sin6_scope_id = 0\<rparr>"

definition sockaddr_un_zero :: sockaddr_un where
  "sockaddr_un_zero = \<lparr>sun_family = AF_other 0, sun_path = replicate sun_path_size (CHR 0x00)\<rparr>"

definition IN6_IS_ADDR_V4MAPPED :: "u128 \<Rightarrow> bool" where
  "IN6_IS_ADDR_V4MAPPED a \<longleftrightarrow> take_bit 96 a = push_bit 80 0xFFFF"

definition IN6_IS_ADDR_MULTICAST :: "u128 \<Rightarrow> bool" where
  "IN6_IS_ADDR_MULTICAST a \<longleftrightarrow> byte_of a 0 = 0xFF"

definition in6addr_any :: u128 where
  "in6addr_any = 0"

definition in6addr_loopback :: u128 where
  "in6addr_loopback = push_bit 120 1"

text \<open>The C library's part.\<close>

record os_net =
  inet_pton4 :: "string \<Rightarrow> u32 option"
  inet_pton6 :: "string \<Rightarrow> u128 option"
  inet_ntop6 :: "u128 \<Rightarrow> string"
  getaddrinfo6 :: "string \<Rightarrow> int + sockaddr_in6"

definition c_str :: "string \<Rightarrow> string" where
  "c_str s = takeWhile (\<lambda>c. c \<noteq> CHR 0x00) s"

section \<open>Status\<close>

datatype status =
    OkStatus
  | FailedPreconditionError string
  | InvalidArgumentError string

type_synonym 'a statusor = "status + 'a"

text \<open>
  The two \<open>throwOnError\<close>. The first does nothing, its \<open>throw\<close> is commented out; the second then
  dereferences a \<open>StatusOr\<close> that holds no value.
\<close>

definition throwOnError_status :: "status \<Rightarrow> unit result" where
  "throwOnError_status st = (if st \<noteq> OkStatus then Inr () else Inr ())"

definition deref_statusor :: "'a statusor \<Rightarrow> 'a result" where
  "deref_statusor so = (case so of Inl st \<Rightarrow> Inl Undefined_behaviour | Inr a \<Rightarrow> Inr a)"

definition throwOnError :: "'a statusor \<Rightarrow> 'a result" where
  "throwOnError so =
     (case so of
        Inl st \<Rightarrow> res_bind (throwOnError_status st) (\<lambda>_. deref_statusor so)
      | Inr a \<Rightarrow> deref_statusor so)"

section \<open>The instances\<close>

record ipv4_instance =
  v4_sockaddr :: sockaddr_in
  v4_friendly_address :: string
  v4_friendly_name :: string

record ipv6_instance =
  v6_sockaddr :: sockaddr_in6
  v6_v6only :: bool
  v6_friendly_address :: string
  v6_friendly_name :: string

record pipe_instance =
  pipe_sockaddr :: sockaddr_un
  pipe_abstract_namespace :: bool
  pipe_address_length :: u32
  pipe_mode :: nat
  pipe_friendly_name :: string

record internal_instance =
  address_id :: string
  endpoint_id :: string
  internal_friendly_name :: string

datatype address =
    Ipv4Address ipv4_instance
  | Ipv6Address ipv6_instance
  | PipeAddress pipe_instance
  | InternalAddress internal_instance

datatype address_type = Ip | Pipe | EnvoyInternal

datatype ip_version = V4 | V6

fun asString :: "address \<Rightarrow> string" where
  "asString (Ipv4Address i) = v4_friendly_name i"
| "asString (Ipv6Address i) = v6_friendly_name i"
| "asString (PipeAddress i) = pipe_friendly_name i"
| "asString (InternalAddress i) = internal_friendly_name i"

fun addr_type :: "address \<Rightarrow> address_type" where
  "addr_type (Ipv4Address i) = Ip"
| "addr_type (Ipv6Address i) = Ip"
| "addr_type (PipeAddress i) = Pipe"
| "addr_type (InternalAddress i) = EnvoyInternal"

text \<open>What \<open>ip()\<close> gives: the version, the port and the address as a string; \<open>None\<close> is null.\<close>

fun ip_version_of :: "address \<Rightarrow> ip_version option" where
  "ip_version_of (Ipv4Address i) = Some V4"
| "ip_version_of (Ipv6Address i) = Some V6"
| "ip_version_of _ = None"

fun ip_port :: "address \<Rightarrow> u16 option" where
  "ip_port (Ipv4Address i) = Some (ntohs (sin_port (v4_sockaddr i)))"
| "ip_port (Ipv6Address i) = Some (ntohs (sin6_port (v6_sockaddr i)))"
| "ip_port _ = None"

fun addressAsString :: "address \<Rightarrow> string option" where
  "addressAsString (Ipv4Address i) = Some (v4_friendly_address i)"
| "addressAsString (Ipv6Address i) = Some (v6_friendly_address i)"
| "addressAsString _ = None"

fun isAnyAddress :: "address \<Rightarrow> bool option" where
  "isAnyAddress (Ipv4Address i) = Some (sin_addr (v4_sockaddr i) = 0)"
| "isAnyAddress (Ipv6Address i) = Some (sin6_addr (v6_sockaddr i) = in6addr_any)"
| "isAnyAddress _ = None"

fun isUnicastAddress :: "address \<Rightarrow> bool option" where
  "isUnicastAddress (Ipv4Address i) =
     Some (sin_addr (v4_sockaddr i) \<noteq> 0 \<and> sin_addr (v4_sockaddr i) \<noteq> 0xFFFFFFFF
       \<and> sin_addr (v4_sockaddr i) AND htonl 0xF0000000 \<noteq> htonl 0xE0000000)"
| "isUnicastAddress (Ipv6Address i) =
     Some (sin6_addr (v6_sockaddr i) \<noteq> in6addr_any \<and> \<not> IN6_IS_ADDR_MULTICAST (sin6_addr (v6_sockaddr i)))"
| "isUnicastAddress _ = None"

text \<open>\<open>operator==\<close> of the left operand's class.\<close>

fun address_eq :: "address \<Rightarrow> address \<Rightarrow> bool" where
  "address_eq (Ipv4Address i) rhs =
     (case rhs of
        Ipv4Address j \<Rightarrow> sin_addr (v4_sockaddr i) = sin_addr (v4_sockaddr j)
          \<and> ntohs (sin_port (v4_sockaddr i)) = ntohs (sin_port (v4_sockaddr j))
      | _ \<Rightarrow> False)"
| "address_eq (Ipv6Address i) rhs =
     (case rhs of
        Ipv6Address j \<Rightarrow> sin6_addr (v6_sockaddr i) = sin6_addr (v6_sockaddr j)
          \<and> ntohs (sin6_port (v6_sockaddr i)) = ntohs (sin6_port (v6_sockaddr j))
          \<and> sin6_scope_id (v6_sockaddr i) = sin6_scope_id (v6_sockaddr j)
      | _ \<Rightarrow> False)"
| "address_eq (PipeAddress i) rhs \<longleftrightarrow> pipe_friendly_name i = asString rhs"
| "address_eq (InternalAddress i) rhs \<longleftrightarrow>
     addr_type rhs = EnvoyInternal \<and> internal_friendly_name i = asString rhs"

text \<open>\<open>sockAddrLen()\<close>.\<close>

fun sockAddrLen :: "address \<Rightarrow> u32" where
  "sockAddrLen (Ipv4Address i) = 16"
| "sockAddrLen (Ipv6Address i) = 28"
| "sockAddrLen (PipeAddress i) =
     (if pipe_abstract_namespace i then word_of_nat sun_path_offset + pipe_address_length i
      else word_of_nat (sun_path_offset + sun_path_size))"
| "sockAddrLen (InternalAddress i) = 0"

section \<open>IPv4\<close>

text \<open>
  \<open>sockaddrToString\<close> writes the string backwards into a buffer of 16 characters; the state is the
  buffer and \<open>start\<close>. A write before the buffer is undefined.
\<close>

definition put_before :: "char \<Rightarrow> string \<times> nat \<Rightarrow> (string \<times> nat) result" where
  "put_before c b =
     (case b of (str, start) \<Rightarrow>
        if start = 0 then Inl Undefined_behaviour else Inr (str[start - 1 := c], start - 1))"

function octet_loop :: "nat \<Rightarrow> string \<times> nat \<Rightarrow> (string \<times> nat) result" where
  "octet_loop octet b =
     res_bind (put_before (''0123456789'' ! (octet mod 10)) b) (\<lambda>b1.
       if octet div 10 \<noteq> 0 then octet_loop (octet div 10) b1 else Inr b1)"
  by pat_completeness auto
termination
  by (relation "measure fst") auto

declare octet_loop.simps [simp del]

fun sockaddr_loop :: "nat \<Rightarrow> u32 \<Rightarrow> string \<times> nat \<Rightarrow> (string \<times> nat) result" where
  "sockaddr_loop 0 ipv4_addr b = Inr b"
| "sockaddr_loop (Suc i) ipv4_addr b =
     (let octet = unat (ipv4_addr AND 0xFF) in
      res_bind (if octet = 0 then put_before (CHR ''0'') b else octet_loop octet b) (\<lambda>b1.
      res_bind (if i \<noteq> 0 then put_before (CHR ''.'') b1 else Inr b1) (\<lambda>b2.
        sockaddr_loop i (drop_bit 8 ipv4_addr) b2)))"

definition sockaddrToString :: "sockaddr_in \<Rightarrow> string result" where
  "sockaddrToString addr =
     res_bind (sockaddr_loop 4 (ntohl (sin_addr addr)) (replicate 16 (CHR 0x00), 16))
       (\<lambda>(str, start). Inr (drop start str))"

definition ipv4_validateProtocolSupported :: status where
  "ipv4_validateProtocolSupported =
     FailedPreconditionError ''IPv4 addresses are not supported on this machine''"

definition ipv4_initHelper :: "sockaddr_in \<Rightarrow> ipv4_instance result" where
  "ipv4_initHelper addr =
     res_bind (sockaddrToString addr) (\<lambda>friendly.
       Inr \<lparr>v4_sockaddr = addr, v4_friendly_address = friendly,
         v4_friendly_name = friendly @ '':'' @ decimal (unat (ntohs (sin_port addr)))\<rparr>)"

text \<open>The constructors from a \<open>sockaddr_in\<close>, from a string (with or without a port) and from a port.\<close>

definition Ipv4Instance_sockaddr :: "sockaddr_in \<Rightarrow> ipv4_instance result" where
  "Ipv4Instance_sockaddr addr =
     res_bind (throwOnError_status ipv4_validateProtocolSupported) (\<lambda>_. ipv4_initHelper addr)"

definition Ipv4Instance_string :: "os_net \<Rightarrow> string \<Rightarrow> u32 \<Rightarrow> ipv4_instance result" where
  "Ipv4Instance_string net addr port =
     res_bind (throwOnError_status ipv4_validateProtocolSupported) (\<lambda>_.
       let sa = sockaddr_in_zero\<lparr>sin_family := AF_INET, sin_port := htons (ucast port)\<rparr>;
           sa1 = (case inet_pton4 net (c_str addr) of
                    Some a \<Rightarrow> sa\<lparr>sin_addr := a\<rparr>
                  | None \<Rightarrow> sa)
       in Inr \<lparr>v4_sockaddr = sa1, v4_friendly_address = addr,
            v4_friendly_name = addr @ '':'' @ decimal (unat port)\<rparr>)"

definition Ipv4Instance_port :: "u32 \<Rightarrow> ipv4_instance result" where
  "Ipv4Instance_port port =
     res_bind (throwOnError_status ipv4_validateProtocolSupported) (\<lambda>_.
       Inr \<lparr>v4_sockaddr = \<lparr>sin_family = AF_INET, sin_port = htons (ucast port), sin_addr = 0\<rparr>,
         v4_friendly_address = ''0.0.0.0'', v4_friendly_name = ''0.0.0.0:'' @ decimal (unat port)\<rparr>)"

text \<open>
  The private constructor that reports a status, as \<open>InstanceFactory::createInstancePtr\<close> uses it: an
  instance only for a status that is ok.
\<close>

definition createInstancePtr_ipv4 :: "sockaddr_in \<Rightarrow> address statusor result" where
  "createInstancePtr_ipv4 addr =
     (let status = ipv4_validateProtocolSupported in
      if status \<noteq> OkStatus then Inr (Inl status)
      else res_bind (ipv4_initHelper addr) (\<lambda>i. Inr (Inr (Ipv4Address i))))"

section \<open>IPv6\<close>

definition ipv6ToIpv4CompatibleAddress :: "sockaddr_in6 \<Rightarrow> sockaddr_in" where
  "ipv6ToIpv4CompatibleAddress sin6 =
     \<lparr>sin_family = AF_INET, sin_port = sin6_port sin6, sin_addr = ucast (drop_bit 96 (sin6_addr sin6))\<rparr>"

definition makeFriendlyAddress :: "os_net \<Rightarrow> sockaddr_in6 \<Rightarrow> string" where
  "makeFriendlyAddress net addr =
     (let ptr = inet_ntop6 net (sin6_addr addr) in
      if sin6_scope_id addr \<noteq> 0 then ptr @ ''%'' @ decimal (unat (sin6_scope_id addr)) else ptr)"

definition v4CompatibleAddress :: "ipv6_instance \<Rightarrow> address option result" where
  "v4CompatibleAddress i =
     (if \<not> v6_v6only i \<and> IN6_IS_ADDR_V4MAPPED (sin6_addr (v6_sockaddr i))
      then res_bind (createInstancePtr_ipv4 (ipv6ToIpv4CompatibleAddress (v6_sockaddr i))) (\<lambda>addr.
             Inr (case addr of Inl st \<Rightarrow> None | Inr a \<Rightarrow> Some a))
      else Inr None)"

definition ipv6_validateProtocolSupported :: status where
  "ipv6_validateProtocolSupported =
     FailedPreconditionError ''IPv6 addresses are not supported on this machine''"

definition ipv6_initHelper :: "os_net \<Rightarrow> sockaddr_in6 \<Rightarrow> bool \<Rightarrow> ipv6_instance" where
  "ipv6_initHelper net addr v6only =
     (let friendly = makeFriendlyAddress net addr in
      \<lparr>v6_sockaddr = addr, v6_v6only = v6only, v6_friendly_address = friendly,
       v6_friendly_name = ''['' @ friendly @ '']:'' @ decimal (unat (ntohs (sin6_port addr)))\<rparr>)"

definition Ipv6Instance_sockaddr :: "os_net \<Rightarrow> sockaddr_in6 \<Rightarrow> bool \<Rightarrow> ipv6_instance result" where
  "Ipv6Instance_sockaddr net addr v6only =
     res_bind (throwOnError_status ipv6_validateProtocolSupported)
       (\<lambda>_. Inr (ipv6_initHelper net addr v6only))"

definition Ipv6Instance_string :: "os_net \<Rightarrow> string \<Rightarrow> u32 \<Rightarrow> bool \<Rightarrow> ipv6_instance result" where
  "Ipv6Instance_string net addr port v6only =
     res_bind (throwOnError_status ipv6_validateProtocolSupported) (\<lambda>_.
       let sa = sockaddr_in6_zero\<lparr>sin6_family := AF_INET6, sin6_port := htons (ucast port)\<rparr>;
           sa1 = (if addr \<noteq> [] then
                    (case inet_pton6 net (c_str addr) of
                       Some a \<Rightarrow> sa\<lparr>sin6_addr := a\<rparr>
                     | None \<Rightarrow> sa)
                  else sa\<lparr>sin6_addr := in6addr_any\<rparr>)
       in Inr (ipv6_initHelper net sa1 v6only))"

definition Ipv6Instance_port :: "os_net \<Rightarrow> u32 \<Rightarrow> ipv6_instance result" where
  "Ipv6Instance_port net port = Ipv6Instance_string net [] port True"

definition createInstancePtr_ipv6 :: "os_net \<Rightarrow> sockaddr_in6 \<Rightarrow> bool \<Rightarrow> address statusor" where
  "createInstancePtr_ipv6 net addr v6only =
     (let status = ipv6_validateProtocolSupported in
      if status \<noteq> OkStatus then Inl status else Inr (Ipv6Address (ipv6_initHelper net addr v6only)))"

section \<open>Unix domain sockets\<close>

definition friendlyNameFromAbstractPath :: "string \<Rightarrow> string" where
  "friendlyNameFromAbstractPath path = map (\<lambda>c. if c = CHR 0x00 then CHR ''@'' else c) path"

text \<open>
  A \<open>string_view\<close> of \<open>n\<close> characters of \<open>sun_path\<close>, or the C string in it: undefined where it runs out
  of the array.
\<close>

definition sun_path_view :: "string \<Rightarrow> nat \<Rightarrow> string result" where
  "sun_path_view path n = (if n \<le> length path then Inr (take n path) else Inl Undefined_behaviour)"

definition sun_path_c_str :: "string \<Rightarrow> string result" where
  "sun_path_c_str path = (if CHR 0x00 \<in> set path then Inr (c_str path) else Inl Undefined_behaviour)"

definition pipe_zero :: pipe_instance where
  "pipe_zero = \<lparr>pipe_sockaddr = sockaddr_un_zero, pipe_abstract_namespace = False,
     pipe_address_length = 0, pipe_mode = 0, pipe_friendly_name = []\<rparr>"

definition pipe_initHelper :: "sockaddr_un \<Rightarrow> nat \<Rightarrow> pipe_instance \<Rightarrow> (status \<times> pipe_instance) result" where
  "pipe_initHelper addr mode p =
     (let p1 = p\<lparr>pipe_sockaddr := addr\<rparr> in
      if pipe_abstract_namespace p1 then
        if mode \<noteq> 0
        then Inr (FailedPreconditionError ''Cannot set mode for Abstract AF_UNIX sockets'', p1)
        else res_bind (sun_path_view (sun_path (pipe_sockaddr p1)) (unat (pipe_address_length p1))) (\<lambda>v.
               Inr (OkStatus, p1\<lparr>pipe_friendly_name := friendlyNameFromAbstractPath v, pipe_mode := mode\<rparr>))
      else res_bind (sun_path_c_str (sun_path addr)) (\<lambda>v.
             Inr (OkStatus, p1\<lparr>pipe_friendly_name := v, pipe_mode := mode\<rparr>)))"

definition pipe_of_sockaddr :: "sockaddr_un \<Rightarrow> u32 \<Rightarrow> pipe_instance" where
  "pipe_of_sockaddr addr ss_len =
     (if sun_path addr ! 0 = CHR 0x00
      then pipe_zero\<lparr>pipe_abstract_namespace := True,
             pipe_address_length := ss_len - word_of_nat sun_path_offset\<rparr>
      else pipe_zero)"

definition PipeInstance_sockaddr :: "sockaddr_un \<Rightarrow> u32 \<Rightarrow> nat \<Rightarrow> pipe_instance result" where
  "PipeInstance_sockaddr addr ss_len mode =
     res_bind (pipe_initHelper addr mode (pipe_of_sockaddr addr ss_len)) (\<lambda>(status, p).
     res_bind (throwOnError_status status) (\<lambda>_. Inr p))"

text \<open>
  The constructor from a path. Its three checks have empty bodies, and so has the copy of a path
  that is not abstract: \<open>sun_path\<close> stays all zero.
\<close>

definition PipeInstance_path :: "string \<Rightarrow> nat \<Rightarrow> pipe_instance result" where
  "PipeInstance_path pipe_path mode =
     (let sa = sockaddr_un_zero\<lparr>sun_family := AF_UNIX\<rparr> in
      if pipe_path \<noteq> [] \<and> hd pipe_path = CHR ''@'' then
        if length pipe_path \<ge> sun_path_size then Inl Undefined_behaviour
        else let copied = blit 0 pipe_path (sun_path sa);
                 path = copied[0 := CHR 0x00, length pipe_path := CHR 0x00]
          in res_bind (sun_path_view path (length pipe_path)) (\<lambda>v.
               Inr \<lparr>pipe_sockaddr = sa\<lparr>sun_path := path\<rparr>, pipe_abstract_namespace = True,
                 pipe_address_length = word_of_nat (length pipe_path), pipe_mode = mode,
                 pipe_friendly_name = friendlyNameFromAbstractPath v\<rparr>)
      else res_bind (sun_path_c_str (sun_path sa)) (\<lambda>v.
             Inr \<lparr>pipe_sockaddr = sa, pipe_abstract_namespace = False, pipe_address_length = 0,
               pipe_mode = mode, pipe_friendly_name = v\<rparr>))"

definition createInstancePtr_pipe :: "sockaddr_un \<Rightarrow> u32 \<Rightarrow> address statusor result" where
  "createInstancePtr_pipe addr ss_len =
     res_bind (pipe_initHelper addr 0 (pipe_of_sockaddr addr ss_len)) (\<lambda>(status, p).
       Inr (if status \<noteq> OkStatus then Inl status else Inr (PipeAddress p)))"

section \<open>Internal addresses\<close>

definition EnvoyInternalInstance :: "string \<Rightarrow> string \<Rightarrow> address" where
  "EnvoyInternalInstance aid eid =
     InternalAddress \<lparr>address_id = aid, endpoint_id = eid,
       internal_friendly_name = ''envoy://'' @ aid @ ''/'' @ eid\<rparr>"

section \<open>From a \<open>sockaddr_storage\<close>\<close>

definition forceV6 :: bool where
  "forceV6 = False"

definition addressFromSockAddr :: "os_net \<Rightarrow> sockaddr_storage \<Rightarrow> u32 \<Rightarrow> bool \<Rightarrow> address statusor result" where
  "addressFromSockAddr net ss ss_len v6only0 =
     (let v6only = (if forceV6 then False else v6only0) in
      case ss of
        Storage_in sin \<Rightarrow> createInstancePtr_ipv4 sin
      | Storage_in6 sin6 \<Rightarrow>
          if \<not> v6only \<and> IN6_IS_ADDR_V4MAPPED (sin6_addr sin6)
          then createInstancePtr_ipv4 (ipv6ToIpv4CompatibleAddress sin6)
          else Inr (createInstancePtr_ipv6 net sin6 v6only)
      | Storage_un sun \<Rightarrow> createInstancePtr_pipe sun ss_len
      | Storage_other n \<Rightarrow> Inr (Inl (InvalidArgumentError ''Unexpected sockaddr family'')))"

definition addressFromSockAddrOrThrow ::
  "os_net \<Rightarrow> sockaddr_storage \<Rightarrow> u32 \<Rightarrow> bool \<Rightarrow> address result" where
  "addressFromSockAddrOrThrow net ss ss_len v6only =
     res_bind (addressFromSockAddr net ss ss_len v6only) throwOnError"

definition addressFromSockAddrOrDie ::
  "os_net \<Rightarrow> sockaddr_storage \<Rightarrow> u32 \<Rightarrow> bool \<Rightarrow> address result" where
  "addressFromSockAddrOrDie net ss ss_len v6only =
     res_bind (addressFromSockAddr net ss ss_len v6only) deref_statusor"

section \<open>Lemmas\<close>

subsection \<open>Bytes of a word\<close>

lemma and_FF: "w AND 0xFF = take_bit 8 (w :: 'a::len word)"
proof -
  have "(0xFF :: 'a word) = mask 8" by (simp add: mask_eq_exp_minus_1)
  then show ?thesis by (simp add: take_bit_eq_mask)
qed

lemma octet_of_nat: "byte_of w i = unat w div 2 ^ (8 * i) mod 256"
proof -
  have "byte_of w i = take_bit 8 (unat (drop_bit (8 * i) w))"
    by (simp only: byte_of_def and_FF unsigned_take_bit_eq)
  then show ?thesis unfolding unsigned_drop_bit_eq by (simp add: take_bit_eq_mod drop_bit_eq_div)
qed

lemma byte_of_less [simp]: "byte_of w i < 256"
  by (simp add: octet_of_nat)

lemma byte_of_drop_bit: "byte_of (drop_bit 8 w) i = byte_of w (Suc i)"
  by (simp add: byte_of_def drop_bit_drop_bit add.commute)

lemma htonl_bytes:
  "byte_of (htonl w) 0 = byte_of w 3" "byte_of (htonl w) 1 = byte_of w 2"
  "byte_of (htonl w) 2 = byte_of w 1" "byte_of (htonl w) 3 = byte_of w 0"
  unfolding byte_of_def htonl_def and_FF
  by (rule arg_cong [where f = unat], rule bit_word_eqI, auto simp: bit_simps)+

lemma htons_htons [simp]: "htons (htons w) = w"
  unfolding htons_def by (rule bit_word_eqI) (auto simp: bit_simps)

definition quad :: "nat \<Rightarrow> nat \<Rightarrow> nat \<Rightarrow> nat \<Rightarrow> u32" where
  "quad a b c d = word_of_nat (a + 256 * b + 65536 * c + 16777216 * d)"

lemma quad_bytes: "quad (byte_of w 0) (byte_of w 1) (byte_of w 2) (byte_of w 3) = w"
proof -
  let ?n = "unat w"
  have "?n < 4294967296" using unat_less_two_power [of w] by simp
  then have "?n div 16777216 mod 256 = ?n div 16777216" by simp
  moreover have "?n = 256 * (?n div 256) + ?n mod 256" by simp
  moreover have "?n div 256 = 256 * (?n div 65536) + ?n div 256 mod 256"
    using mult_div_mod_eq [of 256 "?n div 256"] by (simp add: div_mult2_eq [symmetric])
  moreover have "?n div 65536 = 256 * (?n div 16777216) + ?n div 65536 mod 256"
    using mult_div_mod_eq [of 256 "?n div 65536"] by (simp add: div_mult2_eq [symmetric])
  ultimately have sum: "?n mod 256 + 256 * (?n div 256 mod 256) + 65536 * (?n div 65536 mod 256)
      + 16777216 * (?n div 16777216 mod 256) = ?n" by linarith
  have bytes: "byte_of w 0 = ?n mod 256" "byte_of w 1 = ?n div 256 mod 256" "byte_of w 2 = ?n div 65536 mod 256"
    "byte_of w 3 = ?n div 16777216 mod 256" by (simp_all add: octet_of_nat)
  show ?thesis unfolding quad_def bytes sum by simp
qed

subsection \<open>Dotted decimals\<close>

fun dots :: "nat list \<Rightarrow> string" where
  "dots [] = []"
| "dots [x] = decimal x"
| "dots (x # y # r) = decimal x @ ''.'' @ dots (y # r)"

lemma dots_snoc: "xs \<noteq> [] \<Longrightarrow> dots (xs @ [y]) = dots xs @ ''.'' @ decimal y"
  by (induction xs rule: dots.induct) auto

definition view :: "string \<times> nat \<Rightarrow> string" where
  "view b = drop (snd b) (fst b)"

definition room :: "string \<times> nat \<Rightarrow> nat" where
  "room b = (if snd b \<le> length (fst b) then snd b else 0)"

lemma put_before_view:
  assumes "0 < room b"
  obtains b' where "put_before c b = Inr b'" "view b' = c # view b" "room b' = room b - 1"
proof -
  obtain str start where b: "b = (str, start)" by (cases b)
  then have s: "0 < start" "start \<le> length str" using assms by (auto simp: room_def split: if_splits)
  have "drop (start - 1) (str[start - 1 := c]) = c # drop start str"
    using s by (cases start) (simp_all add: drop_update_cancel Cons_nth_drop_Suc [symmetric])
  then show ?thesis
    using s by (intro that [of "(str[start - 1 := c], start - 1)"]) (simp_all add: b put_before_def view_def room_def)
qed

lemma octet_loop_view:
  "length (decimal n) \<le> room b \<Longrightarrow>
   \<exists>b'. octet_loop n b = Inr b' \<and> view b' = decimal n @ view b \<and> room b' = room b - length (decimal n)"
proof (induction n b rule: octet_loop.induct)
  case (1 n b)
  let ?d = "''0123456789'' ! (n mod 10)"
  have len: "length (decimal n) = Suc (length (if n div 10 = 0 then [] else decimal (n div 10)))"
    by (subst decimal_step) simp
  then have "0 < room b" using "1.prems" by simp
  then obtain b1 where b1: "put_before ?d b = Inr b1" "view b1 = ?d # view b" "room b1 = room b - 1"
    by (rule put_before_view)
  show ?case
  proof (cases "n div 10 = 0")
    case True
    then show ?thesis using b1 len
      by (subst octet_loop.simps, subst (1 2) decimal_step) simp
  next
    case False
    then have "length (decimal (n div 10)) \<le> room b1" using len "1.prems" b1(3) by simp
    then obtain b' where "octet_loop (n div 10) b1 = Inr b'" "view b' = decimal (n div 10) @ view b1"
      "room b' = room b1 - length (decimal (n div 10))"
      using "1.IH" False by blast
    then show ?thesis using False b1 len
      by (subst octet_loop.simps, subst (1 2) decimal_step) simp
  qed
qed

lemma length_decimal_octet: "n < 256 \<Longrightarrow> length (decimal n) \<le> 3"
  unfolding decimal_def length_rev by (rule length_rev_digits) simp_all

lemma decimal_0: "decimal 0 = ''0''"
  by (simp add: decimal_step)

lemma sockaddr_loop_view:
  "4 * i + 3 \<le> room b \<Longrightarrow>
   \<exists>b'. sockaddr_loop (Suc i) a b = Inr b' \<and> view b' = dots (map (byte_of a) (rev [0..<Suc i])) @ view b
     \<and> room b - (4 * i + 3) \<le> room b'"
proof (induction i arbitrary: a b)
  case (Suc i)
  have byte: "unat (a AND 0xFF) = byte_of a 0" by (simp add: byte_of_def)
  have len: "length (decimal (byte_of a 0)) \<le> 3" by (rule length_decimal_octet) simp
  obtain b1 where b1: "(if byte_of a 0 = 0 then put_before (CHR ''0'') b else octet_loop (byte_of a 0) b) = Inr b1"
    "view b1 = decimal (byte_of a 0) @ view b" "room b - 3 \<le> room b1"
  proof (cases "byte_of a 0 = 0")
    case True
    have "0 < room b" using Suc.prems by simp
    then obtain b' where "put_before (CHR ''0'') b = Inr b'" "view b' = CHR ''0'' # view b" "room b' = room b - 1"
      by (rule put_before_view)
    then show ?thesis using True by (intro that [of b']) (simp_all add: decimal_0)
  next
    case False
    then show ?thesis using that octet_loop_view [of "byte_of a 0" b] len Suc.prems by fastforce
  qed
  have "0 < room b1" using b1(3) Suc.prems by simp
  then obtain b2 where b2: "put_before (CHR ''.'') b1 = Inr b2" "view b2 = CHR ''.'' # view b1"
    "room b2 = room b1 - 1" by (rule put_before_view)
  have "4 * i + 3 \<le> room b2" using b1(3) b2(3) Suc.prems by simp
  from Suc.IH [OF this, of "drop_bit 8 a"] obtain b' where
    b': "sockaddr_loop (Suc i) (drop_bit 8 a) b2 = Inr b'"
    "view b' = dots (map (byte_of (drop_bit 8 a)) (rev [0..<Suc i])) @ view b2"
    "room b2 - (4 * i + 3) \<le> room b'" by blast
  have ne: "map (byte_of (drop_bit 8 a)) (rev [0..<Suc i]) \<noteq> []" by simp
  have "map (byte_of a) (rev [0..<Suc (Suc i)]) = map (byte_of (drop_bit 8 a)) (rev [0..<Suc i]) @ [byte_of a 0]"
    unfolding upt_conv_Cons [OF zero_less_Suc] map_Suc_upt [symmetric]
    by (simp add: rev_map [symmetric] o_def byte_of_drop_bit del: upt_Suc)
  then have "dots (map (byte_of a) (rev [0..<Suc (Suc i)])) @ view b = view b'"
    using b'(2) b2(2) b1(2) by (simp only: dots_snoc [OF ne]) simp
  moreover have "sockaddr_loop (Suc (Suc i)) a b = Inr b'"
    using b1(1) b2(1) b'(1) by (subst sockaddr_loop.simps) (simp only: byte Let_def res_bind_simps nat.distinct not_False_eq_True if_True)
  ultimately show ?case using b1(3) b2(3) b'(3) by auto
next
  case 0
  have byte: "unat (a AND 0xFF) = byte_of a 0" by (simp add: byte_of_def)
  have len: "length (decimal (byte_of a 0)) \<le> 3" by (rule length_decimal_octet) simp
  show ?case
  proof (cases "byte_of a 0 = 0")
    case True
    have "0 < room b" using 0 by simp
    then obtain b1 where "put_before (CHR ''0'') b = Inr b1" "view b1 = CHR ''0'' # view b" "room b1 = room b - 1"
      by (rule put_before_view)
    then show ?thesis using True by (simp add: byte decimal_0 Let_def)
  next
    case False
    then show ?thesis using octet_loop_view [of "byte_of a 0" b] len 0
      by (fastforce simp: byte Let_def)
  qed
qed

lemma sockaddrToString_eq: "sockaddrToString addr = Inr (dots (map (byte_of (sin_addr addr)) [0, 1, 2, 3]))"
proof -
  let ?b = "(replicate 16 (CHR 0x00), 16 :: nat)"
  have "4 * 3 + 3 \<le> room ?b" by (simp add: room_def)
  from sockaddr_loop_view [OF this, of "ntohl (sin_addr addr)"] obtain str start where
    b': "sockaddr_loop (Suc 3) (ntohl (sin_addr addr)) ?b = Inr (str, start)"
    "drop start str = dots (map (byte_of (ntohl (sin_addr addr))) (rev [0..<Suc 3])) @ view ?b"
    by (auto simp: view_def)
  have "rev [0..<Suc 3] = [3, 2, 1, 0 :: nat]" by (simp add: upt_rec)
  then have "drop start str = dots (map (byte_of (sin_addr addr)) [0, 1, 2, 3])"
    using b'(2) by (simp add: htonl_bytes [unfolded One_nat_def] ntohl_def view_def)
  moreover have "sockaddr_loop 4 (ntohl (sin_addr addr)) ?b = Inr (str, start)" using b'(1) by simp
  ultimately show ?thesis by (simp add: sockaddrToString_def del: sockaddr_loop.simps)
qed

end
