(* ===== verification/NetAddress.thy ===== *)
theory NetAddress
  imports Address Tokens
begin

text \<open>
  The address functions of \<open>Network::Utility\<close> (\<open>common/network/Utility.h\<close>, \<open>Utility.cpp\<close>): URL schemes,
  parsing of addresses and ports, local and original addresses, address classes, port ranges and the
  byte order of IPv6 addresses. A null \<open>InstanceConstSharedPtr\<close> is \<open>None\<close>.
\<close>

section \<open>Parameters\<close>

text \<open>What is used of \<open>absl\<close> besides \<open>Tokens\<close>, of the interfaces of the host, and of a socket.\<close>

record absl_net = absl +
  StartsWith :: "string \<Rightarrow> string \<Rightarrow> bool"
  StrContains :: "string \<Rightarrow> char \<Rightarrow> bool"
  SimpleAtoi :: "string \<Rightarrow> nat option"

definition absl_net_contract :: "absl_net \<Rightarrow> bool" where
  "absl_net_contract a \<longleftrightarrow>
     absl_contract (absl.truncate a)
     \<and> (\<forall>s p. StartsWith a s p = (take (length p) s = p))
     \<and> (\<forall>s c. StrContains a s c = (c \<in> set s))"

record os_interfaces =
  supportsGetifaddrs :: bool
  getifaddrs :: "int \<times> address list"

text \<open>
  The socket of \<open>getOriginalDst\<close>: what the two \<open>getSocketOption\<close> calls return and write, by the IP
  version asked for, and the local address of its handle.
\<close>

record socket_view =
  sock_addressType :: address_type
  sock_ipVersion :: "ip_version option"
  sock_original_dst :: "ip_version \<Rightarrow> int \<times> sockaddr_storage"
  sock_transparent :: "ip_version \<Rightarrow> int \<times> int"
  sock_localAddress :: "address option"

section \<open>Schemes\<close>

datatype socket_type = Stream | Datagram

definition TCP_SCHEME :: string where "TCP_SCHEME = ''tcp://''"
definition UDP_SCHEME :: string where "UDP_SCHEME = ''udp://''"
definition UNIX_SCHEME :: string where "UNIX_SCHEME = ''unix://''"

definition urlIsTcpScheme :: "absl_net \<Rightarrow> string \<Rightarrow> bool" where
  "urlIsTcpScheme a url = StartsWith a url TCP_SCHEME"

definition urlIsUdpScheme :: "absl_net \<Rightarrow> string \<Rightarrow> bool" where
  "urlIsUdpScheme a url = StartsWith a url UDP_SCHEME"

definition urlIsUnixScheme :: "absl_net \<Rightarrow> string \<Rightarrow> bool" where
  "urlIsUnixScheme a url = StartsWith a url UNIX_SCHEME"

definition socketTypeFromUrl :: "absl_net \<Rightarrow> string \<Rightarrow> socket_type statusor" where
  "socketTypeFromUrl a url =
     (if urlIsTcpScheme a url then Inr Stream
      else if urlIsUdpScheme a url then Inr Datagram
      else if urlIsUnixScheme a url then Inr Stream
      else Inl (InvalidArgumentError (''unknown protocol scheme: '' @ url)))"

section \<open>Parsing addresses\<close>

definition instanceOrNull :: "address statusor \<Rightarrow> address option" where
  "instanceOrNull addr = (case addr of Inr i \<Rightarrow> Some i | Inl st \<Rightarrow> None)"

definition parseV4Address :: "os_net \<Rightarrow> string \<Rightarrow> u16 \<Rightarrow> sockaddr_in statusor" where
  "parseV4Address net ip_address port =
     (case inet_pton4 net (c_str ip_address) of
        None \<Rightarrow> Inl (FailedPreconditionError ''failed parsing ipv4'')
      | Some a \<Rightarrow> Inr \<lparr>sin_family = AF_INET, sin_port = htons port, sin_addr = a\<rparr>)"

definition fmt_int :: "int \<Rightarrow> string" where
  "fmt_int i = (if i < 0 then ''-'' @ decimal (nat (- i)) else decimal (nat i))"

definition parseV6Address :: "os_net \<Rightarrow> string \<Rightarrow> u16 \<Rightarrow> sockaddr_in6 statusor" where
  "parseV6Address net ip_address port =
     (case find_last (\<lambda>c. c = CHR ''%'') ip_address of
        None \<Rightarrow>
          (case inet_pton6 net (c_str ip_address) of
             None \<Rightarrow> Inl (FailedPreconditionError ''failed parsing ipv6'')
           | Some a \<Rightarrow> Inr (sockaddr_in6_zero\<lparr>sin6_addr := a, sin6_family := AF_INET6, sin6_port := htons port\<rparr>))
      | Some scope_pos \<Rightarrow>
          (case getaddrinfo6 net (c_str ip_address) of
             Inl rc \<Rightarrow> Inl (FailedPreconditionError (''getaddrinfo error: '' @ fmt_int rc))
           | Inr res \<Rightarrow> Inr (res\<lparr>sin6_port := htons port\<rparr>)))"

definition throwWithMalformedIp :: "string \<Rightarrow> 'a result" where
  "throwWithMalformedIp ip_address = Inl (Envoy_exception (''malformed IP address: '' @ ip_address))"

definition parseInternetAddressNoThrow :: "os_net \<Rightarrow> string \<Rightarrow> u16 \<Rightarrow> bool \<Rightarrow> address option result" where
  "parseInternetAddressNoThrow net ip_address port v6only =
     (case parseV4Address net ip_address port of
        Inr sa4 \<Rightarrow> res_bind (createInstancePtr_ipv4 sa4) (\<lambda>i. Inr (instanceOrNull i))
      | Inl _ \<Rightarrow>
          (case parseV6Address net ip_address port of
             Inr sa6 \<Rightarrow> Inr (instanceOrNull (createInstancePtr_ipv6 net sa6 v6only))
           | Inl _ \<Rightarrow> Inr None))"

definition parseInternetAddress :: "os_net \<Rightarrow> string \<Rightarrow> u16 \<Rightarrow> bool \<Rightarrow> address result" where
  "parseInternetAddress net ip_address port v6only =
     res_bind (parseInternetAddressNoThrow net ip_address port v6only) (\<lambda>addr.
       case addr of None \<Rightarrow> throwWithMalformedIp ip_address | Some i \<Rightarrow> Inr i)"

text \<open>\<open>rfind\<close> of a string: the last position at which it starts.\<close>

definition rfind_sub :: "string \<Rightarrow> string \<Rightarrow> nat option" where
  "rfind_sub needle s =
     find_last (\<lambda>k. take (length needle) (drop k s) = needle) [0..<Suc (length s)]"

text \<open>The port after the last colon: not empty, a number, at most 65535.\<close>

definition port_ok :: "absl_net \<Rightarrow> string \<Rightarrow> u16 option" where
  "port_ok a port_str =
     (if port_str = [] then None
      else case SimpleAtoi a port_str of
          None \<Rightarrow> None
        | Some port64 \<Rightarrow> if port64 > 65535 then None else Some (word_of_nat port64))"

definition parseInternetAddressAndPortNoThrow ::
  "absl_net \<Rightarrow> os_net \<Rightarrow> string \<Rightarrow> bool \<Rightarrow> address option result" where
  "parseInternetAddressAndPortNoThrow a net ip_address v6only =
     (if ip_address = [] then Inr None
      else if hd ip_address = CHR ''['' then
        (case rfind_sub '']:'' ip_address of
           None \<Rightarrow> Inr None
         | Some pos \<Rightarrow>
             res_bind (substr ip_address 1 (Some (pos - 1))) (\<lambda>ip_str.
             res_bind (substr ip_address (pos + 2) None) (\<lambda>port_str.
               case port_ok a port_str of
                 None \<Rightarrow> Inr None
               | Some port \<Rightarrow>
                   (case parseV6Address net ip_str port of
                      Inr sa6 \<Rightarrow> Inr (instanceOrNull (createInstancePtr_ipv6 net sa6 v6only))
                    | Inl _ \<Rightarrow> Inr None))))
      else
        (case find_last (\<lambda>c. c = CHR '':'') ip_address of
           None \<Rightarrow> Inr None
         | Some pos \<Rightarrow>
             res_bind (substr ip_address 0 (Some pos)) (\<lambda>ip_str.
             res_bind (substr ip_address (pos + 1) None) (\<lambda>port_str.
               case port_ok a port_str of
                 None \<Rightarrow> Inr None
               | Some port \<Rightarrow>
                   (case parseV4Address net ip_str port of
                      Inr sa4 \<Rightarrow> res_bind (createInstancePtr_ipv4 sa4) (\<lambda>i. Inr (instanceOrNull i))
                    | Inl _ \<Rightarrow> Inr None)))))"

definition parseInternetAddressAndPort :: "absl_net \<Rightarrow> os_net \<Rightarrow> string \<Rightarrow> bool \<Rightarrow> address result" where
  "parseInternetAddressAndPort a net ip_address v6only =
     res_bind (parseInternetAddressAndPortNoThrow a net ip_address v6only) (\<lambda>addr.
       case addr of None \<Rightarrow> throwWithMalformedIp ip_address | Some i \<Rightarrow> Inr i)"

definition resolveUrl :: "absl_net \<Rightarrow> os_net \<Rightarrow> string \<Rightarrow> address result" where
  "resolveUrl a net url =
     (if urlIsTcpScheme a url then
        res_bind (substr url (length TCP_SCHEME) None) (\<lambda>s. parseInternetAddressAndPort a net s True)
      else if urlIsUdpScheme a url then
        res_bind (substr url (length UDP_SCHEME) None) (\<lambda>s. parseInternetAddressAndPort a net s True)
      else if urlIsUnixScheme a url then
        res_bind (substr url (length UNIX_SCHEME) None) (\<lambda>s.
          res_bind (PipeInstance_path s 0) (\<lambda>p. Inr (PipeAddress p)))
      else Inl (Envoy_exception (''unknown protocol scheme: '' @ url)))"

text \<open>Copies: the address is parsed again from its string. The argument is an \<open>Ip\<close>.\<close>

definition copyInternetAddressAndPort :: "os_net \<Rightarrow> address \<Rightarrow> address result" where
  "copyInternetAddressAndPort net ip =
     (case (ip_version_of ip, addressAsString ip, ip_port ip) of
        (Some V4, Some s, Some p) \<Rightarrow> res_bind (Ipv4Instance_string net s (ucast p)) (\<lambda>i. Inr (Ipv4Address i))
      | (Some V6, Some s, Some p) \<Rightarrow> res_bind (Ipv6Instance_string net s (ucast p) True) (\<lambda>i. Inr (Ipv6Address i))
      | _ \<Rightarrow> Inl Undefined_behaviour)"

definition getAddressWithPort :: "os_net \<Rightarrow> address \<Rightarrow> u32 \<Rightarrow> address result" where
  "getAddressWithPort net addr port =
     (case (ip_version_of addr, addressAsString addr) of
        (Some V4, Some s) \<Rightarrow> res_bind (Ipv4Instance_string net s port) (\<lambda>i. Inr (Ipv4Address i))
      | (Some V6, Some s) \<Rightarrow> res_bind (Ipv6Instance_string net s port True) (\<lambda>i. Inr (Ipv6Address i))
      | _ \<Rightarrow> Inl Undefined_behaviour)"

section \<open>Classes of addresses\<close>

definition INADDR_LOOPBACK :: u32 where
  "INADDR_LOOPBACK = 0x7F000001"

fun isLoopbackAddress :: "address \<Rightarrow> bool" where
  "isLoopbackAddress (Ipv4Address i) \<longleftrightarrow> sin_addr (v4_sockaddr i) = htonl INADDR_LOOPBACK"
| "isLoopbackAddress (Ipv6Address i) \<longleftrightarrow> sin6_addr (v6_sockaddr i) = in6addr_loopback"
| "isLoopbackAddress _ \<longleftrightarrow> False"

fun isInternalAddress :: "address \<Rightarrow> bool" where
  "isInternalAddress (Ipv4Address i) \<longleftrightarrow>
     (let address4 = sin_addr (v4_sockaddr i); address4_bytes = byte_of address4 in
      address4_bytes 0 = 10 \<or> (address4_bytes 0 = 192 \<and> address4_bytes 1 = 168)
      \<or> (address4_bytes 0 = 172 \<and> address4_bytes 1 \<ge> 16 \<and> address4_bytes 1 \<le> 31)
      \<or> address4 = htonl INADDR_LOOPBACK)"
| "isInternalAddress (Ipv6Address i) \<longleftrightarrow>
     (let address6 = sin6_addr (v6_sockaddr i) in
      byte_of address6 0 = 0xFD \<or> address6 = in6addr_loopback)"
| "isInternalAddress _ \<longleftrightarrow> False"

definition isSameIpOrLoopback :: "address \<Rightarrow> address \<Rightarrow> bool" where
  "isSameIpOrLoopback remote_address local_address =
     (if addr_type remote_address = Pipe \<or> isLoopbackAddress remote_address then True
      else case (addressAsString remote_address, addressAsString local_address) of
          (Some r, Some l) \<Rightarrow> r = l
        | _ \<Rightarrow> False)"

section \<open>Well-known and local addresses\<close>

definition getCanonicalIpv4LoopbackAddress :: "os_net \<Rightarrow> address result" where
  "getCanonicalIpv4LoopbackAddress net =
     res_bind (Ipv4Instance_string net ''127.0.0.1'' 0) (\<lambda>i. Inr (Ipv4Address i))"

definition getIpv6LoopbackAddress :: "os_net \<Rightarrow> address result" where
  "getIpv6LoopbackAddress net =
     res_bind (Ipv6Instance_string net ''::1'' 0 True) (\<lambda>i. Inr (Ipv6Address i))"

definition getIpv4AnyAddress :: "address result" where
  "getIpv4AnyAddress = res_bind (Ipv4Instance_port 0) (\<lambda>i. Inr (Ipv4Address i))"

definition getIpv6AnyAddress :: "os_net \<Rightarrow> address result" where
  "getIpv6AnyAddress net = res_bind (Ipv6Instance_port net 0) (\<lambda>i. Inr (Ipv6Address i))"

definition getIpv4CidrCatchAllAddress :: string where
  "getIpv4CidrCatchAllAddress = ''0.0.0.0/0''"

definition getIpv6CidrCatchAllAddress :: string where
  "getIpv6CidrCatchAllAddress = ''::/0''"

text \<open>\<open>getLocalAddress\<close>; an interface address without \<open>ip()\<close> is a null dereference.\<close>

fun first_local :: "ip_version \<Rightarrow> address list \<Rightarrow> address option result" where
  "first_local version [] = Inr None"
| "first_local version (i # rest) =
     (if isLoopbackAddress i then first_local version rest
      else case ip_version_of i of
          None \<Rightarrow> Inl Undefined_behaviour
        | Some v \<Rightarrow> if v = version then Inr (Some i) else first_local version rest)"

definition getLocalAddress :: "os_net \<Rightarrow> os_interfaces \<Rightarrow> ip_version \<Rightarrow> address result" where
  "getLocalAddress net ifs version =
     res_bind
       (if supportsGetifaddrs ifs then
          let (rc, interface_addresses) = getifaddrs ifs in
          release_assert_then (rc = 0) (first_local version interface_addresses)
        else Inr None) (\<lambda>ret.
     case ret of
       Some i \<Rightarrow> Inr i
     | None \<Rightarrow>
         (case version of
            V4 \<Rightarrow> res_bind (Ipv4Instance_string net ''127.0.0.1'' 0) (\<lambda>i. Inr (Ipv4Address i))
          | V6 \<Rightarrow> res_bind (Ipv6Instance_string net ''::1'' 0 True) (\<lambda>i. Inr (Ipv6Address i))))"

definition getOriginalDst :: "os_net \<Rightarrow> bool \<Rightarrow> socket_view \<Rightarrow> address option result" where
  "getOriginalDst net supportsIpTransparent sock =
     (if sock_addressType sock \<noteq> Ip then Inr None
      else case sock_ipVersion sock of
          None \<Rightarrow> Inr None
        | Some ipVersion \<Rightarrow>
            let (status, orig_addr) = sock_original_dst sock ipVersion in
            if status \<noteq> 0 then
              if supportsIpTransparent then
                let (status1, is_tp) = sock_transparent sock ipVersion in
                if status1 = 0 \<and> is_tp \<noteq> 0 then Inr (sock_localAddress sock) else Inr None
              else Inr None
            else res_bind (addressFromSockAddrOrDie net orig_addr 0 True) (\<lambda>i. Inr (Some i)))"
end
