(* ===== verification/NetPorts.thy ===== *)
theory NetPorts
  imports NetAddress
begin

text \<open>
  Port ranges and the IPv6 byte order of \<open>Network::Utility\<close>: \<open>PortRange\<close>, \<open>parsePortRangeList\<close> with
  the \<open>std::stringstream\<close> it reads numbers with, \<open>portInRangeList\<close>, \<open>flipOrder\<close>, \<open>Ip6ntohl\<close> and
  \<open>Ip6htonl\<close>.
\<close>

section \<open>Definitions\<close>

type_synonym port_range = "nat \<times> nat"

definition range_contains :: "port_range \<Rightarrow> nat \<Rightarrow> bool" where
  "range_contains r port \<longleftrightarrow> port \<ge> fst r \<and> port \<le> snd r"

text \<open>
  The input stream: what is left to read and the two state bits. Formatted extraction first skips
  white space and fails on a stream that is not good or has nothing left; extraction of a
  \<open>uint32_t\<close> takes an optional sign and the digits after it, sets \<open>eofbit\<close> when it looks past the
  end, fails without digits (0 is stored) or when the number needs more than 32 bits (the maximum is
  stored), and negates modulo \<open>2 ^ 32\<close> after a minus sign (libstdc++).
\<close>

record istream =
  is_rest :: string
  is_eof :: bool
  is_fail :: bool

definition istream_of :: "string \<Rightarrow> istream" where
  "istream_of s = \<lparr>is_rest = s, is_eof = False, is_fail = False\<rparr>"

definition sentry :: "istream \<Rightarrow> istream" where
  "sentry ss =
     (if is_eof ss \<or> is_fail ss then ss\<lparr>is_fail := True\<rparr>
      else let r = dropWhile c_isspace (is_rest ss) in
        if r = [] then ss\<lparr>is_rest := [], is_eof := True, is_fail := True\<rparr> else ss\<lparr>is_rest := r\<rparr>)"

definition extract_char :: "istream \<Rightarrow> istream" where
  "extract_char ss =
     (let ss1 = sentry ss in if is_fail ss1 then ss1 else ss1\<lparr>is_rest := tl (is_rest ss1)\<rparr>)"

definition extract_u32 :: "nat \<Rightarrow> istream \<Rightarrow> nat \<times> istream" where
  "extract_u32 old ss =
     (let ss1 = sentry ss in
      if is_fail ss1 then (old, ss1)
      else let r = is_rest ss1;
               negative = (hd r = CHR ''-'');
               r1 = (if negative \<or> hd r = CHR ''+'' then tl r else r);
               ds = takeWhile (is_digit_in 10) r1;
               rest = dropWhile (is_digit_in 10) r1;
               v = digits_value 10 ds;
               ss2 = ss1\<lparr>is_rest := rest, is_eof := (rest = [])\<rparr>
        in if ds = [] then (0, ss2\<lparr>is_fail := True\<rparr>)
           else if v \<ge> 2 ^ 32 then (2 ^ 32 - 1, ss2\<lparr>is_fail := True\<rparr>)
           else (if negative then (2 ^ 32 - v) mod 2 ^ 32 else v, ss2))"

definition parse_range :: "absl_net \<Rightarrow> string \<Rightarrow> port_range option" where
  "parse_range a s =
     (let ss = istream_of s;
          (min_port, max_port, ss1) =
            (if StrContains a s (CHR ''-'') then
               let (mn, ss_a) = extract_u32 0 ss;
                   ss_b = extract_char ss_a;
                   (mx, ss_c) = extract_u32 0 ss_b
               in (mn, mx, ss_c)
             else let (mn, ss_a) = extract_u32 0 ss in (mn, mn, ss_a))
      in if s = [] \<or> min_port > 65535 \<or> max_port > 65535 \<or> is_fail ss1 \<or> \<not> is_eof ss1
         then None else Some (min_port, max_port))"

fun parse_ranges :: "absl_net \<Rightarrow> string list \<Rightarrow> port_range list \<Rightarrow> port_range list \<times> error option" where
  "parse_ranges a [] list = (list, None)"
| "parse_ranges a (s # ss) list =
     (case parse_range a s of
        None \<Rightarrow> (list, Some (Envoy_exception (''invalid port number or range '' @ [CHR 0x27] @ s @ [CHR 0x27])))
      | Some r \<Rightarrow> parse_ranges a ss (list @ [r]))"

text \<open>The list is filled as far as it parses, also when the function throws.\<close>

definition parsePortRangeList :: "absl_net \<Rightarrow> string \<Rightarrow> port_range list \<Rightarrow> port_range list \<times> error option" where
  "parsePortRangeList a s list = parse_ranges a (splitToken (absl.truncate a) s '','' False False) list"

definition portInRangeList :: "address \<Rightarrow> port_range list \<Rightarrow> bool" where
  "portInRangeList addr list =
     (case ip_port addr of
        None \<Rightarrow> False
      | Some port \<Rightarrow> list_ex (\<lambda>p. range_contains p (unat port)) list)"

fun flip_loop :: "nat \<Rightarrow> u128 \<Rightarrow> u128 \<Rightarrow> u128" where
  "flip_loop 0 result data = result"
| "flip_loop (Suc n) result data = flip_loop n (push_bit 8 result OR (data AND 0xFF)) (drop_bit 8 data)"

definition flipOrder :: "u128 \<Rightarrow> u128" where
  "flipOrder input = flip_loop 16 0 input"

text \<open>On a little-endian host.\<close>

definition Ip6ntohl :: "u128 \<Rightarrow> u128" where
  "Ip6ntohl addr = flipOrder addr"

definition Ip6htonl :: "u128 \<Rightarrow> u128" where
  "Ip6htonl addr = flipOrder addr"

section \<open>Byte order\<close>

lemma flip_loop_bit:
  "n \<le> 16 \<Longrightarrow> k < 128 \<Longrightarrow>
   bit (flip_loop n result data) k =
     (if k < 8 * n then bit data (8 * (n - 1 - k div 8) + k mod 8) else bit result (k - 8 * n))"
proof (induction n arbitrary: result data)
  case (Suc n)
  have step: "bit (push_bit 8 result OR (data AND 0xFF)) j = (if j < 8 then bit data j else bit result (j - 8))"
    if "j < 128" for j
    using that by (simp add: and_FF bit_simps)
  show ?case
  proof (cases "k < 8 * n")
    case True
    then have "k div 8 < n" by (simp add: div_less_iff_less_mult mult.commute)
    then have "8 + (8 * (n - 1 - k div 8) + k mod 8) = 8 * (Suc n - 1 - k div 8) + k mod 8" by simp
    then show ?thesis using True Suc by (simp add: bit_drop_bit_eq add.assoc [symmetric])
  next
    case False
    have "k - 8 * n < 128" using Suc.prems by simp
    have "bit (flip_loop (Suc n) result data) k = bit (push_bit 8 result OR (data AND 0xFF)) (k - 8 * n)"
      using False Suc by simp
    also have "\<dots> = (if k - 8 * n < 8 then bit data (k - 8 * n) else bit result (k - 8 * n - 8))"
      by (rule step) fact
    also have "\<dots> = (if k < 8 * Suc n then bit data (8 * (Suc n - 1 - k div 8) + k mod 8)
        else bit result (k - 8 * Suc n))"
    proof (cases "k < 8 * Suc n")
      case True
      then have "k - 8 * n < 8" using False by simp
      moreover have "k div 8 = n" using True False by (intro div_nat_eqI) simp_all
      moreover from this have "k mod 8 = k - 8 * n" using mult_div_mod_eq [of 8 k] by linarith
      ultimately show ?thesis using True False by simp
    next
      case big: False
      then have "\<not> k - 8 * n < 8" "k - 8 * n - 8 = k - 8 * Suc n" by simp_all
      then show ?thesis using big by simp
    qed
    finally show ?thesis .
  qed
qed simp

lemma flipOrder_bit: "k < 128 \<Longrightarrow> bit (flipOrder w) k = bit w (8 * (15 - k div 8) + k mod 8)"
  unfolding flipOrder_def by (subst flip_loop_bit) simp_all

lemma flipOrder_bytes: "i < 16 \<Longrightarrow> byte_of (flipOrder w) i = byte_of w (15 - i)"
proof -
  assume i: "i < 16"
  have "drop_bit (8 * i) (flipOrder w) AND 0xFF = drop_bit (8 * (15 - i)) w AND 0xFF"
  proof (rule bit_word_eqI)
    fix n :: nat
    assume "n < LENGTH(128)"
    show "bit (drop_bit (8 * i) (flipOrder w) AND 0xFF) n = bit (drop_bit (8 * (15 - i)) w AND 0xFF) n"
    proof (cases "n < 8")
      case True
      then have "(8 * i + n) div 8 = i" "(8 * i + n) mod 8 = n" "8 * i + n < 128" using i by simp_all
      then show ?thesis using True by (simp add: and_FF bit_simps flipOrder_bit add.commute)
    qed (simp add: and_FF bit_simps)
  qed
  then show ?thesis by (simp add: byte_of_def)
qed

lemma flipOrder_flipOrder [simp]: "flipOrder (flipOrder w) = w"
proof (rule bit_word_eqI)
  fix k :: nat
  assume "k < LENGTH(128)"
  then have k: "k < 128" by simp
  let ?j = "8 * (15 - k div 8) + k mod 8"
  have d: "k div 8 < 16" using k by (simp add: div_less_iff_less_mult)
  have "?j div 8 = 15 - k div 8" "?j mod 8 = k mod 8" by simp_all
  moreover have "8 * (15 - k div 8) \<le> 120" "k mod 8 < 8" by simp_all
  then have "?j < 128" by linarith
  moreover have "15 - (15 - k div 8) = k div 8" using d by simp
  ultimately show "bit (flipOrder (flipOrder w)) k = bit w k"
    using k by (simp add: flipOrder_bit)
qed

section \<open>Port ranges\<close>

text \<open>The text form of a range: one port, or its ends with a dash between them.\<close>

definition show_range :: "port_range \<Rightarrow> string" where
  "show_range r = (if fst r = snd r then decimal (fst r) else decimal (fst r) @ ''-'' @ decimal (snd r))"

fun with_commas :: "string list \<Rightarrow> string" where
  "with_commas [] = []"
| "with_commas [s] = s"
| "with_commas (s # t # ss) = s @ '','' @ with_commas (t # ss)"

lemma decimal_hd: "\<not> c_isspace (hd (decimal n))" "hd (decimal n) \<noteq> CHR ''-''" "hd (decimal n) \<noteq> CHR ''+''"
  using decimal_digitD [OF decimal_digits(1) [OF hd_in_set [OF decimal_digits(2)]]] by auto

lemma digits_of_decimal:
  assumes "r = [] \<or> \<not> is_digit_in 10 (hd r)"
  shows "takeWhile (is_digit_in 10) (decimal n @ r) = decimal n" "dropWhile (is_digit_in 10) (decimal n @ r) = r"
proof -
  have "\<forall>c\<in>set (decimal n). is_digit_in 10 c" using decimal_digits(1) decimal_digitD(1) by blast
  then show "takeWhile (is_digit_in 10) (decimal n @ r) = decimal n" "dropWhile (is_digit_in 10) (decimal n @ r) = r"
    using assms by (cases r; simp)+
qed

lemma digits_value_decimal: "digits_value 10 (decimal n) = n"
  by (simp add: decimal_def digits_value_rev_digits)

lemma extract_decimal:
  assumes "n < 2 ^ 32" "r = [] \<or> \<not> is_digit_in 10 (hd r)"
  shows "extract_u32 old \<lparr>is_rest = decimal n @ r, is_eof = False, is_fail = False\<rparr> =
    (n, \<lparr>is_rest = r, is_eof = (r = []), is_fail = False\<rparr>)"
proof -
  have ne: "decimal n \<noteq> []" by (rule decimal_digits)
  have hd: "hd (decimal n @ r) = hd (decimal n)" using ne by simp
  have "dropWhile c_isspace (decimal n @ r) = decimal n @ r"
    using decimal_hd(1) [of n] ne by (cases "decimal n") auto
  then have "sentry \<lparr>is_rest = decimal n @ r, is_eof = False, is_fail = False\<rparr> =
      \<lparr>is_rest = decimal n @ r, is_eof = False, is_fail = False\<rparr>" using ne by (simp add: sentry_def)
  then show ?thesis
    using assms(1) ne decimal_hd(2,3) [of n]
    by (simp add: extract_u32_def Let_def hd digits_of_decimal [OF assms(2)] digits_value_decimal)
qed

lemma show_range_chars: "c \<in> set (show_range r) \<Longrightarrow> decimal_digit c \<or> c = CHR ''-''"
  using decimal_digits(1) by (auto simp: show_range_def split: if_splits)

lemma show_range_ne [simp]: "show_range r \<noteq> []"
  using decimal_digits(2) by (simp add: show_range_def)

lemma dash_no_digit: "\<not> is_digit_in 10 (CHR ''-'')" "\<not> decimal_digit (CHR '','')" "\<not> decimal_digit (CHR ''-'')"
proof -
  show dash: "\<not> is_digit_in 10 (CHR ''-'')" by (simp add: is_digit_in_def digit_value_def)
  have "\<not> is_digit_in 10 (CHR '','')" by (simp add: is_digit_in_def digit_value_def)
  then show "\<not> decimal_digit (CHR '','')" using decimal_digitD(1) by blast
  show "\<not> decimal_digit (CHR ''-'')" using dash decimal_digitD(1) by blast
qed

lemma parse_range_show:
  assumes "absl_net_contract a" "fst r \<le> 65535" "snd r \<le> 65535"
  shows "parse_range a (show_range r) = Some r"
proof -
  have small: "fst r < 2 ^ 32" "snd r < 2 ^ 32" using assms(2,3) by simp_all
  have contains: "StrContains a s c = (c \<in> set s)" for s c using assms(1) by (simp add: absl_net_contract_def)
  show ?thesis
  proof (cases "fst r = snd r")
    case True
    have "CHR ''-'' \<notin> set (decimal (snd r))" using decimal_digits(1) dash_no_digit(3) by blast
    then show ?thesis
      using True assms(3) extract_decimal [OF small(2), of "[]" 0] decimal_digits(2) [of "snd r"]
      by (cases r) (simp add: parse_range_def show_range_def contains istream_of_def)
  next
    case False
    have "extract_char \<lparr>is_rest = ''-'' @ decimal (snd r), is_eof = False, is_fail = False\<rparr> =
        \<lparr>is_rest = decimal (snd r), is_eof = False, is_fail = False\<rparr>"
      by (simp add: extract_char_def sentry_def c_isspace_def)
    then show ?thesis
      using False assms(2,3) extract_decimal [OF small(1), of "''-'' @ decimal (snd r)" 0]
        extract_decimal [OF small(2), of "[]" 0] dash_no_digit(1)
      by (cases r) (simp add: parse_range_def show_range_def contains istream_of_def)
  qed
qed

lemma parse_ranges_show:
  "absl_net_contract a \<Longrightarrow> \<forall>r\<in>set rs. fst r \<le> 65535 \<and> snd r \<le> 65535 \<Longrightarrow>
   parse_ranges a (map show_range rs) list = (list @ rs, None)"
  by (induction rs arbitrary: list) (simp_all add: parse_range_show)

lemma split_any_snoc_free:
  "\<forall>c\<in>set s. c \<notin> set d \<Longrightarrow> split_any d (s @ rest) =
     (case split_any d rest of [] \<Rightarrow> [s] | w # ws \<Rightarrow> (s @ w) # ws)"
  by (induction s) (auto split: list.splits)

lemma split_with_commas:
  "ss \<noteq> [] \<Longrightarrow> \<forall>s\<in>set ss. CHR '','' \<notin> set s \<Longrightarrow> split_any '','' (with_commas ss) = ss"
proof (induction ss rule: with_commas.induct)
  case (2 s)
  then have "\<forall>c\<in>set s. c \<noteq> CHR '',''" by auto
  then show ?case using split_any_snoc_free [of s "'',''" "[]"] by simp
next
  case (3 s t ss)
  then have "\<forall>c\<in>set s. c \<noteq> CHR '',''" by auto
  then show ?case using split_any_snoc_free [of s "'',''" "'','' @ with_commas (t # ss)"] 3 by simp
qed simp

lemma parsePortRangeList_show:
  assumes "absl_net_contract a" "\<forall>r\<in>set rs. fst r \<le> 65535 \<and> snd r \<le> 65535"
  shows "parsePortRangeList a (with_commas (map show_range rs)) list = (list @ rs, None)"
proof -
  have split: "splitToken (absl.truncate a) s '','' False False = filter SkipEmpty (split_any '','' s)" for s
    using assms(1) by (simp add: absl_net_contract_def absl_contract_def splitToken_def)
  have "filter SkipEmpty (split_any '','' (with_commas (map show_range rs))) = map show_range rs"
  proof (cases "rs = []")
    case False
    have "\<forall>s\<in>set (map show_range rs). CHR '','' \<notin> set s" using show_range_chars dash_no_digit(2) by fastforce
    then have "split_any '','' (with_commas (map show_range rs)) = map show_range rs"
      using False by (intro split_with_commas) simp_all
    then show ?thesis by (simp add: SkipEmpty_def)
  qed (simp add: SkipEmpty_def)
  then show ?thesis using parse_ranges_show [OF assms] by (simp add: parsePortRangeList_def split)
qed

end
