(* ===== verification/NetUdp.thy ===== *)
theory NetUdp
  imports NetAddress BufferReserve
begin

text \<open>
  Datagrams in \<open>Network::Utility\<close> (\<open>common/network/Utility.cpp\<close>): \<open>writeToSocket\<close>, \<open>readFromSocket\<close> with
  its three ways of receiving (a large receive that is cut into segments, several messages at once,
  one message) and the loop \<open>readPacketsFromSocket\<close>. \<open>IoHandle\<close> is an interface without an implementation
  in the tree: it is a record of functions over a state \<open>'h\<close>, a parameter of every definition.
  What the code calls on the \<open>UdpPacketProcessor\<close> is recorded as a list of events, in call order, with
  the buffer each packet is handed over in. Log output is left out.
\<close>

section \<open>Interfaces\<close>

datatype io_error_code =
    Again | NoSupport | AddressFamilyNoSupport | InProgress | Permission | MessageTooBig
  | Interrupt | AddressNotAvailable | BadFd | ConnectionReset | NetworkUnreachable | UnknownError

record io_result =
  io_value :: nat
  io_err :: "io_error_code option"

definition io_ok :: "io_result \<Rightarrow> bool" where
  "io_ok r \<longleftrightarrow> io_err r = None"

text \<open>\<open>RecvMsgPerPacketInfo\<close>, with its default values.\<close>

record packet_info =
  pi_local :: "address option"
  pi_peer :: "address option"
  pi_len :: u32
  pi_gso :: u32
  pi_truncated :: bool

definition packet_info_new :: packet_info where
  "packet_info_new = \<lparr>pi_local = None, pi_peer = None, pi_len = 0, pi_gso = 0, pi_truncated = False\<rparr>"

text \<open>
  The calls on the handle. \<open>recvmsg\<close> gets the length of the slice, its own port and the counter of
  dropped packets, and gives the bytes it wrote to the slice, the information on the packet, the new
  counter and its result; \<open>recvmmsg\<close> gets the lengths of several slices and gives the bytes and
  information for each message.
\<close>

record 'h io_handle =
  h_sendmsg :: "byte list list \<Rightarrow> address option \<Rightarrow> address \<Rightarrow> 'h \<Rightarrow> io_result \<times> 'h"
  h_recvmsg :: "nat \<Rightarrow> u16 \<Rightarrow> u32 \<Rightarrow> 'h \<Rightarrow> (byte list \<times> packet_info \<times> u32 \<times> io_result) \<times> 'h"
  h_recvmmsg :: "nat list \<Rightarrow> u16 \<Rightarrow> u32 \<Rightarrow> 'h \<Rightarrow> ((byte list \<times> packet_info) list \<times> u32 \<times> io_result) \<times> 'h"
  h_supportsMmsg :: bool
  h_supportsUdpGro :: bool

record udp_processor =
  maxDatagramSize :: nat
  numPacketsExpectedPerEventLoop :: nat

datatype udp_event =
    Packet_processed "address option" "address option" owned nat
  | Datagrams_dropped u32

definition NUM_DATAGRAMS_PER_RECEIVE :: nat where
  "NUM_DATAGRAMS_PER_RECEIVE = 16"

definition MAX_NUM_PACKETS_PER_EVENT_LOOP :: nat where
  "MAX_NUM_PACKETS_PER_EVENT_LOOP = 6000"

section \<open>Sending\<close>

partial_function (option) writeToSocket_slices ::
  "'h io_handle \<Rightarrow> byte list list \<Rightarrow> address option \<Rightarrow> address \<Rightarrow> 'h \<Rightarrow> (io_result \<times> 'h) option" where
  "writeToSocket_slices h slices local_ip peer_address st =
     (let send_result = h_sendmsg h slices local_ip peer_address st in
      if \<not> io_ok (fst send_result) \<and> io_err (fst send_result) = Some Interrupt
      then writeToSocket_slices h slices local_ip peer_address (snd send_result)
      else Some send_result)"

definition writeToSocket ::
  "'h io_handle \<Rightarrow> owned \<Rightarrow> address option \<Rightarrow> address \<Rightarrow> 'h \<Rightarrow> (io_result \<times> 'h) option" where
  "writeToSocket h buffer local_ip peer_address st =
     writeToSocket_slices h (getRawSlices None buffer) local_ip peer_address st"

section \<open>Receiving\<close>

definition receiveMessage ::
  "nat \<Rightarrow> 'h io_handle \<Rightarrow> u16 \<Rightarrow> owned \<Rightarrow> u32 \<Rightarrow> 'h \<Rightarrow> (io_result \<times> packet_info \<times> owned \<times> u32 \<times> 'h) result" where
  "receiveMessage max_rx_datagram_size h port buffer dropped st =
     res_bind (reserveSingleSlice max_rx_datagram_size False buffer) (\<lambda>(reservation, b1).
       let ((bytes, info, dropped1, rslt), st1) = h_recvmsg h (rs_len (hd (r_slices reservation))) port dropped st;
           (reservation1, b2) = fill_reservation bytes reservation b1
       in if io_ok rslt then
            res_bind (reservation_single_commit (min max_rx_datagram_size (io_value rslt)) reservation1 b2)
              (\<lambda>(_, b3). Inr (rslt, info, b3, dropped1, st1))
          else Inr (rslt, info, b2, dropped1, st1))"

definition passPayloadToProcessor :: "packet_info \<Rightarrow> owned \<Rightarrow> nat \<Rightarrow> udp_event" where
  "passPayloadToProcessor info buffer receive_time =
     Packet_processed (pi_local info) (pi_peer info) buffer receive_time"

text \<open>
  The loop that cuts a received buffer into segments of \<open>gso_size\<close>; the first argument is fuel, one
  more than the bytes in the buffer where it is called.
\<close>

fun gro_loop :: "nat \<Rightarrow> owned \<Rightarrow> nat \<Rightarrow> packet_info \<Rightarrow> nat \<Rightarrow> udp_event list \<Rightarrow> udp_event list result" where
  "gro_loop 0 buffer gso_size info receive_time events = Inl Does_not_return"
| "gro_loop (Suc fuel) buffer gso_size info receive_time events =
     res_bind (own_length buffer) (\<lambda>len.
       if unat len > 0 then
         let bytes_to_copy = min (unat len) gso_size in
         res_bind (own_move_length (owned_new None) buffer bytes_to_copy) (\<lambda>(sub_buffer, buffer1).
           gro_loop fuel buffer1 gso_size info receive_time
             (events @ [passPayloadToProcessor info sub_buffer receive_time]))
       else Inr events)"

text \<open>Several messages: a buffer with a reservation for each, then the loop over what was read.\<close>

fun mmsg_reserve :: "nat \<Rightarrow> nat \<Rightarrow> (owned \<times> reservation) list result" where
  "mmsg_reserve 0 max_rx_datagram_size = Inr []"
| "mmsg_reserve (Suc n) max_rx_datagram_size =
     res_bind (reserveSingleSlice max_rx_datagram_size True (owned_new None)) (\<lambda>(r, b).
     res_bind (mmsg_reserve n max_rx_datagram_size) (\<lambda>rest. Inr ((b, r) # rest)))"

fun mmsg_fill :: "(byte list \<times> packet_info) list \<Rightarrow> (owned \<times> reservation) list \<Rightarrow> (owned \<times> reservation) list" where
  "mmsg_fill ((bytes, _) # ms) ((b, r) # rest) =
     (let (r1, b1) = fill_reservation bytes r b in (b1, r1) # mmsg_fill ms rest)"
| "mmsg_fill ms rest = rest"

fun mmsg_loop ::
  "nat \<Rightarrow> packet_info list \<Rightarrow> (owned \<times> reservation) list \<Rightarrow> nat \<Rightarrow> nat \<Rightarrow> udp_event list \<Rightarrow> udp_event list result" where
  "mmsg_loop 0 infos buffers max_rx_datagram_size receive_time events = Inr events"
| "mmsg_loop (Suc n) (info # infos) ((buffer, reservation) # buffers) max_rx_datagram_size receive_time events =
     (if pi_truncated info then mmsg_loop n infos buffers max_rx_datagram_size receive_time events
      else let msg_len = unat (pi_len info) in
        assert_then (msg_len \<le> rs_len (hd (r_slices reservation)))
          (res_bind (reservation_single_commit (min max_rx_datagram_size msg_len) reservation buffer) (\<lambda>(_, b1).
            mmsg_loop n infos buffers max_rx_datagram_size receive_time
              (events @ [passPayloadToProcessor info b1 receive_time]))))"
| "mmsg_loop (Suc n) infos buffers max_rx_datagram_size receive_time events = Inl Undefined_behaviour"

definition readFromSocket ::
  "'h io_handle \<Rightarrow> address \<Rightarrow> udp_processor \<Rightarrow> nat \<Rightarrow> bool \<Rightarrow> u32 \<Rightarrow> 'h
    \<Rightarrow> (io_result \<times> udp_event list \<times> u32 \<times> 'h) result" where
  "readFromSocket h local_address proc receive_time use_gro dropped st =
     (case ip_port local_address of
        None \<Rightarrow> Inl Undefined_behaviour
      | Some port \<Rightarrow>
          if use_gro then
            res_bind (receiveMessage ((NUM_DATAGRAMS_PER_RECEIVE * maxDatagramSize proc) mod 2 ^ 64)
                h port (owned_new None) dropped st) (\<lambda>(rslt, info, buffer, dropped1, st1).
              if \<not> io_ok rslt \<or> pi_truncated info then Inr (rslt, [], dropped1, st1)
              else let gso_size = unat (pi_gso info) in
                if gso_size = 0 then
                  Inr (rslt, [passPayloadToProcessor info buffer receive_time], dropped1, st1)
                else res_bind (own_length buffer) (\<lambda>len.
                     res_bind (gro_loop (Suc (unat len)) buffer gso_size info receive_time []) (\<lambda>events.
                       Inr (rslt, events, dropped1, st1))))
          else if h_supportsMmsg h then
            let max_rx_datagram_size = maxDatagramSize proc in
            res_bind (mmsg_reserve NUM_DATAGRAMS_PER_RECEIVE max_rx_datagram_size) (\<lambda>buffers.
              let slices = map (\<lambda>(b, r). rs_len (hd (r_slices r))) buffers;
                  ((ms, dropped1, rslt), st1) = h_recvmmsg h slices port dropped st;
                  infos = map (\<lambda>i. if i < length ms then snd (ms ! i) else packet_info_new)
                    [0..<NUM_DATAGRAMS_PER_RECEIVE]
              in if \<not> io_ok rslt then Inr (rslt, [], dropped1, st1)
                 else res_bind (mmsg_loop (io_value rslt) infos (mmsg_fill ms buffers) max_rx_datagram_size
                     receive_time []) (\<lambda>events.
                   Inr (rslt, events, dropped1, st1)))
          else
            res_bind (receiveMessage (maxDatagramSize proc) h port (owned_new None) dropped st)
              (\<lambda>(rslt, info, buffer, dropped1, st1).
                if \<not> io_ok rslt \<or> pi_truncated info then Inr (rslt, [], dropped1, st1)
                else Inr (rslt, [passPayloadToProcessor info buffer receive_time], dropped1, st1)))"

text \<open>
  The loop of \<open>readPacketsFromSocket\<close>; \<open>clock\<close> gives the time of the \<open>i\<close>-th call of \<open>monotonicTime\<close>. It
  is entered with at least one read to do.
\<close>

definition dropped_delta :: "u32 \<Rightarrow> u32 \<Rightarrow> u32" where
  "dropped_delta packets_dropped old_packets_dropped =
     (if packets_dropped > old_packets_dropped then packets_dropped - old_packets_dropped
      else packets_dropped + (0xFFFFFFFF - old_packets_dropped) + 1)"

fun read_loop ::
  "nat \<Rightarrow> 'h io_handle \<Rightarrow> address \<Rightarrow> udp_processor \<Rightarrow> (nat \<Rightarrow> nat) \<Rightarrow> nat \<Rightarrow> bool \<Rightarrow> u32 \<Rightarrow> 'h \<Rightarrow> udp_event list
    \<Rightarrow> (io_error_code option \<times> udp_event list \<times> u32 \<times> 'h) result" where
  "read_loop 0 h local_address proc clock i use_gro packets_dropped st events = Inl Does_not_return"
| "read_loop (Suc num_reads) h local_address proc clock i use_gro packets_dropped st events =
     (let old_packets_dropped = packets_dropped in
      res_bind (readFromSocket h local_address proc (clock i) use_gro packets_dropped st)
        (\<lambda>(rslt, evs, packets_dropped1, st1).
          if \<not> io_ok rslt then Inr (io_err rslt, events @ evs, packets_dropped1, st1)
          else let events1 = events @ evs @
                 (if packets_dropped1 \<noteq> old_packets_dropped
                  then [Datagrams_dropped (dropped_delta packets_dropped1 old_packets_dropped)] else [])
            in if num_reads = 0 then Inr (io_err rslt, events1, packets_dropped1, st1)
               else read_loop num_reads h local_address proc clock (i + 1) use_gro packets_dropped1 st1 events1))"

definition num_reads_for :: "'h io_handle \<Rightarrow> udp_processor \<Rightarrow> bool \<Rightarrow> nat" where
  "num_reads_for h proc use_gro =
     (let num_packets_to_read = min MAX_NUM_PACKETS_PER_EVENT_LOOP (numPacketsExpectedPerEventLoop proc);
          num_reads =
            (if use_gro then num_packets_to_read div NUM_DATAGRAMS_PER_RECEIVE
             else if h_supportsMmsg h then num_packets_to_read div NUM_DATAGRAMS_PER_RECEIVE
             else num_packets_to_read)
      in max 1 num_reads)"

definition readPacketsFromSocket ::
  "'h io_handle \<Rightarrow> address \<Rightarrow> udp_processor \<Rightarrow> (nat \<Rightarrow> nat) \<Rightarrow> bool \<Rightarrow> u32 \<Rightarrow> 'h
    \<Rightarrow> (io_error_code option \<times> udp_event list \<times> u32 \<times> 'h) result" where
  "readPacketsFromSocket h local_address proc clock prefer_gro packets_dropped st =
     (let use_gro = prefer_gro \<and> h_supportsUdpGro h in
      read_loop (num_reads_for h proc use_gro) h local_address proc clock 0 use_gro packets_dropped st [])"

section \<open>What the handle promises\<close>

text \<open>
  A receive that succeeds has written at most the slice and says how many bytes it wrote; several
  messages are at most as many as the slices, and one that is not marked truncated has the length it
  says.
\<close>

definition message_fits :: "nat \<Rightarrow> byte list \<times> packet_info \<Rightarrow> bool" where
  "message_fits n m \<longleftrightarrow>
     pi_truncated (snd m) \<or> length (fst m) \<le> n \<and> unat (pi_len (snd m)) = length (fst m)"

definition io_handle_contract :: "'h io_handle \<Rightarrow> bool" where
  "io_handle_contract h \<longleftrightarrow>
     (\<forall>n port d st bytes info d' r st'. h_recvmsg h n port d st = ((bytes, info, d', r), st') \<longrightarrow> io_ok r \<longrightarrow>
        length bytes \<le> n \<and> io_value r = length bytes)
     \<and> (\<forall>n k port d st ms d' r st'. h_recvmmsg h (replicate k n) port d st = ((ms, d', r), st') \<longrightarrow> io_ok r \<longrightarrow>
        length ms \<le> k \<and> io_value r = length ms \<and> list_all (message_fits n) ms)"

fun event_payload :: "udp_event \<Rightarrow> byte list" where
  "event_payload (Packet_processed l p b t) = content b"
| "event_payload (Datagrams_dropped n) = []"

fun event_dropped :: "udp_event \<Rightarrow> u32" where
  "event_dropped (Packet_processed l p b t) = 0"
| "event_dropped (Datagrams_dropped n) = n"

lemma event_payload_pass [simp]:
  "event_payload (passPayloadToProcessor info b t) = content b"
  "event_dropped (passPayloadToProcessor info b t) = 0"
  by (simp_all add: passPayloadToProcessor_def)

section \<open>Lemmas\<close>

lemma recvmsg_contract:
  "io_handle_contract h \<Longrightarrow> h_recvmsg h n port d st = ((bytes, info, d', r), st') \<Longrightarrow> io_ok r \<Longrightarrow>
   length bytes \<le> n \<and> io_value r = length bytes"
  unfolding io_handle_contract_def by blast

lemma recvmmsg_contract:
  "io_handle_contract h \<Longrightarrow> h_recvmmsg h (replicate k n) port d st = ((ms, d', r), st') \<Longrightarrow> io_ok r \<Longrightarrow>
   length ms \<le> k \<and> io_value r = length ms \<and> list_all (message_fits n) ms"
  unfolding io_handle_contract_def by blast

subsection \<open>Sending\<close>

text \<open>The state of the handle after \<open>k\<close> calls.\<close>

fun after_sends :: "'h io_handle \<Rightarrow> byte list list \<Rightarrow> address option \<Rightarrow> address \<Rightarrow> nat \<Rightarrow> 'h \<Rightarrow> 'h" where
  "after_sends h slices l p 0 st = st"
| "after_sends h slices l p (Suc k) st = after_sends h slices l p k (snd (h_sendmsg h slices l p st))"

definition send_at :: "'h io_handle \<Rightarrow> byte list list \<Rightarrow> address option \<Rightarrow> address \<Rightarrow> nat \<Rightarrow> 'h \<Rightarrow> io_result \<times> 'h" where
  "send_at h slices l p k st = h_sendmsg h slices l p (after_sends h slices l p k st)"

definition interrupted :: "io_result \<times> 'h \<Rightarrow> bool" where
  "interrupted r \<longleftrightarrow> io_err (fst r) = Some Interrupt"

lemma send_at_Suc: "send_at h slices l p (Suc k) st = send_at h slices l p k (snd (h_sendmsg h slices l p st))"
  by (simp add: send_at_def)

lemma send_at_0: "send_at h slices l p 0 st = h_sendmsg h slices l p st"
  by (simp add: send_at_def)

lemma write_step:
  "writeToSocket_slices h slices l p st =
     (if interrupted (h_sendmsg h slices l p st)
      then writeToSocket_slices h slices l p (snd (h_sendmsg h slices l p st))
      else Some (h_sendmsg h slices l p st))"
  by (subst writeToSocket_slices.simps) (auto simp: Let_def interrupted_def io_ok_def)

lemma write_after_interrupts:
  "\<forall>i<k. interrupted (send_at h slices l p i st) \<Longrightarrow> \<not> interrupted (send_at h slices l p k st) \<Longrightarrow>
   writeToSocket_slices h slices l p st = Some (send_at h slices l p k st)"
proof (induction k arbitrary: st)
  case 0
  then show ?case by (simp add: write_step [of h slices l p st] send_at_0)
next
  case (Suc k)
  have "interrupted (h_sendmsg h slices l p st)" using Suc.prems(1) by (auto simp: send_at_0 [symmetric])
  then have "writeToSocket_slices h slices l p st = writeToSocket_slices h slices l p (snd (h_sendmsg h slices l p st))"
    by (simp add: write_step [of h slices l p st])
  moreover have "\<forall>i<k. interrupted (send_at h slices l p i (snd (h_sendmsg h slices l p st)))"
    using Suc.prems(1) by (auto simp: send_at_Suc [symmetric])
  moreover have "\<not> interrupted (send_at h slices l p k (snd (h_sendmsg h slices l p st)))"
    using Suc.prems(2) by (simp add: send_at_Suc)
  ultimately show ?case using Suc.IH by (simp add: send_at_Suc)
qed

lemma write_returns:
  "writeToSocket_slices h slices l p st = Some r \<Longrightarrow>
   \<exists>k. (\<forall>i<k. interrupted (send_at h slices l p i st)) \<and> \<not> interrupted (send_at h slices l p k st)
     \<and> r = send_at h slices l p k st"
proof (induction h slices l p st r rule: writeToSocket_slices.raw_induct [rotated, consumes 1])
  case (1 wr h slices l p st r)
  show ?case
  proof (cases "interrupted (h_sendmsg h slices l p st)")
    case True
    then have "wr h slices l p (snd (h_sendmsg h slices l p st)) = Some r"
      using 1(2) by (simp add: Let_def interrupted_def io_ok_def)
    from 1(1) [OF this] obtain k where k: "\<forall>i<k. interrupted (send_at h slices l p (Suc i) st)"
      "\<not> interrupted (send_at h slices l p (Suc k) st)" "r = send_at h slices l p (Suc k) st"
      by (auto simp: send_at_Suc)
    then have "\<forall>i<Suc k. interrupted (send_at h slices l p i st)"
      using True by (auto simp: less_Suc_eq_0_disj send_at_0)
    then show ?thesis using k(2,3) by blast
  next
    case False
    then have "r = h_sendmsg h slices l p st" using 1(2) by (auto simp: Let_def interrupted_def io_ok_def split: if_splits)
    then show ?thesis using False by (intro exI [of _ 0]) (simp add: send_at_0)
  qed
qed

subsection \<open>Segments\<close>

function chunks :: "nat \<Rightarrow> 'a list \<Rightarrow> 'a list list" where
  "chunks n xs = (if n = 0 \<or> xs = [] then [] else take n xs # chunks n (drop n xs))"
  by pat_completeness auto
termination
  by (relation "measure (\<lambda>(n, xs). length xs)") auto

declare chunks.simps [simp del]

lemma chunks_Nil [simp]: "chunks n [] = []"
  by (subst chunks.simps) simp

lemma concat_chunks: "0 < n \<Longrightarrow> concat (chunks n xs) = xs"
proof (induction n xs rule: chunks.induct)
  case (1 n xs)
  then show ?case by (subst chunks.simps) simp
qed

lemma gro_loop_total:
  "own_inv b \<Longrightarrow> length (content b) \<le> max_request \<Longrightarrow> length (content b) < fuel \<Longrightarrow> 0 < gso \<Longrightarrow>
   \<exists>evs'. gro_loop fuel b gso info t evs = Inr (evs @ evs') \<and> map event_payload evs' = chunks gso (content b)
     \<and> (\<forall>e\<in>set evs'. event_dropped e = 0)"
proof (induction fuel arbitrary: b evs)
  case (Suc fuel)
  let ?n = "length (content b)"
  have "?n < 2 ^ 64" using Suc.prems(2) by (simp add: max_request_def)
  then have len: "own_length b = Inr (word_of_nat ?n)" "unat (word_of_nat ?n :: u64) = ?n"
    using own_length_eq [OF Suc.prems(1)] unat_le_of_nat by simp_all
  show ?case
  proof (cases "content b = []")
    case True
    then show ?thesis using len by simp
  next
    case False
    let ?k = "min ?n gso"
    obtain s b1 where mv: "own_move_length (owned_new None) b ?k = Inr (s, b1)" "own_inv b1"
      "content s = take ?k (content b)" "content b1 = drop ?k (content b)"
      using own_move_length_total [OF own_inv_new(1) Suc.prems(1,2), of None ?k] by auto
    have tk: "take ?k (content b) = take gso (content b)" "drop ?k (content b) = drop gso (content b)"
      by (simp_all add: min_def)
    have "length (content b1) \<le> max_request" "length (content b1) < fuel"
      using mv(4) Suc.prems(2,3,4) False by (auto simp: min_def length_greater_0_conv [symmetric] simp del: length_greater_0_conv)
    then obtain evs' where evs': "gro_loop fuel b1 gso info t (evs @ [passPayloadToProcessor info s t])
        = Inr ((evs @ [passPayloadToProcessor info s t]) @ evs')"
      "map event_payload evs' = chunks gso (content b1)" "\<forall>e\<in>set evs'. event_dropped e = 0"
      using Suc.IH [OF mv(2) _ _ Suc.prems(4)] by blast
    have "gro_loop (Suc fuel) b gso info t evs = Inr (evs @ passPayloadToProcessor info s t # evs')"
      using False evs'(1) by (simp add: len(2) len(1) mv(1) Let_def)
    moreover have "chunks gso (content b) = take gso (content b) # chunks gso (content b1)"
      using False Suc.prems(4) by (subst chunks.simps) (simp add: mv(4) tk(2))
    ultimately show ?thesis
      using evs'(2,3) mv(3) tk(1) by (intro exI [of _ "passPayloadToProcessor info s t # evs'"]) simp
  qed
qed simp

subsection \<open>One message\<close>

text \<open>Memory just reserved for one message of at most \<open>n\<close> bytes.\<close>

definition reserved_for :: "nat \<Rightarrow> owned \<times> reservation \<Rightarrow> bool" where
  "reserved_for n br \<longleftrightarrow> own_inv (fst br)
     \<and> (\<exists>rs st. snd br = \<lparr>r_slices = [rs], r_owner = Some (Owner_single st), r_length = Some n\<rparr>
          \<and> ready (fst br) [rs] [st] \<and> rs_len rs = n)"

lemma reserve_for:
  assumes "own_inv b" "0 < n" "n \<le> max_request"
  obtains r b1 where "reserveSingleSlice n separate b = Inr (r, b1)" "reserved_for n (b1, r)"
    "content b1 = content b"
  using reserveSingleSlice_total [OF assms, of separate] by (fastforce simp: reserved_for_def)

lemma reserved_len: "reserved_for n (b, r) \<Longrightarrow> rs_len (hd (r_slices r)) = n"
  by (auto simp: reserved_for_def)

lemma fill_reservation_slices: "fill_reservation bytes r b = (r1, b1) \<Longrightarrow> r_slices r1 = r_slices r"
  by (auto simp: fill_reservation_def split: option.splits prod.splits)

lemma fill_and_commit:
  assumes "reserved_for n (b, r)" "length bytes \<le> n"
  obtains r1 b1 r2 b2 where "fill_reservation bytes r b = (r1, b1)"
    "reservation_single_commit (length bytes) r1 b1 = Inr (r2, b2)" "own_inv b2" "content b2 = content b @ bytes"
proof -
  obtain rs st where r: "r = \<lparr>r_slices = [rs], r_owner = Some (Owner_single st), r_length = Some n\<rparr>"
    "ready b [rs] [st]" "rs_len rs = n" "own_inv b" using assms(1) by (auto simp: reserved_for_def)
  then have "length bytes \<le> rs_len rs" using assms(2) by simp
  from single_commit_total [OF r(2,4) this, of "Some n"] show ?thesis
    using that unfolding r(1) by blast
qed

lemma receiveMessage_total:
  assumes h: "io_handle_contract h" and b: "own_inv b" and n: "0 < n" "n \<le> max_request"
    and call: "h_recvmsg h n port d st = ((bytes, info, d', rslt), st')"
  obtains b' where "receiveMessage n h port b d st = Inr (rslt, info, b', d', st')"
    "io_ok rslt \<Longrightarrow> own_inv b' \<and> content b' = content b @ bytes \<and> length bytes \<le> n"
proof -
  obtain r b1 where rb: "reserveSingleSlice n False b = Inr (r, b1)" "reserved_for n (b1, r)" "content b1 = content b"
    using reserve_for [OF b n] by metis
  show ?thesis
  proof (cases "io_ok rslt")
    case True
    then have bytes: "length bytes \<le> n" "io_value rslt = length bytes"
      using recvmsg_contract [OF h call] by simp_all
    obtain r1 b2 r2 b3 where "fill_reservation bytes r b1 = (r1, b2)"
      "reservation_single_commit (length bytes) r1 b2 = Inr (r2, b3)" "own_inv b3" "content b3 = content b1 @ bytes"
      using fill_and_commit [OF rb(2) bytes(1)] by metis
    then show ?thesis using rb(1,3) bytes True
      by (intro that [of b3]) (simp_all add: receiveMessage_def reserved_len [OF rb(2)] call)
  next
    case False
    obtain r1 b2 where "fill_reservation bytes r b1 = (r1, b2)" by fastforce
    then show ?thesis using rb(1) False
      by (intro that [of b2]) (simp_all add: receiveMessage_def reserved_len [OF rb(2)] call)
  qed
qed

subsection \<open>Several messages\<close>

lemma mmsg_reserve_total:
  "0 < n \<Longrightarrow> n \<le> max_request \<Longrightarrow>
   \<exists>brs. mmsg_reserve k n = Inr brs \<and> length brs = k \<and> (\<forall>br\<in>set brs. reserved_for n br \<and> content (fst br) = [])"
proof (induction k)
  case (Suc k)
  obtain r b where "reserveSingleSlice n True (owned_new None) = Inr (r, b)" "reserved_for n (b, r)" "content b = []"
    using reserve_for [OF own_inv_new(1) Suc.prems, where separate = True] by (metis own_inv_new(2))
  then show ?case using Suc by (auto simp: own_inv_new)
qed simp

lemma mmsg_fill_slices: "map (r_slices \<circ> snd) (mmsg_fill ms brs) = map (r_slices \<circ> snd) brs"
  by (induction ms brs rule: mmsg_fill.induct) (auto dest: fill_reservation_slices split: prod.splits)

definition kept_messages :: "(byte list \<times> packet_info) list \<Rightarrow> byte list list" where
  "kept_messages ms = map fst (filter (\<lambda>m. \<not> pi_truncated (snd m)) ms)"

lemma mmsg_loop_total:
  "length ms \<le> length brs \<Longrightarrow> \<forall>br\<in>set brs. reserved_for n br \<and> content (fst br) = [] \<Longrightarrow>
   list_all (message_fits n) ms \<Longrightarrow>
   \<exists>evs'. mmsg_loop (length ms) (map snd ms @ infos) (mmsg_fill ms brs) n t evs = Inr (evs @ evs')
     \<and> map event_payload evs' = kept_messages ms \<and> (\<forall>e\<in>set evs'. event_dropped e = 0)"
proof (induction ms arbitrary: brs evs)
  case (Cons m ms)
  obtain bytes info where m: "m = (bytes, info)" by (cases m)
  obtain b r brs' where brs: "brs = (b, r) # brs'" using Cons.prems(1) by (cases brs) auto
  obtain r1 b1 where fill: "fill_reservation bytes r b = (r1, b1)" by fastforce
  have res: "reserved_for n (b, r)" "content b = []" using Cons.prems(2) by (simp_all add: brs)
  have IH: "\<exists>evs'. mmsg_loop (length ms) (map snd ms @ infos) (mmsg_fill ms brs') n t evs0 = Inr (evs0 @ evs')
     \<and> map event_payload evs' = kept_messages ms \<and> (\<forall>e\<in>set evs'. event_dropped e = 0)" for evs0
    using Cons.prems by (intro Cons.IH) (auto simp: brs)
  show ?case
  proof (cases "pi_truncated info")
    case True
    then show ?thesis using IH [of evs] by (simp add: m brs fill kept_messages_def)
  next
    case False
    then have ok: "length bytes \<le> n" "unat (pi_len info) = length bytes" using Cons.prems(3) by (simp_all add: m message_fits_def)
    obtain r1' b1' r2 b2 where "fill_reservation bytes r b = (r1', b1')"
      "reservation_single_commit (length bytes) r1' b1' = Inr (r2, b2)" "content b2 = content b @ bytes"
      by (rule fill_and_commit [OF res(1) ok(1)])
    then have com: "reservation_single_commit (length bytes) r1 b1 = Inr (r2, b2)" "content b2 = bytes"
      using fill res(2) by simp_all
    have "rs_len (hd (r_slices r1)) = n" using reserved_len [OF res(1)] fill_reservation_slices [OF fill] by simp
    then have step: "mmsg_loop (length (m # ms)) (map snd (m # ms) @ infos) (mmsg_fill (m # ms) brs) n t evs =
        mmsg_loop (length ms) (map snd ms @ infos) (mmsg_fill ms brs') n t (evs @ [passPayloadToProcessor info b2 t])"
      using False ok com(1) by (simp add: m brs fill)
    obtain evs' where evs': "mmsg_loop (length ms) (map snd ms @ infos) (mmsg_fill ms brs') n t
        (evs @ [passPayloadToProcessor info b2 t]) = Inr ((evs @ [passPayloadToProcessor info b2 t]) @ evs')"
      "map event_payload evs' = kept_messages ms" "\<forall>e\<in>set evs'. event_dropped e = 0"
      using IH [of "evs @ [passPayloadToProcessor info b2 t]"] by (elim exE conjE) (rule that)
    then show ?thesis unfolding step
      using False com(2) by (intro exI [of _ "passPayloadToProcessor info b2 t # evs'"]) (simp add: m kept_messages_def)
  qed
qed (simp add: kept_messages_def)

lemma padded_infos:
  "length ms \<le> k \<Longrightarrow>
   map (\<lambda>i. if i < length ms then snd (ms ! i) else x) [0..<k] = map snd ms @ replicate (k - length ms) x"
  by (rule nth_equalityI) (simp_all add: nth_append)

subsection \<open>One read\<close>

text \<open>What a read is to hand to the processor, from what the handle gives.\<close>

definition received :: "'h io_handle \<Rightarrow> u16 \<Rightarrow> nat \<Rightarrow> bool \<Rightarrow> u32 \<Rightarrow> 'h \<Rightarrow> byte list list" where
  "received h port max_size use_gro d st =
     (if \<not> use_gro \<and> h_supportsMmsg h then
        (case h_recvmmsg h (replicate 16 max_size) port d st of
           ((ms, _, rslt), _) \<Rightarrow> if io_ok rslt then kept_messages ms else [])
      else
        (case h_recvmsg h (if use_gro then 16 * max_size else max_size) port d st of
           ((bytes, info, _, rslt), _) \<Rightarrow>
             if \<not> io_ok rslt \<or> pi_truncated info then []
             else if use_gro \<and> pi_gso info \<noteq> 0 then chunks (unat (pi_gso info)) bytes else [bytes]))"

text \<open>One call of the handle on the drop counter and the handle's state: the result and both afterwards.\<close>

definition handle_read :: "'h io_handle \<Rightarrow> u16 \<Rightarrow> nat \<Rightarrow> bool \<Rightarrow> u32 \<times> 'h \<Rightarrow> io_result \<times> u32 \<times> 'h" where
  "handle_read h port max_size use_gro s =
     (if \<not> use_gro \<and> h_supportsMmsg h then
        (case h_recvmmsg h (replicate 16 max_size) port (fst s) (snd s) of ((_, d', rslt), st') \<Rightarrow> (rslt, d', st'))
      else
        (case h_recvmsg h (if use_gro then 16 * max_size else max_size) port (fst s) (snd s) of
           ((_, _, d', rslt), st') \<Rightarrow> (rslt, d', st')))"

text \<open>Both after \<open>k\<close> calls.\<close>

fun read_state :: "'h io_handle \<Rightarrow> u16 \<Rightarrow> nat \<Rightarrow> bool \<Rightarrow> nat \<Rightarrow> u32 \<times> 'h \<Rightarrow> u32 \<times> 'h" where
  "read_state h port max_size use_gro 0 s = s"
| "read_state h port max_size use_gro (Suc k) s =
     read_state h port max_size use_gro k (snd (handle_read h port max_size use_gro s))"

lemma unat_ne_0: "unat w \<noteq> 0 \<longleftrightarrow> w \<noteq> 0"
  by (simp add: unat_eq_zero)

lemma readFromSocket_total:
  fixes h :: "'h io_handle"
  assumes h: "io_handle_contract h" and port: "ip_port addr = Some port"
    and n: "0 < maxDatagramSize proc" "16 * maxDatagramSize proc \<le> max_request"
  shows "\<exists>rslt evs d' st'. readFromSocket h addr proc t use_gro d st = Inr (rslt, evs, d', st')
    \<and> map event_payload evs = received h port (maxDatagramSize proc) use_gro d st
    \<and> (\<forall>e\<in>set evs. event_dropped e = 0)
    \<and> handle_read h port (maxDatagramSize proc) use_gro (d, st) = (rslt, d', st')"
proof -
  let ?n = "maxDatagramSize proc"
  consider "use_gro" | "\<not> use_gro" "h_supportsMmsg h" | "\<not> use_gro" "\<not> h_supportsMmsg h" by blast
  then show ?thesis
  proof cases
    case 1
    obtain bytes info d' rslt st' where call: "h_recvmsg h (16 * ?n) port d st = ((bytes, info, d', rslt), st')"
      by (metis prod.collapse)
    have wrap: "(16 * ?n) mod 2 ^ 64 = 16 * ?n" using n(2) by (simp add: max_request_def)
    have "0 < 16 * ?n" using n(1) by simp
    then obtain b where b: "receiveMessage (16 * ?n) h port (owned_new None) d st = Inr (rslt, info, b, d', st')"
      "io_ok rslt \<Longrightarrow> own_inv b \<and> content b = bytes \<and> length bytes \<le> 16 * ?n"
      using receiveMessage_total [OF h own_inv_new(1) _ n(2) call, of None] by auto
    show ?thesis
    proof (cases "\<not> io_ok rslt \<or> pi_truncated info \<or> pi_gso info = 0")
      case True
      then show ?thesis using 1 b
        by (auto simp: readFromSocket_def port wrap [simplified] NUM_DATAGRAMS_PER_RECEIVE_def
            received_def handle_read_def call Let_def)
    next
      case False
      then have bb: "own_inv b" "content b = bytes" "length (content b) \<le> max_request" using b(2) n(2) by auto
      have "length bytes < 2 ^ 64" using bb(2,3) by (simp add: max_request_def)
      then have len: "own_length b = Inr (word_of_nat (length bytes))"
        "unat (word_of_nat (length bytes) :: u64) = length bytes"
        using own_length_eq [OF bb(1)] bb(2) unat_le_of_nat by simp_all
      have gso: "0 < unat (pi_gso info)" using False unat_ne_0 by blast
      then obtain evs where evs: "gro_loop (Suc (length (content b))) b (unat (pi_gso info)) info t [] = Inr evs"
        "map event_payload evs = chunks (unat (pi_gso info)) (content b)" "\<forall>e\<in>set evs. event_dropped e = 0"
        using gro_loop_total [OF bb(1,3) lessI, of "unat (pi_gso info)" info t "[]"] by auto
      have "readFromSocket h addr proc t use_gro d st =
          res_bind (gro_loop (Suc (unat (word_of_nat (length bytes) :: u64))) b (unat (pi_gso info)) info t [])
            (\<lambda>evs. Inr (rslt, evs, d', st'))"
        using 1 False b(1) gso by (simp add: readFromSocket_def port wrap [simplified] NUM_DATAGRAMS_PER_RECEIVE_def
            Let_def len(1) del: gro_loop.simps)
      then have "readFromSocket h addr proc t use_gro d st = Inr (rslt, evs, d', st')"
        unfolding len(2) using evs(1) bb(2) by (simp del: gro_loop.simps)
      moreover have "received h port ?n use_gro d st = chunks (unat (pi_gso info)) bytes"
        using 1 False by (simp add: received_def call)
      moreover have "handle_read h port ?n use_gro (d, st) = (rslt, d', st')"
        using 1 by (simp add: handle_read_def call)
      ultimately show ?thesis using evs(2,3) bb(2) by simp
    qed
  next
    case 2
    have n': "?n \<le> max_request" using n(2) by simp
    obtain brs where brs: "mmsg_reserve 16 ?n = Inr brs" "length brs = 16"
      "\<forall>br\<in>set brs. reserved_for ?n br \<and> content (fst br) = []"
      using mmsg_reserve_total [OF n(1) n', of 16] by blast
    have "map (\<lambda>(b, r). rs_len (hd (r_slices r))) brs = replicate 16 ?n"
      using brs(2,3) reserved_len by (intro replicate_eqI) auto
    note slices = this
    obtain ms d' rslt st' where call: "h_recvmmsg h (replicate 16 ?n) port d st = ((ms, d', rslt), st')"
      by (metis prod.collapse)
    show ?thesis
    proof (cases "io_ok rslt")
      case False
      then show ?thesis using 2 brs(1)
        by (simp add: readFromSocket_def port NUM_DATAGRAMS_PER_RECEIVE_def slices call received_def handle_read_def Let_def
            del: mmsg_reserve.simps)
    next
      case True
      then have ms: "length ms \<le> 16" "io_value rslt = length ms"
        "list_all (message_fits ?n) ms"
        using recvmmsg_contract [OF h call] by simp_all
      have "length ms \<le> length brs" using ms(1) brs(2) by simp
      from mmsg_loop_total [OF this brs(3) ms(3), of "replicate (16 - length ms) packet_info_new" t "[]"]
      obtain evs where evs: "mmsg_loop (length ms) (map snd ms @ replicate (16 - length ms) packet_info_new)
          (mmsg_fill ms brs) ?n t [] = Inr evs"
        "map event_payload evs = kept_messages ms" "\<forall>e\<in>set evs. event_dropped e = 0" by auto
      then show ?thesis using 2 True brs(1) ms(2) padded_infos [OF ms(1), of packet_info_new]
        by (simp add: readFromSocket_def port NUM_DATAGRAMS_PER_RECEIVE_def slices call received_def handle_read_def Let_def
            del: mmsg_reserve.simps mmsg_loop.simps upt_Suc)
    qed
  next
    case 3
    have n': "?n \<le> max_request" using n(2) by simp
    obtain bytes info d' rslt st' where call: "h_recvmsg h ?n port d st = ((bytes, info, d', rslt), st')"
      by (metis prod.collapse)
    obtain b where b: "receiveMessage ?n h port (owned_new None) d st = Inr (rslt, info, b, d', st')"
      "io_ok rslt \<Longrightarrow> own_inv b \<and> content b = bytes \<and> length bytes \<le> ?n"
      using receiveMessage_total [OF h own_inv_new(1) n(1) n' call, of None] by auto
    then show ?thesis using 3
      by (auto simp: readFromSocket_def port received_def handle_read_def call)
  qed
qed

subsection \<open>The loop over reads\<close>

lemma dropped_delta_eq: "dropped_delta d1 d0 = d1 - d0"
proof -
  have "(0xFFFFFFFF :: u32) = - 1" by simp
  then show ?thesis by (simp add: dropped_delta_def)
qed

abbreviation dropped_sum :: "udp_event list \<Rightarrow> u32" where
  "dropped_sum evs \<equiv> sum_list (map event_dropped evs)"

lemma dropped_sum_0: "\<forall>e\<in>set evs. event_dropped e = 0 \<Longrightarrow> dropped_sum evs = 0"
  by (induction evs) auto

text \<open>The loop makes \<open>n\<close> reads that succeed; then either it has made all it may, or the next one fails.\<close>

lemma read_loop_total:
  fixes h :: "'h io_handle" and use_gro :: bool
  assumes h: "io_handle_contract h" and port: "ip_port addr = Some port"
    and n: "0 < maxDatagramSize proc" "16 * maxDatagramSize proc \<le> max_request"
  defines "state j \<equiv> read_state h port (maxDatagramSize proc) use_gro j"
  defines "call s \<equiv> handle_read h port (maxDatagramSize proc) use_gro s"
  shows "0 < k \<Longrightarrow>
    \<exists>err evs' d' st' j. read_loop k h addr proc clock i use_gro d st evs = Inr (err, evs @ evs', d', st')
      \<and> j \<le> k \<and> (\<forall>l<j. io_ok (fst (call (state l (d, st)))))
      \<and> dropped_sum evs' = fst (state j (d, st)) - d
      \<and> (if err = None then j = k \<and> state j (d, st) = (d', st')
         else j < k \<and> (\<exists>r. call (state j (d, st)) = (r, d', st') \<and> io_err r = err))"
proof (induction k arbitrary: i d st evs)
  case (Suc k)
  obtain rslt evs1 d1 st1 where read: "readFromSocket h addr proc (clock i) use_gro d st = Inr (rslt, evs1, d1, st1)"
    "\<forall>e\<in>set evs1. event_dropped e = 0" and c: "call (d, st) = (rslt, d1, st1)"
    using readFromSocket_total [OF h port n] unfolding call_def by blast
  have s0: "state 0 s = s" for s by (simp add: state_def)
  have sS: "state (Suc j) (d, st) = state j (d1, st1)" for j
    using c by (simp add: state_def call_def)
  define note_drops where "note_drops = (if d1 \<noteq> d then [Datagrams_dropped (dropped_delta d1 d)] else [])"
  have noted: "dropped_sum (evs1 @ note_drops) = d1 - d"
    using dropped_sum_0 [OF read(2)] by (simp add: note_drops_def dropped_delta_eq)
  show ?case
  proof (cases "io_ok rslt")
    case False
    then have "io_err rslt \<noteq> None" by (simp add: io_ok_def)
    then show ?thesis using False read(1) dropped_sum_0 [OF read(2)] c
      by (intro exI [of _ "io_err rslt"] exI [of _ evs1] exI [of _ d1] exI [of _ st1] exI [of _ 0]) (simp add: s0 Let_def)
  next
    case True
    have ok: "\<forall>l<Suc j. io_ok (fst (call (state l (d, st))))" if "\<forall>l<j. io_ok (fst (call (state l (d1, st1))))" for j
      using that True c by (auto simp: less_Suc_eq_0_disj s0 sS)
    have step: "read_loop (Suc k) h addr proc clock i use_gro d st evs =
        (if k = 0 then Inr (io_err rslt, evs @ evs1 @ note_drops, d1, st1)
         else read_loop k h addr proc clock (i + 1) use_gro d1 st1 (evs @ evs1 @ note_drops))"
      using True by (simp add: read(1) note_drops_def Let_def)
    show ?thesis
    proof (cases "k = 0")
      case True
      have "io_err rslt = None" using \<open>io_ok rslt\<close> by (simp add: io_ok_def)
      then show ?thesis unfolding step using True noted ok [of 0]
        by (intro exI [of _ None] exI [of _ "evs1 @ note_drops"] exI [of _ d1] exI [of _ st1] exI [of _ 1]) (simp add: sS s0)
    next
      case False
      then obtain err evs' d' st' j where IH: "read_loop k h addr proc clock (i + 1) use_gro d1 st1 (evs @ evs1 @ note_drops)
          = Inr (err, (evs @ evs1 @ note_drops) @ evs', d', st')" "j \<le> k"
        "\<forall>l<j. io_ok (fst (call (state l (d1, st1))))" "dropped_sum evs' = fst (state j (d1, st1)) - d1"
        "if err = None then j = k \<and> state j (d1, st1) = (d', st')
         else j < k \<and> (\<exists>r. call (state j (d1, st1)) = (r, d', st') \<and> io_err r = err)"
        using Suc.IH by blast
      have "dropped_sum ((evs1 @ note_drops) @ evs') = fst (state j (d1, st1)) - d"
        using noted IH(4) by (simp only: map_append sum_list_append) simp
      then show ?thesis unfolding step using False IH(1,2,5) ok [OF IH(3)]
        by (intro exI [of _ err] exI [of _ "(evs1 @ note_drops) @ evs'"] exI [of _ d'] exI [of _ st'] exI [of _ "Suc j"])
          (auto simp: sS split: if_splits)
    qed
  qed
qed simp

lemma num_reads_bounds: "1 \<le> num_reads_for h proc g" "num_reads_for h proc g \<le> 6000"
  by (auto simp: num_reads_for_def MAX_NUM_PACKETS_PER_EVENT_LOOP_def NUM_DATAGRAMS_PER_RECEIVE_def Let_def)

end
