(* ===== verification/NetSpec.thy ===== *)
theory NetSpec
  imports NetPorts NetUdp CommonSpec
begin

text \<open>What the network utilities promise, with a concrete instance of each.\<close>

section \<open>Addresses\<close>

lemma not_in_decimal: "\<not> is_digit_in 10 c \<Longrightarrow> c \<notin> set (decimal n)"
  using decimal_digits(1) decimal_digitD(1) by blast

lemma dot_nul_no_digit: "\<not> is_digit_in 10 (CHR ''.'')" "\<not> is_digit_in 10 (CHR 0x00)"
  by (simp_all add: is_digit_in_def digit_value_def)

lemma no_dot: "\<forall>c\<in>set (decimal x). c \<noteq> CHR ''.''"
  using not_in_decimal [OF dot_nul_no_digit(1)] by metis

lemma split_dots: "xs \<noteq> [] \<Longrightarrow> split_any ''.'' (dots xs) = map decimal xs"
proof (induction xs rule: dots.induct)
  case (2 x)
  show ?case using split_any_snoc_free [of "decimal x" "''.''" "[]"] no_dot by simp
next
  case (3 x y r)
  show ?case using split_any_snoc_free [of "decimal x" "''.''" "''.'' @ dots (y # r)"] 3 no_dot by simp
qed simp

text \<open>An \<open>inet_pton\<close> for IPv4 that reads dotted decimals, to instantiate the parameter with.\<close>

definition octet_ok :: "string \<Rightarrow> bool" where
  "octet_ok w \<longleftrightarrow> w \<noteq> [] \<and> list_all (is_digit_in 10) w \<and> digits_value 10 w < 256"

definition dotted_pton :: "string \<Rightarrow> u32 option" where
  "dotted_pton s =
     (case split_any ''.'' s of
        [a, b, c, d] \<Rightarrow>
          if list_all octet_ok [a, b, c, d]
          then Some (quad (digits_value 10 a) (digits_value 10 b) (digits_value 10 c) (digits_value 10 d)) else None
      | _ \<Rightarrow> None)"

definition dotted :: "u32 \<Rightarrow> string" where
  "dotted w = dots (map (byte_of w) [0, 1, 2, 3])"

lemma octet_ok_decimal: "n < 256 \<Longrightarrow> octet_ok (decimal n)"
  using decimal_digits decimal_digitD(1) by (auto simp: octet_ok_def digits_value_decimal list_all_iff)

lemma dotted_pton_dotted: "dotted_pton (dotted w) = Some w"
proof -
  have "split_any ''.'' (dotted w) = map decimal (map (byte_of w) [0, 1, 2, 3])"
    unfolding dotted_def by (rule split_dots) simp
  then show ?thesis
    using quad_bytes [of w] by (simp add: dotted_pton_def octet_ok_decimal digits_value_decimal)
qed

lemma dotted_inj: "dotted v = dotted w \<longleftrightarrow> v = w"
  by (metis dotted_pton_dotted option.inject)

lemma length_dotted: "length (dotted w) \<le> 15"
proof -
  have "length (decimal (byte_of w i)) \<le> 3" for i by (rule length_decimal_octet) simp
  from this [of 0] this [of 1] this [of 2] this [of 3] show ?thesis by (simp add: dotted_def)
qed

lemma c_str_dotted: "c_str (dotted w) = dotted w"
proof -
  have "\<forall>c\<in>set (dotted w). c \<noteq> CHR 0x00"
    using not_in_decimal [OF dot_nul_no_digit(2)] by (auto simp: dotted_def)
  then show ?thesis by (simp add: c_str_def takeWhile_eq_all_conv)
qed

lemma sockaddrToString_dotted_eq: "sockaddrToString sa = Inr (dotted (sin_addr sa))"
  by (simp only: sockaddrToString_eq dotted_def)

text \<open>\<open>sockaddrToString\<close> never writes outside its 16 bytes and gives the dotted decimal of
  the address: at most 15 characters, the four bytes in network order, different for different
  addresses.\<close>

theorem sockaddrToString_dotted:
  "sockaddrToString sa = Inr (dots (map (byte_of (sin_addr sa)) [0, 1, 2, 3]))
    \<and> length (dots (map (byte_of (sin_addr sa)) [0, 1, 2, 3])) \<le> 15
    \<and> (sockaddrToString sa = sockaddrToString sb \<longleftrightarrow> sin_addr sa = sin_addr sb)"
  using length_dotted [of "sin_addr sa"]
  by (simp only: sockaddrToString_eq sum.inject dotted_def [symmetric] dotted_inj simp_thms)

text \<open>Copying an IPv4 address through its string, with a C library that reads back dotted
  decimals, gives an equal address of the same name; \<open>getAddressWithPort\<close> gives the same address
  with the low 16 bits of the port asked for, under a name that shows the port unreduced.\<close>

theorem copied_address_equal:
  assumes "\<forall>w. inet_pton4 net (dots (map (byte_of w) [0, 1, 2, 3])) = Some w" and "Ipv4Instance_sockaddr sa = Inr i"
  shows "\<exists>j k. copyInternetAddressAndPort net (Ipv4Address i) = Inr (Ipv4Address j)
    \<and> address_eq (Ipv4Address i) (Ipv4Address j) \<and> v4_friendly_name j = v4_friendly_name i
    \<and> getAddressWithPort net (Ipv4Address i) port = Inr (Ipv4Address k)
    \<and> sin_addr (v4_sockaddr k) = sin_addr sa \<and> ip_port (Ipv4Address k) = Some (ucast port)
    \<and> v4_friendly_name k = dots (map (byte_of (sin_addr sa)) [0, 1, 2, 3]) @ '':'' @ decimal (unat port)"
proof -
  have i: "i = \<lparr>v4_sockaddr = sa, v4_friendly_address = dotted (sin_addr sa),
      v4_friendly_name = dotted (sin_addr sa) @ '':'' @ decimal (unat (ntohs (sin_port sa)))\<rparr>"
    using assms(2) by (simp add: Ipv4Instance_sockaddr_def throwOnError_status_def ipv4_initHelper_def
        sockaddrToString_dotted_eq)
  have pton: "inet_pton4 net (c_str (dotted w)) = Some w" for w
    unfolding c_str_dotted using assms(1) by (simp only: dotted_def)
  have port: "unat (ucast p :: u32) = unat p" "(ucast (ucast p :: u32) :: u16) = p" for p :: u16
  proof -
    have "unat p < 2 ^ 32" using unat_less_two_power [of p] by simp
    then show "unat (ucast p :: u32) = unat p" by (simp add: unsigned_ucast_eq take_bit_nat_eq_self)
    show "(ucast (ucast p :: u32) :: u16) = p" by (rule bit_word_eqI) (simp add: bit_simps)
  qed
  show ?thesis
    unfolding dotted_def [symmetric]
    by (simp add: i copyInternetAddressAndPort_def getAddressWithPort_def Ipv4Instance_string_def
        throwOnError_status_def pton port ntohs_def Let_def)
qed

definition dotted_net :: os_net where
  "dotted_net = \<lparr>inet_pton4 = dotted_pton, inet_pton6 = (\<lambda>s. None), inet_ntop6 = (\<lambda>a. ''::''),
     getaddrinfo6 = (\<lambda>s. Inl 1)\<rparr>"

lemma copied_address_equal_witness:
  "\<exists>i j k. Ipv4Instance_sockaddr \<lparr>sin_family = AF_INET, sin_port = htons 80, sin_addr = quad 10 0 0 7\<rparr> = Inr i
    \<and> copyInternetAddressAndPort dotted_net (Ipv4Address i) = Inr (Ipv4Address j)
    \<and> v4_friendly_name j = v4_friendly_name i
    \<and> getAddressWithPort dotted_net (Ipv4Address i) 70000 = Inr (Ipv4Address k) \<and> ip_port (Ipv4Address k) = Some 4464"
proof -
  let ?sa = "\<lparr>sin_family = AF_INET, sin_port = htons 80, sin_addr = quad 10 0 0 7\<rparr>"
  have net: "\<forall>w. inet_pton4 dotted_net (dots (map (byte_of w) [0, 1, 2, 3])) = Some w"
    using dotted_pton_dotted by (simp add: dotted_net_def dotted_def)
  obtain i where i: "Ipv4Instance_sockaddr ?sa = Inr i"
    by (simp add: Ipv4Instance_sockaddr_def throwOnError_status_def ipv4_initHelper_def sockaddrToString_dotted_eq)
  show ?thesis using i copied_address_equal [OF net i, of 70000] by auto
qed

subsection \<open>Parsing\<close>

lemma find_first_SomeD: "find_first P xs = Some k \<Longrightarrow> k < length xs \<and> P (xs ! k)"
  by (induction P xs arbitrary: k rule: find_first.induct) (auto split: if_splits)

lemma find_last_SomeD: "find_last P xs = Some k \<Longrightarrow> k < length xs \<and> P (xs ! k)"
  using find_first_SomeD [of P "rev xs"] by (auto simp: find_last_def rev_nth)

lemma rfind_sub_Some:
  assumes "rfind_sub needle s = Some k"
  shows "k + length needle \<le> length s"
proof -
  have "k < length [0..<Suc (length s)]" "take (length needle) (drop ([0..<Suc (length s)] ! k) s) = needle"
    using find_last_SomeD [OF assms [unfolded rfind_sub_def]] by simp_all
  then have "k \<le> length s" "take (length needle) (drop k s) = needle" by (simp_all del: upt_Suc)
  then show ?thesis by (metis diff_add_inverse2 le_diff_conv2 length_drop length_take min.cobounded1 add.commute)
qed

lemma create_ipv4_fails: "createInstancePtr_ipv4 sa = Inr (Inl ipv4_validateProtocolSupported)"
  by (simp add: createInstancePtr_ipv4_def ipv4_validateProtocolSupported_def)

lemma create_ipv6_fails: "createInstancePtr_ipv6 net sa v = Inl ipv6_validateProtocolSupported"
  by (simp add: createInstancePtr_ipv6_def ipv6_validateProtocolSupported_def)

lemma parse_null:
  "parseInternetAddressNoThrow net ip port v6only = Inr None"
  "parseInternetAddressAndPortNoThrow a net ip v6only = Inr None"
proof -
  show "parseInternetAddressNoThrow net ip port v6only = Inr None"
    by (simp add: parseInternetAddressNoThrow_def create_ipv4_fails create_ipv6_fails instanceOrNull_def split: sum.splits)
  show "parseInternetAddressAndPortNoThrow a net ip v6only = Inr None"
  proof (cases "ip = []")
    case True
    then show ?thesis by (simp add: parseInternetAddressAndPortNoThrow_def)
  next
    case False
    then have "Suc 0 \<le> length ip" by (cases ip) simp_all
    moreover have "Suc (Suc k) \<le> length ip" if "rfind_sub '']:'' ip = Some k" for k
      using rfind_sub_Some [OF that] by simp
    moreover have "Suc k \<le> length ip" if "find_last (\<lambda>c. c = CHR '':'') ip = Some k" for k
      using find_last_SomeD [OF that] by simp
    ultimately show ?thesis using False
      by (auto simp: parseInternetAddressAndPortNoThrow_def create_ipv4_fails create_ipv6_fails instanceOrNull_def
          substr_def split: option.splits sum.splits)
  qed
qed

text \<open>Property C26. No IP address is ever made from a string or a socket address by the checked ways: both
  \<open>validateProtocolSupported\<close> report failure always, so that \<open>parseInternetAddress\<close> and
  \<open>parseInternetAddressAndPort\<close> throw for every string, also for a well-formed address, and
  \<open>addressFromSockAddrOrDie\<close> dereferences an empty \<open>StatusOr\<close> for every IPv4 or IPv6 address.\<close>

theorem ip_parsing_always_fails:
  "parseInternetAddress net ip port v6only = Inl (Envoy_exception (''malformed IP address: '' @ ip))
    \<and> parseInternetAddressAndPort a net ip v6only = Inl (Envoy_exception (''malformed IP address: '' @ ip))
    \<and> addressFromSockAddrOrDie net (Storage_in sin) len v6only = Inl Undefined_behaviour
    \<and> addressFromSockAddrOrDie net (Storage_in6 sin6) len v6only = Inl Undefined_behaviour"
  by (simp add: parseInternetAddress_def parseInternetAddressAndPort_def parse_null throwWithMalformedIp_def
      addressFromSockAddrOrDie_def addressFromSockAddr_def create_ipv4_fails create_ipv6_fails deref_statusor_def)

subsection \<open>Unix domain sockets\<close>

text \<open>A \<open>PipeInstance\<close> made from a path keeps an abstract path of less than 108 characters
  (with NULs shown as \<open>@\<close>), overruns \<open>sun_path\<close> for a longer one, and loses every other path: the
  socket address stays zero and the name empty, so that any two such addresses compare equal.\<close>

theorem pipe_paths:
  "if p \<noteq> [] \<and> hd p = CHR ''@'' then
     (if length p < 108
      then \<exists>i. PipeInstance_path p mode = Inr i \<and> asString (PipeAddress i) = friendlyNameFromAbstractPath p
        \<and> take (length p) (sun_path (pipe_sockaddr i)) = CHR 0x00 # tl p
      else PipeInstance_path p mode = Inl Undefined_behaviour)
   else \<exists>i. PipeInstance_path p mode = Inr i \<and> asString (PipeAddress i) = []
      \<and> sun_path (pipe_sockaddr i) = replicate 108 (CHR 0x00)"
proof (cases "p \<noteq> [] \<and> hd p = CHR ''@''")
  case False
  then show ?thesis
    by (auto simp: PipeInstance_path_def sun_path_c_str_def sockaddr_un_zero_def sun_path_size_def c_str_def)
next
  case True
  then obtain q where p: "p = CHR ''@'' # q" by (cases p) auto
  show ?thesis
  proof (cases "length p < 108")
    case len: True
    define path where "path = (blit 0 p (replicate 108 (CHR 0x00)))[0 := CHR 0x00, length p := CHR 0x00]"
    have "blit 0 p (replicate 108 (CHR 0x00)) = p @ replicate (108 - length p) (CHR 0x00)" by (simp add: blit_def)
    then have path: "path = (CHR 0x00 # q) @ (replicate (108 - length p) (CHR 0x00))[0 := CHR 0x00]"
      unfolding path_def p using list_update_append1 by (simp add: list_update_append)
    have "length path = 108" using len by (simp add: path_def)
    moreover have front: "take (length p) path = CHR 0x00 # q" by (simp add: path p)
    ultimately have "PipeInstance_path p mode = Inr \<lparr>pipe_sockaddr = \<lparr>sun_family = AF_UNIX, sun_path = path\<rparr>,
        pipe_abstract_namespace = True, pipe_address_length = word_of_nat (length p), pipe_mode = mode,
        pipe_friendly_name = friendlyNameFromAbstractPath (CHR 0x00 # q)\<rparr>"
      using True len
      by (simp add: PipeInstance_path_def sockaddr_un_zero_def sun_path_size_def sun_path_view_def path_def [symmetric] Let_def)
    then show ?thesis using True len front by (simp add: friendlyNameFromAbstractPath_def p)
  next
    case False
    then show ?thesis using True by (simp add: PipeInstance_path_def sun_path_size_def Let_def)
  qed
qed

lemma pipe_paths_witness:
  "(\<exists>i j. PipeInstance_path ''/tmp/a'' 0 = Inr i \<and> PipeInstance_path ''/tmp/b'' 0 = Inr j
      \<and> address_eq (PipeAddress i) (PipeAddress j))
    \<and> (\<exists>i. PipeInstance_path ''@ab'' 0 = Inr i \<and> asString (PipeAddress i) = ''@ab'')"
  using pipe_paths [of "''/tmp/a''" 0] pipe_paths [of "''/tmp/b''" 0] pipe_paths [of "''@ab''" 0]
  by (auto simp: friendlyNameFromAbstractPath_def)

section \<open>Ports and byte order\<close>

text \<open>Port lists round trip: a list of ranges with ends up to 65535, written as ports and
  \<open>low-high\<close> separated by commas, is parsed back to exactly these ranges, appended to the list; an
  address is in the list if it has an IP port in one of the ranges.\<close>

theorem port_ranges_roundtrip:
  assumes "absl_net_contract a" and "\<forall>r\<in>set rs. fst r \<le> 65535 \<and> snd r \<le> 65535"
  shows "parsePortRangeList a (with_commas (map show_range rs)) list = (list @ rs, None)
    \<and> (portInRangeList addr rs \<longleftrightarrow>
        (\<exists>p. ip_port addr = Some p \<and> (\<exists>r\<in>set rs. fst r \<le> unat p \<and> unat p \<le> snd r)))"
  using parsePortRangeList_show [OF assms]
  by (auto simp: portInRangeList_def range_contains_def list_ex_iff split: option.splits)

definition sample_absl_net :: absl_net where
  "sample_absl_net = \<lparr>StrSplit = (\<lambda>s d P. filter P (split_any d s)), StrJoin = join_with,
     StrReplaceAll = (\<lambda>s m. s), ascii_toupper = id, EqualsIgnoreCase = (=),
     StartsWith = (\<lambda>s p. take (length p) s = p), StrContains = (\<lambda>s c. c \<in> set s), SimpleAtoi = (\<lambda>s. None)\<rparr>"

lemma sample_absl_net_contract: "absl_net_contract sample_absl_net"
  using join_with_contract
  by (simp add: absl_net_contract_def absl_contract_def sample_absl_net_def absl.truncate_def)

lemma port_ranges_roundtrip_witness:
  "parsePortRangeList sample_absl_net (with_commas (map show_range [(80, 80), (8000, 8080)])) [(1, 2)]
      = ([(1, 2), (80, 80), (8000, 8080)], None)"
proof -
  have "\<forall>r\<in>set [(80, 80), (8000, 8080)]. fst r \<le> (65535 :: nat) \<and> snd r \<le> (65535 :: nat)" by simp
  from port_ranges_roundtrip [OF sample_absl_net_contract this, of "[(1, 2)]"] show ?thesis by simp
qed

text \<open>\<open>Ip6htonl\<close> reverses the sixteen bytes of an address, and \<open>Ip6ntohl\<close> undoes it.\<close>

theorem Ip6_byte_order:
  "Ip6ntohl (Ip6htonl w) = w \<and> map (byte_of (Ip6htonl w)) [0..<16] = rev (map (byte_of w) [0..<16])"
proof -
  have "map (byte_of (flipOrder w)) [0..<16] = rev (map (byte_of w) [0..<16])"
    by (rule nth_equalityI) (simp_all add: rev_nth flipOrder_bytes)
  then show ?thesis by (simp add: Ip6ntohl_def Ip6htonl_def)
qed

section \<open>Datagrams\<close>

text \<open>\<open>writeToSocket\<close> sends the whole content, in its raw slices, again as long as the call is
  interrupted: it returns exactly when some call is not, and then with the result of the first such
  call.\<close>

theorem writeToSocket_retries:
  assumes "own_inv b"
  shows "concat (getRawSlices None b) = content b
    \<and> (writeToSocket h b l p st = Some r \<longleftrightarrow>
        (\<exists>k. (\<forall>i<k. interrupted (send_at h (getRawSlices None b) l p i st))
          \<and> \<not> interrupted (send_at h (getRawSlices None b) l p k st)
          \<and> r = send_at h (getRawSlices None b) l p k st))"
proof (intro conjI iffI)
  show "concat (getRawSlices None b) = content b" using assms by (rule concat_getRawSlices)
next
  assume "writeToSocket h b l p st = Some r"
  then show "\<exists>k. (\<forall>i<k. interrupted (send_at h (getRawSlices None b) l p i st))
      \<and> \<not> interrupted (send_at h (getRawSlices None b) l p k st) \<and> r = send_at h (getRawSlices None b) l p k st"
    unfolding writeToSocket_def by (rule write_returns)
next
  assume "\<exists>k. (\<forall>i<k. interrupted (send_at h (getRawSlices None b) l p i st))
      \<and> \<not> interrupted (send_at h (getRawSlices None b) l p k st) \<and> r = send_at h (getRawSlices None b) l p k st"
  then show "writeToSocket h b l p st = Some r"
    unfolding writeToSocket_def by (elim exE conjE) (simp add: write_after_interrupts)
qed

text \<open>A handle for the witnesses: it is interrupted twice on sending, and receives five bytes, in segments
  of two.\<close>

definition sample_info :: packet_info where
  "sample_info = packet_info_new\<lparr>pi_gso := 2, pi_len := 2\<rparr>"

definition sample_handle :: "nat io_handle" where
  "sample_handle = \<lparr>h_sendmsg = (\<lambda>ss l p st. (\<lparr>io_value = length (concat ss),
        io_err = (if st < 2 then Some Interrupt else None)\<rparr>, st + 1)),
     h_recvmsg = (\<lambda>n port d st. ((take n [1, 2, 3, 4, 5], sample_info, d + 3,
        \<lparr>io_value = length (take n [1 :: byte, 2, 3, 4, 5]), io_err = None\<rparr>), st + 1)),
     h_recvmmsg = (\<lambda>ns port d st. (([], d, \<lparr>io_value = 0, io_err = None\<rparr>), st)),
     h_supportsMmsg = False, h_supportsUdpGro = True\<rparr>"

lemma sample_handle_contract: "io_handle_contract sample_handle"
  by (auto simp: io_handle_contract_def sample_handle_def)

definition sample_local :: address where
  "sample_local = Ipv4Address \<lparr>v4_sockaddr = \<lparr>sin_family = AF_INET, sin_port = 0, sin_addr = 0\<rparr>,
     v4_friendly_address = ''0.0.0.0'', v4_friendly_name = ''0.0.0.0:0''\<rparr>"

lemma writeToSocket_retries_witness:
  "writeToSocket sample_handle (owned_new None) None sample_local 0 = Some (\<lparr>io_value = 0, io_err = None\<rparr>, 3)"
proof -
  have g: "concat (getRawSlices None (owned_new None)) = []"
    using writeToSocket_retries [OF own_inv_new(1), of None sample_handle None sample_local 0 undefined] by simp
  have "send_at sample_handle (getRawSlices None (owned_new None)) None sample_local k 0 =
      (\<lparr>io_value = 0, io_err = (if k < 2 then Some Interrupt else None)\<rparr>, k + 1)" for k
  proof -
    have "after_sends sample_handle ss None sample_local k st = st + k" for ss st
      by (induction k arbitrary: st) (simp_all add: sample_handle_def)
    then show ?thesis by (simp add: send_at_def sample_handle_def g length_concat [symmetric] del: length_concat)
  qed
  then show ?thesis
    using writeToSocket_retries [OF own_inv_new(1), of None sample_handle None sample_local 0 "(\<lparr>io_value = 0, io_err = None\<rparr>, 3)"]
    by (auto simp: interrupted_def intro!: exI [of _ 2])
qed

text \<open>Property C25. \<open>readFromSocket\<close> returns and hands the processor exactly what was received, in order: a
  large receive cut into segments of the size the kernel gives, several messages one by one without the
  truncated ones, or the one message; nothing if the receive fails or is truncated.\<close>

theorem readFromSocket_delivers:
  fixes h :: "'h io_handle"
  assumes "io_handle_contract h" and "ip_port addr = Some port"
    and "0 < maxDatagramSize proc" and "16 * maxDatagramSize proc \<le> max_request"
  shows "\<exists>rslt evs d' st'. readFromSocket h addr proc t use_gro d st = Inr (rslt, evs, d', st')
    \<and> map event_payload evs = received h port (maxDatagramSize proc) use_gro d st"
  using readFromSocket_total [OF assms] by blast

lemma readFromSocket_delivers_witness:
  "\<exists>rslt evs d' st'. readFromSocket sample_handle sample_local \<lparr>maxDatagramSize = 100, numPacketsExpectedPerEventLoop = 3\<rparr>
      0 True 0 0 = Inr (rslt, evs, d', st') \<and> map event_payload evs = [[1, 2], [3, 4], [5]]"
proof -
  let ?proc = "\<lparr>maxDatagramSize = 100, numPacketsExpectedPerEventLoop = 3\<rparr>"
  have "ip_port sample_local = Some 0" by (simp add: sample_local_def ntohs_def htons_def)
  moreover have "0 < maxDatagramSize ?proc" "16 * maxDatagramSize ?proc \<le> max_request"
    by (simp_all add: max_request_def)
  moreover have "chunks 2 [1 :: byte, 2, 3, 4, 5] = [[1, 2], [3, 4], [5]]"
    by (subst chunks.simps, simp, subst chunks.simps, simp, subst chunks.simps, simp)
  then have "received sample_handle 0 100 True 0 0 = [[1, 2], [3, 4], [5]]"
    by (simp add: received_def sample_handle_def sample_info_def packet_info_new_def io_ok_def)
  ultimately show ?thesis
    using readFromSocket_delivers [OF sample_handle_contract, of sample_local 0 ?proc 0 True 0 0] by simp
qed

text \<open>Property C27. \<open>readPacketsFromSocket\<close> makes \<open>k\<close> reads that succeed, at most 6000: as many as it may when it
  returns no error, and otherwise the next one fails with the error it returns. The drops it reports to the processor
  add up (modulo \<open>2 ^ 32\<close>, across the counter's wrap-around) to the increase of the drop counter over the \<open>k\<close> reads;
  what the counter gained in the read that failed is in the counter it leaves behind and is not reported.\<close>

theorem readPackets_counts_drops:
  fixes h :: "'h io_handle"
  assumes "io_handle_contract h" and "ip_port addr = Some port"
    and "0 < maxDatagramSize proc" and "16 * maxDatagramSize proc \<le> max_request"
    and "use_gro = (prefer_gro \<and> h_supportsUdpGro h)"
  shows "\<exists>err evs d' st' k. readPacketsFromSocket h addr proc clock prefer_gro d st = Inr (err, evs, d', st')
    \<and> num_reads_for h proc use_gro \<in> {1..6000} \<and> k \<le> num_reads_for h proc use_gro
    \<and> (\<forall>i<k. io_ok (fst (handle_read h port (maxDatagramSize proc) use_gro
          (read_state h port (maxDatagramSize proc) use_gro i (d, st)))))
    \<and> sum_list (map event_dropped evs) = fst (read_state h port (maxDatagramSize proc) use_gro k (d, st)) - d
    \<and> (if err = None then k = num_reads_for h proc use_gro
            \<and> read_state h port (maxDatagramSize proc) use_gro k (d, st) = (d', st')
       else k < num_reads_for h proc use_gro
            \<and> (\<exists>r. handle_read h port (maxDatagramSize proc) use_gro
                   (read_state h port (maxDatagramSize proc) use_gro k (d, st)) = (r, d', st') \<and> io_err r = err))"
proof -
  have pos: "0 < num_reads_for h proc use_gro"
    using num_reads_bounds(1) [of h proc use_gro] by (metis less_eq_Suc_le One_nat_def)
  have "num_reads_for h proc use_gro \<in> {1..6000}" using num_reads_bounds [of h proc use_gro] by simp
  moreover have "readPacketsFromSocket h addr proc clock prefer_gro d st
      = read_loop (num_reads_for h proc use_gro) h addr proc clock 0 use_gro d st []"
    by (simp add: readPacketsFromSocket_def assms(5) Let_def)
  ultimately show ?thesis
    using read_loop_total [OF assms(1-4) pos, where clock = clock and i = 0 and d = d and st = st and evs = "[]"] by (simp only: append_Nil) blast
qed

text \<open>Two reads find a datagram, each after three more were dropped, the counter wrapping around; the third finds that
  none is left.\<close>

definition draining_handle :: "nat io_handle" where
  "draining_handle = sample_handle
     \<lparr>h_recvmsg := (\<lambda>n port d st.
        if st < 2 then ((take n [1], packet_info_new, d + 3, \<lparr>io_value = length (take n [1 :: byte]), io_err = None\<rparr>), st + 1)
        else (([], packet_info_new, d + 100, \<lparr>io_value = 0, io_err = Some Again\<rparr>), st + 1))\<rparr>"

theorem readPackets_counts_drops_witness:
  "\<exists>evs. readPacketsFromSocket draining_handle sample_local
      \<lparr>maxDatagramSize = 100, numPacketsExpectedPerEventLoop = 48\<rparr> id True 0xFFFFFFFE 0 = Inr (Some Again, evs, 104, 3)
    \<and> sum_list (map event_dropped evs) = 6"
proof -
  let ?proc = "\<lparr>maxDatagramSize = 100, numPacketsExpectedPerEventLoop = 48\<rparr>"
  let ?call = "handle_read draining_handle 0 100 True" and ?s = "\<lambda>k. read_state draining_handle 0 100 True k (0xFFFFFFFE, 0)"
  have c: "io_handle_contract draining_handle"
    by (auto simp: io_handle_contract_def draining_handle_def sample_handle_def io_ok_def split: if_splits)
  have port: "ip_port sample_local = Some 0" by (simp add: sample_local_def ntohs_def htons_def)
  have gro: "True = (True \<and> h_supportsUdpGro draining_handle)" by (simp add: draining_handle_def sample_handle_def)
  have max: "maxDatagramSize ?proc = 100" by simp
  have size: "0 < maxDatagramSize ?proc" "16 * maxDatagramSize ?proc \<le> max_request" by (simp_all add: max_request_def)
  obtain err evs d' st' k where r: "readPacketsFromSocket draining_handle sample_local ?proc id True 0xFFFFFFFE 0
      = Inr (err, evs, d', st')"
    "num_reads_for draining_handle ?proc True \<in> {1..6000}" "k \<le> num_reads_for draining_handle ?proc True"
    "\<forall>i<k. io_ok (fst (?call (?s i)))" "sum_list (map event_dropped evs) = fst (?s k) - 0xFFFFFFFE"
    "if err = None then k = num_reads_for draining_handle ?proc True \<and> ?s k = (d', st')
     else k < num_reads_for draining_handle ?proc True \<and> (\<exists>r. ?call (?s k) = (r, d', st') \<and> io_err r = err)"
    using readPackets_counts_drops [OF c port size gro, of id "0xFFFFFFFE" 0] unfolding max by blast
  have n: "num_reads_for draining_handle ?proc True = 3"
    by (simp add: num_reads_for_def MAX_NUM_PACKETS_PER_EVENT_LOOP_def NUM_DATAGRAMS_PER_RECEIVE_def)
  have step: "?call (d, st) = (if st < 2 then (\<lparr>io_value = 1, io_err = None\<rparr>, d + 3, st + 1)
      else (\<lparr>io_value = 0, io_err = Some Again\<rparr>, d + 100, st + 1))" for d st
    by (simp add: handle_read_def draining_handle_def)
  have s: "?s 0 = (0xFFFFFFFE, 0)" "?s (Suc 0) = (1, 1)" "?s (Suc (Suc 0)) = (4, 2)" by (simp_all add: step)
  have "\<not> Suc (Suc 0) < k" using r(4) s(3) by (auto simp: step io_ok_def)
  moreover have "k \<noteq> 0"
  proof
    assume "k = 0"
    then show False using r(6) s(1) n by (auto simp: step split: if_splits)
  qed
  moreover have "k \<noteq> Suc 0"
  proof
    assume "k = Suc 0"
    then show False using r(6) s(2) n by (auto simp: step split: if_splits)
  qed
  ultimately have "k = Suc (Suc 0)" by linarith
  then show ?thesis using r(1,5,6) n s(3) by (auto simp: step split: if_splits)
qed

end
