(* ===== verification/Scheduling.thy ===== *)
theory Scheduling
  imports Prelude
begin

text \<open>
  The thin classes over libevent in \<open>common/event\<close>: \<open>SchedulableCallbackImpl\<close>, \<open>TimerImpl\<close> with
  \<open>TimerUtils\<close>, \<open>ImplBase\<close>, \<open>FileEventImpl\<close> and the flags of \<open>LibeventScheduler::run\<close>. libevent is not part
  of the tree: it is a record of functions over a state \<open>'l\<close>, a parameter of every definition; an event
  is a number naming its \<open>event\<close> structure. \<open>libevent_contract\<close> states what libevent documents of the
  functions and the code relies on: which events are pending.
\<close>

section \<open>libevent\<close>

record timeval =
  tv_sec :: int
  tv_usec :: int

type_synonym ev = nat

text \<open>\<open>lib_fire\<close> is what the loop does to an event before it runs its callback.\<close>

record 'l libevent =
  lib_active :: "ev \<Rightarrow> 'l \<Rightarrow> 'l"
  lib_add :: "ev \<Rightarrow> timeval option \<Rightarrow> 'l \<Rightarrow> 'l"
  lib_del :: "ev \<Rightarrow> 'l \<Rightarrow> 'l"
  lib_pending :: "ev \<Rightarrow> 'l \<Rightarrow> bool"
  lib_fire :: "ev \<Rightarrow> 'l \<Rightarrow> 'l"
  lib_assign :: "ev \<Rightarrow> u32 \<Rightarrow> 'l \<Rightarrow> 'l"

text \<open>The contract. \<open>event_add\<close> makes an event pending that has a condition or a time to wait for; it is documented for
  nothing else (an event of a file with the empty mask is accepted and not inserted).\<close>

definition libevent_contract :: "'l libevent \<Rightarrow> bool" where
  "libevent_contract lib \<longleftrightarrow>
     (\<forall>e e' l. lib_pending lib e (lib_active lib e' l) = (e = e' \<or> lib_pending lib e l))
     \<and> (\<forall>e e' tv l. lib_pending lib e (lib_add lib e' tv l) = (e = e' \<or> lib_pending lib e l))
     \<and> (\<forall>e e' l. lib_pending lib e (lib_del lib e' l) = (e \<noteq> e' \<and> lib_pending lib e l))
     \<and> (\<forall>e e' l. lib_pending lib e (lib_fire lib e' l) = (e \<noteq> e' \<and> lib_pending lib e l))
     \<and> (\<forall>e e' m l. lib_pending lib e (lib_assign lib e' m l) = (e \<noteq> e' \<and> lib_pending lib e l))"

section \<open>Schedulable callbacks\<close>

definition scb_enabled :: "'l libevent \<Rightarrow> ev \<Rightarrow> 'l \<Rightarrow> bool" where
  "scb_enabled lib e l = lib_pending lib e l"

definition scheduleCallbackCurrentIteration :: "'l libevent \<Rightarrow> ev \<Rightarrow> 'l \<Rightarrow> 'l" where
  "scheduleCallbackCurrentIteration lib e l = (if scb_enabled lib e l then l else lib_active lib e l)"

definition scheduleCallbackNextIteration :: "'l libevent \<Rightarrow> ev \<Rightarrow> 'l \<Rightarrow> 'l" where
  "scheduleCallbackNextIteration lib e l =
     (if scb_enabled lib e l then l else lib_add lib e (Some \<lparr>tv_sec = 0, tv_usec = 0\<rparr>) l)"

definition scb_cancel :: "'l libevent \<Rightarrow> ev \<Rightarrow> 'l \<Rightarrow> 'l" where
  "scb_cancel lib e l = lib_del lib e l"

section \<open>Timers\<close>

text \<open>
  \<open>durationToTimeval\<close> for a duration of \<open>ticks\<close>, \<open>per_sec\<close> of them to a second (1000 or 1000000);
  \<open>duration_cast\<close> truncates towards zero. The check for a negative duration has an empty body.
\<close>

definition truncating_div :: "int \<Rightarrow> int \<Rightarrow> int" where
  "truncating_div a b = (if a < 0 then - ((- a) div b) else a div b)"

definition durationToTimeval :: "int \<Rightarrow> int \<Rightarrow> timeval" where
  "durationToTimeval per_sec ticks =
     (let clip_to = 2147483647; secs = truncating_div ticks per_sec in
      if secs > clip_to then \<lparr>tv_sec = clip_to, tv_usec = 0\<rparr>
      else let usecs = (ticks - secs * per_sec) * (1000000 div per_sec)
        in \<lparr>tv_sec = secs, tv_usec = usecs\<rparr>)"

text \<open>A timer: its event and the tracked object it was armed with (\<open>None\<close> for null).\<close>

record timer =
  tm_event :: ev
  tm_object :: "nat option"

definition internalEnableTimer :: "'l libevent \<Rightarrow> timeval \<Rightarrow> nat option \<Rightarrow> timer \<times> 'l \<Rightarrow> timer \<times> 'l" where
  "internalEnableTimer lib tv obj t =
     (let (tm, l) = t in (tm\<lparr>tm_object := obj\<rparr>, lib_add lib (tm_event tm) (Some tv) l))"

definition enableTimer :: "'l libevent \<Rightarrow> int \<Rightarrow> nat option \<Rightarrow> timer \<times> 'l \<Rightarrow> timer \<times> 'l" where
  "enableTimer lib ms obj t = internalEnableTimer lib (durationToTimeval 1000 ms) obj t"

definition enableHRTimer :: "'l libevent \<Rightarrow> int \<Rightarrow> nat option \<Rightarrow> timer \<times> 'l \<Rightarrow> timer \<times> 'l" where
  "enableHRTimer lib us obj t = internalEnableTimer lib (durationToTimeval 1000000 us) obj t"

definition disableTimer :: "'l libevent \<Rightarrow> timer \<times> 'l \<Rightarrow> timer \<times> 'l" where
  "disableTimer lib t = (let (tm, l) = t in (tm, lib_del lib (tm_event tm) l))"

definition timer_enabled :: "'l libevent \<Rightarrow> timer \<times> 'l \<Rightarrow> bool" where
  "timer_enabled lib t = lib_pending lib (tm_event (fst t)) (snd t)"

text \<open>The callback libevent calls: the tracked object is forgotten before the timer's own callback runs.\<close>

definition timer_callback :: "(timer \<times> 'l \<Rightarrow> timer \<times> 'l) \<Rightarrow> timer \<times> 'l \<Rightarrow> timer \<times> 'l" where
  "timer_callback cb t =
     (let (tm, l) = t in
      if tm_object tm = None then cb (tm, l) else cb (tm\<lparr>tm_object := None\<rparr>, l))"

section \<open>The run modes\<close>

datatype run_type = Block | NonBlock | RunUntilExit

datatype trigger_type = Level | Edge | EmulatedEdge

text \<open>The platform is POSIX without \<open>FORCE_LEVEL_EVENTS\<close>.\<close>

definition PlatformDefaultTriggerType :: trigger_type where
  "PlatformDefaultTriggerType = Edge"

definition EVLOOP_ONCE :: u32 where "EVLOOP_ONCE = 1"
definition EVLOOP_NONBLOCK :: u32 where "EVLOOP_NONBLOCK = 2"
definition EVLOOP_NO_EXIT_ON_EMPTY :: u32 where "EVLOOP_NO_EXIT_ON_EMPTY = 4"

definition flagsBasedOnEventType :: u32 where
  "flagsBasedOnEventType =
     (if PlatformDefaultTriggerType = Level then EVLOOP_NONBLOCK OR EVLOOP_ONCE else EVLOOP_NONBLOCK)"

fun run_flag :: "run_type \<Rightarrow> u32" where
  "run_flag NonBlock = flagsBasedOnEventType"
| "run_flag Block = 0"
| "run_flag RunUntilExit = EVLOOP_NO_EXIT_ON_EMPTY"

section \<open>File events\<close>

definition ReadyRead :: u32 where "ReadyRead = 1"
definition ReadyWrite :: u32 where "ReadyWrite = 2"
definition ReadyClosed :: u32 where "ReadyClosed = 4"

definition EV_READ :: u32 where "EV_READ = 2"
definition EV_WRITE :: u32 where "EV_WRITE = 4"
definition EV_PERSIST :: u32 where "EV_PERSIST = 0x10"
definition EV_ET :: u32 where "EV_ET = 0x20"
definition EV_CLOSED :: u32 where "EV_CLOSED = 0x80"

record file_event =
  fe_event :: ev
  fe_activation :: ev
  fe_trigger :: trigger_type
  fe_enabled :: u32
  fe_injected :: u32

text \<open>The flags \<open>assignEvents\<close> registers, and the bits its libevent callback hands on.\<close>

definition registered_flags :: "trigger_type \<Rightarrow> u32 \<Rightarrow> u32" where
  "registered_flags trigger events =
     EV_PERSIST OR (if trigger = Edge then EV_ET else 0)
     OR (if events AND ReadyRead \<noteq> 0 then EV_READ else 0)
     OR (if events AND ReadyWrite \<noteq> 0 then EV_WRITE else 0)
     OR (if events AND ReadyClosed \<noteq> 0 then EV_CLOSED else 0)"

definition ready_of_what :: "u32 \<Rightarrow> u32" where
  "ready_of_what what =
     (if what AND EV_READ \<noteq> 0 then ReadyRead else 0)
     OR (if what AND EV_WRITE \<noteq> 0 then ReadyWrite else 0)
     OR (if what AND EV_CLOSED \<noteq> 0 then ReadyClosed else 0)"

definition assignEvents :: "'l libevent \<Rightarrow> u32 \<Rightarrow> file_event \<times> 'l \<Rightarrow> file_event \<times> 'l" where
  "assignEvents lib events f =
     (let (fe, l) = f in
      (fe\<lparr>fe_enabled := events\<rparr>, lib_assign lib (fe_event fe) (registered_flags (fe_trigger fe) events) l))"

definition FileEventImpl_new :: "'l libevent \<Rightarrow> ev \<Rightarrow> ev \<Rightarrow> trigger_type \<Rightarrow> u32 \<Rightarrow> 'l \<Rightarrow> file_event \<times> 'l" where
  "FileEventImpl_new lib e act trigger events l =
     (let (fe, l1) = assignEvents lib events
            (\<lparr>fe_event = e, fe_activation = act, fe_trigger = trigger, fe_enabled = events, fe_injected = 0\<rparr>, l)
      in (fe, lib_add lib e None l1))"

definition fe_activate :: "'l libevent \<Rightarrow> u32 \<Rightarrow> file_event \<times> 'l \<Rightarrow> file_event \<times> 'l" where
  "fe_activate lib events f =
     (let (fe, l) = f;
          l1 = (if fe_injected fe = 0 then scheduleCallbackNextIteration lib (fe_activation fe) l else l)
      in (fe\<lparr>fe_injected := fe_injected fe OR events\<rparr>, l1))"

definition updateEvents :: "'l libevent \<Rightarrow> u32 \<Rightarrow> file_event \<times> 'l \<Rightarrow> file_event \<times> 'l" where
  "updateEvents lib events f =
     (let (fe, l) = f in
      if events = fe_enabled fe \<and> fe_trigger fe \<noteq> Edge then (fe, l)
      else let (fe1, l1) = assignEvents lib events (fe, lib_del lib (fe_event fe) l)
        in (fe1, lib_add lib (fe_event fe1) None l1))"

definition setEnabled :: "'l libevent \<Rightarrow> u32 \<Rightarrow> file_event \<times> 'l \<Rightarrow> file_event \<times> 'l" where
  "setEnabled lib events f =
     (let (fe, l) = f in
      updateEvents lib events
        (if fe_injected fe \<noteq> 0 then (fe\<lparr>fe_injected := 0\<rparr>, scb_cancel lib (fe_activation fe) l) else (fe, l)))"

definition unregisterEventIfEmulatedEdge :: "'l libevent \<Rightarrow> u32 \<Rightarrow> file_event \<times> 'l \<Rightarrow> file_event \<times> 'l" where
  "unregisterEventIfEmulatedEdge lib event f =
     (if PlatformDefaultTriggerType = EmulatedEdge \<and> fe_trigger (fst f) = EmulatedEdge
      then updateEvents lib (fe_enabled (fst f) AND NOT event) f else f)"

definition registerEventIfEmulatedEdge :: "'l libevent \<Rightarrow> u32 \<Rightarrow> file_event \<times> 'l \<Rightarrow> file_event \<times> 'l" where
  "registerEventIfEmulatedEdge lib event f =
     (if PlatformDefaultTriggerType = EmulatedEdge \<and> fe_trigger (fst f) = EmulatedEdge
      then updateEvents lib (fe_enabled (fst f) OR event) f else f)"

text \<open>\<open>mergeInjectedEventsAndRunCb\<close>: the new state and the events the callback is called with.\<close>

definition mergeInjectedEvents :: "'l libevent \<Rightarrow> u32 \<Rightarrow> file_event \<times> 'l \<Rightarrow> u32 \<times> file_event \<times> 'l" where
  "mergeInjectedEvents lib events f =
     (let (fe, l) = f;
          (events1, f1) =
            (if fe_injected fe \<noteq> 0
             then (events OR fe_injected fe, (fe\<lparr>fe_injected := 0\<rparr>, scb_cancel lib (fe_activation fe) l))
             else (events, (fe, l)));
          f2 = (if PlatformDefaultTriggerType = EmulatedEdge \<and> fe_trigger (fst f1) = EmulatedEdge
                then unregisterEventIfEmulatedEdge lib (events1 AND (ReadyWrite OR ReadyRead)) f1 else f1)
      in (events1, f2))"

section \<open>Lemmas\<close>

lemma libevent_simps:
  assumes lib: "libevent_contract lib"
  shows "lib_pending lib e (lib_active lib e' l) = (e = e' \<or> lib_pending lib e l)"
  "lib_pending lib e (lib_add lib e' tv l) = (e = e' \<or> lib_pending lib e l)"
  "lib_pending lib e (lib_del lib e' l) = (e \<noteq> e' \<and> lib_pending lib e l)"
  "lib_pending lib e (lib_fire lib e' l) = (e \<noteq> e' \<and> lib_pending lib e l)"
  "lib_pending lib e (lib_assign lib e' m l) = (e \<noteq> e' \<and> lib_pending lib e l)"
  by (simp_all only: lib [unfolded libevent_contract_def])

end
