(* ===== verification/Dispatcher.thy ===== *)
theory Dispatcher
  imports Scheduling
begin

text \<open>
  \<open>Event::DispatcherImpl\<close> (\<open>common/event/DispatcherImpl.cpp\<close>). The record holds the fields that change; the
  time source, the thread factory and libevent are parameters. \<open>destroyed\<close> records the objects whose
  destructor has run, in order. The three callbacks of the dispatcher are three events of its libevent base.

  A deferred object is a number and the objects its destructor hands to \<open>deferredDelete\<close> in turn, so
  that destructors which defer further deletions are covered.
\<close>

section \<open>State\<close>

datatype deletable = Deletable (obj_id: nat) (obj_owns: "deletable list")

definition post_cb :: ev where "post_cb = 0"
definition deferred_delete_cb :: ev where "deferred_delete_cb = 1"
definition thread_local_delete_cb :: ev where "thread_local_delete_cb = 2"

lemma cb_distinct [simp]:
  "post_cb \<noteq> deferred_delete_cb" "post_cb \<noteq> thread_local_delete_cb" "deferred_delete_cb \<noteq> thread_local_delete_cb"
  "deferred_delete_cb \<noteq> post_cb" "thread_local_delete_cb \<noteq> post_cb" "thread_local_delete_cb \<noteq> deferred_delete_cb"
  by (simp_all add: post_cb_def deferred_delete_cb_def thread_local_delete_cb_def)

record ('c, 'l) dispatcher =
  post_callbacks :: "'c list"
  deletables_in_dispatcher_thread :: "nat list"
  to_delete_1 :: "deletable list"
  to_delete_2 :: "deletable list"
  current_is_first :: bool
  deferred_deleting :: bool
  tracked_object_stack :: "nat list"
  shutdown_called :: bool
  approximate_monotonic_time :: int
  run_tid :: "nat option"
  destroyed :: "nat list"
  event_base :: 'l

definition DispatcherImpl_new :: "int \<Rightarrow> 'l \<Rightarrow> ('c, 'l) dispatcher" where
  "DispatcherImpl_new now l =
     \<lparr>post_callbacks = [], deletables_in_dispatcher_thread = [], to_delete_1 = [], to_delete_2 = [],
      current_is_first = True, deferred_deleting = False, tracked_object_stack = [],
      shutdown_called = False, approximate_monotonic_time = now, run_tid = None, destroyed = [],
      event_base = l\<rparr>"

text \<open>\<open>current_to_delete_\<close> points to one of the two vectors.\<close>

definition current_to_delete :: "('c, 'l) dispatcher \<Rightarrow> deletable list" where
  "current_to_delete d = (if current_is_first d then to_delete_1 d else to_delete_2 d)"

definition other_to_delete :: "('c, 'l) dispatcher \<Rightarrow> deletable list" where
  "other_to_delete d = (if current_is_first d then to_delete_2 d else to_delete_1 d)"

definition set_current :: "deletable list \<Rightarrow> ('c, 'l) dispatcher \<Rightarrow> ('c, 'l) dispatcher" where
  "set_current xs d = (if current_is_first d then d\<lparr>to_delete_1 := xs\<rparr> else d\<lparr>to_delete_2 := xs\<rparr>)"

definition schedule :: "'l libevent \<Rightarrow> ev \<Rightarrow> ('c, 'l) dispatcher \<Rightarrow> ('c, 'l) dispatcher" where
  "schedule lib e d = d\<lparr>event_base := scheduleCallbackCurrentIteration lib e (event_base d)\<rparr>"

section \<open>Deferred deletion\<close>

definition deferredDelete ::
    "'l libevent \<Rightarrow> deletable option \<Rightarrow> ('c, 'l) dispatcher \<Rightarrow> ('c, 'l) dispatcher" where
  "deferredDelete lib to_delete d =
     (case to_delete of
        None \<Rightarrow> d
      | Some x \<Rightarrow>
          let d1 = set_current (current_to_delete d @ [x]) d in
          if length (current_to_delete d1) = 1 then schedule lib deferred_delete_cb d1 else d1)"

text \<open>\<open>(*to_delete)[i].reset()\<close> for every element: its destructor defers what it owns.\<close>

fun reset_all :: "'l libevent \<Rightarrow> deletable list \<Rightarrow> ('c, 'l) dispatcher \<Rightarrow> ('c, 'l) dispatcher" where
  "reset_all lib [] d = d"
| "reset_all lib (Deletable i owned # xs) d =
     reset_all lib xs (fold (\<lambda>x. deferredDelete lib (Some x)) owned (d\<lparr>destroyed := destroyed d @ [i]\<rparr>))"

definition clearDeferredDeleteList :: "'l libevent \<Rightarrow> ('c, 'l) dispatcher \<Rightarrow> ('c, 'l) dispatcher" where
  "clearDeferredDeleteList lib d =
     (let first = current_is_first d; to_delete = current_to_delete d in
      if deferred_deleting d \<or> to_delete = [] then d
      else let d1 = reset_all lib to_delete (d\<lparr>current_is_first := \<not> first, deferred_deleting := True\<rparr>);
               d2 = (if first then d1\<lparr>to_delete_1 := []\<rparr> else d1\<lparr>to_delete_2 := []\<rparr>)
        in d2\<lparr>deferred_deleting := False\<rparr>)"

section \<open>Posting\<close>

text \<open>
  \<open>post\<close> and \<open>deleteInDispatcherThread\<close> in the two parts other threads can come between: what is done
  under the lock, which says whether the callback must be scheduled, and the scheduling after it.
\<close>

definition post_locked :: "'c \<Rightarrow> ('c, 'l) dispatcher \<Rightarrow> bool \<times> ('c, 'l) dispatcher" where
  "post_locked c d = (post_callbacks d = [], d\<lparr>post_callbacks := post_callbacks d @ [c]\<rparr>)"

definition post :: "'l libevent \<Rightarrow> 'c \<Rightarrow> ('c, 'l) dispatcher \<Rightarrow> ('c, 'l) dispatcher" where
  "post lib c d = (let (do_post, d1) = post_locked c d in if do_post then schedule lib post_cb d1 else d1)"

definition delete_locked :: "nat \<Rightarrow> ('c, 'l) dispatcher \<Rightarrow> bool \<times> ('c, 'l) dispatcher" where
  "delete_locked x d =
     (deletables_in_dispatcher_thread d = [],
      d\<lparr>deletables_in_dispatcher_thread := deletables_in_dispatcher_thread d @ [x]\<rparr>)"

definition deleteInDispatcherThread :: "'l libevent \<Rightarrow> nat \<Rightarrow> ('c, 'l) dispatcher \<Rightarrow> ('c, 'l) dispatcher" where
  "deleteInDispatcherThread lib x d =
     (let (need_schedule, d1) = delete_locked x d
      in if need_schedule then schedule lib thread_local_delete_cb d1 else d1)"

text \<open>The critical sections of \<open>runPostCallbacks\<close> and \<open>runThreadLocalDelete\<close>: the list is moved out.\<close>

definition take_posts :: "('c, 'l) dispatcher \<Rightarrow> 'c list \<times> ('c, 'l) dispatcher" where
  "take_posts d = (post_callbacks d, d\<lparr>post_callbacks := []\<rparr>)"

definition take_deletables :: "('c, 'l) dispatcher \<Rightarrow> nat list \<times> ('c, 'l) dispatcher" where
  "take_deletables d = (deletables_in_dispatcher_thread d, d\<lparr>deletables_in_dispatcher_thread := []\<rparr>)"

text \<open>Without other threads; \<open>call\<close> runs a callback.\<close>

definition runPostCallbacks ::
    "'l libevent \<Rightarrow> ('c \<Rightarrow> ('c, 'l) dispatcher \<Rightarrow> ('c, 'l) dispatcher)
      \<Rightarrow> ('c, 'l) dispatcher \<Rightarrow> ('c, 'l) dispatcher" where
  "runPostCallbacks lib call d =
     (let (callbacks, d1) = take_posts (clearDeferredDeleteList lib d) in fold call callbacks d1)"

definition runThreadLocalDelete :: "('c, 'l) dispatcher \<Rightarrow> ('c, 'l) dispatcher" where
  "runThreadLocalDelete d =
     (let (to_be_delete, d1) = take_deletables d in d1\<lparr>destroyed := destroyed d1 @ to_be_delete\<rparr>)"

definition dispatcher_run ::
    "'l libevent \<Rightarrow> ('c \<Rightarrow> ('c, 'l) dispatcher \<Rightarrow> ('c, 'l) dispatcher)
      \<Rightarrow> (u32 \<Rightarrow> ('c, 'l) dispatcher \<Rightarrow> ('c, 'l) dispatcher) \<Rightarrow> nat \<Rightarrow> run_type
      \<Rightarrow> ('c, 'l) dispatcher \<Rightarrow> ('c, 'l) dispatcher" where
  "dispatcher_run lib call base_loop tid type d =
     base_loop (run_flag type) (runPostCallbacks lib call (d\<lparr>run_tid := Some tid\<rparr>))"

definition isThreadSafe :: "nat \<Rightarrow> ('c, 'l) dispatcher \<Rightarrow> bool" where
  "isThreadSafe tid d = (run_tid d = None \<or> run_tid d = Some tid)"

text \<open>\<open>shutdown\<close> destroys the deletables of other threads; posted callbacks are left in the list.\<close>

definition shutdown :: "('c, 'l) dispatcher \<Rightarrow> ('c, 'l) dispatcher" where
  "shutdown d =
     (let (local_deletables, d1) = take_deletables d
      in d1\<lparr>destroyed := destroyed d1 @ local_deletables, shutdown_called := True\<rparr>)"

definition updateApproximateMonotonicTime :: "int \<Rightarrow> ('c, 'l) dispatcher \<Rightarrow> ('c, 'l) dispatcher" where
  "updateApproximateMonotonicTime now d = d\<lparr>approximate_monotonic_time := now\<rparr>"

definition pushTrackedObject :: "nat \<Rightarrow> ('c, 'l) dispatcher \<Rightarrow> ('c, 'l) dispatcher" where
  "pushTrackedObject x d = d\<lparr>tracked_object_stack := tracked_object_stack d @ [x]\<rparr>"

text \<open>The two asserts are commented out: popping an empty stack is undefined, and the object is not compared.\<close>

definition popTrackedObject :: "nat \<Rightarrow> ('c, 'l) dispatcher \<Rightarrow> ('c, 'l) dispatcher result" where
  "popTrackedObject expected d =
     (if tracked_object_stack d = [] then Inl Undefined_behaviour
      else Inr (d\<lparr>tracked_object_stack := butlast (tracked_object_stack d)\<rparr>))"


section \<open>The two mailboxes\<close>

text \<open>\<open>post\<close> with \<open>runPostCallbacks\<close> and \<open>deleteInDispatcherThread\<close> with \<open>runThreadLocalDelete\<close> share a contract:
  what is sent is received in order, all at once, and only the first of a batch asks for a wake-up.\<close>

locale mailbox =
  fixes items :: "'d \<Rightarrow> 'x list" and send :: "'x \<Rightarrow> 'd \<Rightarrow> bool \<times> 'd" and receive :: "'d \<Rightarrow> 'x list \<times> 'd"
  assumes send_first: "fst (send x d) \<longleftrightarrow> items d = []"
    and items_send: "items (snd (send x d)) = items d @ [x]"
    and receive_all: "fst (receive d) = items d"
    and items_receive: "items (snd (receive d)) = []"
begin

lemma items_send_many: "items (fold (\<lambda>x d. snd (send x d)) xs d) = items d @ xs"
  by (induction xs arbitrary: d) (simp_all add: items_send)

lemma receive_sent: "fst (receive (fold (\<lambda>x d. snd (send x d)) xs (snd (receive d)))) = xs"
  by (simp add: receive_all items_send_many items_receive)

lemma wakes_once: "fst (send x (fold (\<lambda>x d. snd (send x d)) xs d)) \<longleftrightarrow> items d = [] \<and> xs = []"
  by (simp add: send_first items_send_many)

end

interpretation posts: mailbox post_callbacks post_locked take_posts
  by unfold_locales (simp_all add: post_locked_def take_posts_def)

interpretation deletions: mailbox deletables_in_dispatcher_thread delete_locked take_deletables
  by unfold_locales (simp_all add: delete_locked_def take_deletables_def)

section \<open>Lemmas: deferred deletion\<close>

named_theorems disp_simps "what the steps of the dispatcher do to its fields"

lemma set_current_simps [disp_simps]:
  "current_to_delete (set_current xs d) = xs"
  "other_to_delete (set_current xs d) = other_to_delete d"
  "post_callbacks (set_current xs d) = post_callbacks d"
  "deletables_in_dispatcher_thread (set_current xs d) = deletables_in_dispatcher_thread d"
  "deferred_deleting (set_current xs d) = deferred_deleting d"
  "current_is_first (set_current xs d) = current_is_first d"
  "destroyed (set_current xs d) = destroyed d"
  "event_base (set_current xs d) = event_base d"
  by (simp_all add: set_current_def current_to_delete_def other_to_delete_def)

lemma schedule_simps [disp_simps]:
  "current_to_delete (schedule lib e d) = current_to_delete d"
  "other_to_delete (schedule lib e d) = other_to_delete d"
  "post_callbacks (schedule lib e d) = post_callbacks d"
  "deletables_in_dispatcher_thread (schedule lib e d) = deletables_in_dispatcher_thread d"
  "deferred_deleting (schedule lib e d) = deferred_deleting d"
  "current_is_first (schedule lib e d) = current_is_first d"
  "destroyed (schedule lib e d) = destroyed d"
  by (simp_all add: schedule_def current_to_delete_def other_to_delete_def)

lemma schedule_pending:
  assumes "libevent_contract lib"
  shows "lib_pending lib e (event_base (schedule lib e' d)) \<longleftrightarrow> e = e' \<or> lib_pending lib e (event_base d)"
  using libevent_simps [OF assms]
  by (auto simp: schedule_def scheduleCallbackCurrentIteration_def scb_enabled_def)

lemma update_simps [disp_simps]:
  "current_to_delete (d\<lparr>destroyed := a\<rparr>) = current_to_delete d"
  "current_to_delete (d\<lparr>event_base := l\<rparr>) = current_to_delete d"
  "current_to_delete (d\<lparr>post_callbacks := ps\<rparr>) = current_to_delete d"
  "current_to_delete (d\<lparr>deletables_in_dispatcher_thread := xs\<rparr>) = current_to_delete d"
  "current_to_delete (d\<lparr>deferred_deleting := b\<rparr>) = current_to_delete d"
  "other_to_delete (d\<lparr>destroyed := a\<rparr>) = other_to_delete d"
  "other_to_delete (d\<lparr>event_base := l\<rparr>) = other_to_delete d"
  "other_to_delete (d\<lparr>post_callbacks := ps\<rparr>) = other_to_delete d"
  "other_to_delete (d\<lparr>deletables_in_dispatcher_thread := xs\<rparr>) = other_to_delete d"
  "other_to_delete (d\<lparr>deferred_deleting := b\<rparr>) = other_to_delete d"
  by (simp_all add: current_to_delete_def other_to_delete_def)

text \<open>Everything \<open>deferredDelete\<close> leaves alone.\<close>

definition same_but_current :: "('c, 'l) dispatcher \<Rightarrow> ('c, 'l) dispatcher \<Rightarrow> bool" where
  "same_but_current d d' \<longleftrightarrow>
     post_callbacks d' = post_callbacks d
     \<and> deletables_in_dispatcher_thread d' = deletables_in_dispatcher_thread d
     \<and> deferred_deleting d' = deferred_deleting d \<and> current_is_first d' = current_is_first d
     \<and> other_to_delete d' = other_to_delete d"

lemma deferredDelete_Some:
  assumes "libevent_contract lib"
  shows "current_to_delete (deferredDelete lib (Some x) d) = current_to_delete d @ [x]"
    and "same_but_current d (deferredDelete lib (Some x) d)"
    and "destroyed (deferredDelete lib (Some x) d) = destroyed d"
    and "lib_pending lib e (event_base (deferredDelete lib (Some x) d)) \<longleftrightarrow>
           lib_pending lib e (event_base d) \<or> e = deferred_delete_cb \<and> current_to_delete d = []"
  by (auto simp: deferredDelete_def Let_def disp_simps schedule_pending [OF assms] same_but_current_def)

lemma fold_deferredDelete:
  assumes "libevent_contract lib"
  shows "current_to_delete (fold (\<lambda>x. deferredDelete lib (Some x)) xs d) = current_to_delete d @ xs
    \<and> same_but_current d (fold (\<lambda>x. deferredDelete lib (Some x)) xs d)
    \<and> destroyed (fold (\<lambda>x. deferredDelete lib (Some x)) xs d) = destroyed d
    \<and> (lib_pending lib e (event_base (fold (\<lambda>x. deferredDelete lib (Some x)) xs d)) \<longleftrightarrow>
         lib_pending lib e (event_base d) \<or> e = deferred_delete_cb \<and> current_to_delete d = [] \<and> xs \<noteq> [])"
proof (induction xs arbitrary: d)
  case Nil
  then show ?case by (simp add: same_but_current_def)
next
  case (Cons x xs)
  show ?case
    using Cons.IH [of "deferredDelete lib (Some x) d"] deferredDelete_Some [OF assms, where x = x and d = d]
    by (auto simp: same_but_current_def)
qed

lemma reset_all_spec:
  assumes "libevent_contract lib"
  shows "current_to_delete (reset_all lib xs d) = current_to_delete d @ concat (map obj_owns xs)
    \<and> same_but_current d (reset_all lib xs d)
    \<and> destroyed (reset_all lib xs d) = destroyed d @ map obj_id xs
    \<and> (lib_pending lib e (event_base (reset_all lib xs d)) \<longleftrightarrow> lib_pending lib e (event_base d)
         \<or> e = deferred_delete_cb \<and> current_to_delete d = [] \<and> concat (map obj_owns xs) \<noteq> [])"
proof (induction xs arbitrary: d)
  case Nil
  then show ?case by (simp add: same_but_current_def)
next
  case (Cons x xs)
  obtain i owned where x: "x = Deletable i owned" by (cases x)
  let ?d = "d\<lparr>destroyed := destroyed d @ [i]\<rparr>"
  let ?d1 = "fold (\<lambda>x. deferredDelete lib (Some x)) owned ?d"
  note f = fold_deferredDelete [OF assms, where xs = owned and d = ?d]
  note ih = Cons.IH [of ?d1]
  have step: "reset_all lib (x # xs) d = reset_all lib xs ?d1" by (simp add: x)
  have cur: "current_to_delete ?d1 = current_to_delete d @ owned"
    and dest: "destroyed ?d1 = destroyed d @ [i]"
    and pend: "lib_pending lib e (event_base ?d1) \<longleftrightarrow>
      lib_pending lib e (event_base d) \<or> e = deferred_delete_cb \<and> current_to_delete d = [] \<and> owned \<noteq> []"
    using f by (simp_all add: disp_simps)
  have "same_but_current d ?d1"
    using f by (simp add: same_but_current_def disp_simps)
  then have same: "same_but_current d (reset_all lib xs ?d1)"
    using ih by (simp add: same_but_current_def)
  have "current_to_delete (reset_all lib xs ?d1) = current_to_delete d @ concat (map obj_owns (x # xs))"
    and "destroyed (reset_all lib xs ?d1) = destroyed d @ map obj_id (x # xs)"
    using ih by (simp_all add: cur dest x)
  moreover have "lib_pending lib e (event_base (reset_all lib xs ?d1)) \<longleftrightarrow> lib_pending lib e (event_base d)
      \<or> e = deferred_delete_cb \<and> current_to_delete d = [] \<and> concat (map obj_owns (x # xs)) \<noteq> []"
    using ih unfolding cur pend by (simp only: x) auto
  ultimately show ?case using same unfolding step by blast
qed

text \<open>One clearing: the objects of the current vector die in order; what they defer is the next vector.\<close>

lemma clear_spec:
  assumes "libevent_contract lib" and "\<not> deferred_deleting d" and "other_to_delete d = []"
  shows "current_to_delete (clearDeferredDeleteList lib d) = concat (map obj_owns (current_to_delete d))"
    and "other_to_delete (clearDeferredDeleteList lib d) = []"
    and "\<not> deferred_deleting (clearDeferredDeleteList lib d)"
    and "destroyed (clearDeferredDeleteList lib d) = destroyed d @ map obj_id (current_to_delete d)"
    and "post_callbacks (clearDeferredDeleteList lib d) = post_callbacks d"
    and "deletables_in_dispatcher_thread (clearDeferredDeleteList lib d) = deletables_in_dispatcher_thread d"
    and "lib_pending lib e (event_base (clearDeferredDeleteList lib d)) \<longleftrightarrow> lib_pending lib e (event_base d)
           \<or> e = deferred_delete_cb \<and> concat (map obj_owns (current_to_delete d)) \<noteq> []"
proof -
  let ?d0 = "d\<lparr>current_is_first := \<not> current_is_first d, deferred_deleting := True\<rparr>"
  let ?d1 = "reset_all lib (current_to_delete d) ?d0"
  have cur: "current_to_delete ?d0 = []" and oth: "other_to_delete ?d0 = current_to_delete d"
    using assms(3) by (auto simp: current_to_delete_def other_to_delete_def)
  note r = reset_all_spec [OF assms(1), where xs = "current_to_delete d" and d = ?d0 and e = e]
  have c: "clearDeferredDeleteList lib d =
      (if current_to_delete d = [] then d
       else (if current_is_first d then ?d1\<lparr>to_delete_1 := []\<rparr> else ?d1\<lparr>to_delete_2 := []\<rparr>)\<lparr>deferred_deleting := False\<rparr>)"
    using assms(2) by (simp add: clearDeferredDeleteList_def Let_def)
  have dest: "destroyed ?d0 = destroyed d" and eb: "event_base ?d0 = event_base d"
    and f: "current_is_first ?d1 = (\<not> current_is_first d)"
    using r by (auto simp: same_but_current_def)
  show "current_to_delete (clearDeferredDeleteList lib d) = concat (map obj_owns (current_to_delete d))"
    using r cur f by (auto simp: c current_to_delete_def split: if_splits)
  show "other_to_delete (clearDeferredDeleteList lib d) = []"
    using assms(3) f by (auto simp: c current_to_delete_def other_to_delete_def split: if_splits)
  show "\<not> deferred_deleting (clearDeferredDeleteList lib d)"
    using assms(2) by (simp add: c)
  show "destroyed (clearDeferredDeleteList lib d) = destroyed d @ map obj_id (current_to_delete d)"
    using r dest by (auto simp: c)
  show "post_callbacks (clearDeferredDeleteList lib d) = post_callbacks d"
    using r by (auto simp: c same_but_current_def)
  show "deletables_in_dispatcher_thread (clearDeferredDeleteList lib d) = deletables_in_dispatcher_thread d"
    using r by (auto simp: c same_but_current_def)
  show "lib_pending lib e (event_base (clearDeferredDeleteList lib d)) \<longleftrightarrow> lib_pending lib e (event_base d)
           \<or> e = deferred_delete_cb \<and> concat (map obj_owns (current_to_delete d)) \<noteq> []"
  proof (cases "current_to_delete d = []")
    case False
    then have "event_base (clearDeferredDeleteList lib d) = event_base ?d1" by (simp add: c)
    then show ?thesis using r cur by (simp only: eb) simp
  qed (simp add: c)
qed

text \<open>A destructor that asks for a clearing gets none.\<close>

lemma clear_not_reentrant: "deferred_deleting d \<Longrightarrow> clearDeferredDeleteList lib d = d"
  by (simp add: clearDeferredDeleteList_def Let_def)

end
