(* ===== verification/DispatcherLoop.thy ===== *)
theory DispatcherLoop
  imports Dispatcher
begin

text \<open>
  The dispatcher among threads. Thread 0 runs the event loop; every thread may post and hand over
  objects, thread 0 may also defer deletions. A step is what one thread does while no other can interfere:
  a critical section, the scheduling that follows it, one callback, one clearing of the deferred list. The
  fields \<open>posted\<close>, \<open>called\<close>, \<open>handed\<close>, \<open>deleted\<close> and \<open>given\<close> are the history of the run.

  These are the steps before and inside libevent's loop. Leaving the loop, which \<open>run(Block)\<close> does on request and on
  a base without events, is a step of the worker around this system (Shutdown, Startup). A thread other than 0
  activates an event with libevent's lock held, as libevent allows once it is told to lock its bases; the program
  never calls \<open>Libevent::Global::initialize\<close>, which would tell it.
\<close>

section \<open>The system\<close>

text \<open>Where thread 0 is: before \<open>run\<close>, in libevent's loop, at the stages of \<open>runPostCallbacks\<close> and
  \<open>runThreadLocalDelete\<close>.\<close>

datatype 'c loop_pc =
    Not_started
  | Waiting
  | Entered
  | Cleared
  | Calling "'c list"
  | Deleting "nat list"

record ('c, 'l) system =
  disp :: "('c, 'l) dispatcher"
  pc :: "'c loop_pc"
  posting :: "nat set"
  handing :: "nat set"
  posted :: "'c list"
  called :: "'c list"
  handed :: "nat list"
  deleted :: "nat list"
  given :: "deletable list"

definition system_new :: "int \<Rightarrow> 'l \<Rightarrow> ('c, 'l) system" where
  "system_new now l =
     \<lparr>disp = DispatcherImpl_new now l, pc = Not_started, posting = {}, handing = {},
      posted = [], called = [], handed = [], deleted = [], given = []\<rparr>"

text \<open>A thread between the lock and the scheduling of its call is busy.\<close>

definition free :: "nat \<Rightarrow> ('c, 'l) system \<Rightarrow> bool" where
  "free t s \<longleftrightarrow> t \<notin> posting s \<and> t \<notin> handing s"

definition fire :: "'l libevent \<Rightarrow> ev \<Rightarrow> ('c, 'l) dispatcher \<Rightarrow> ('c, 'l) dispatcher" where
  "fire lib e d = d\<lparr>event_base := lib_fire lib e (event_base d)\<rparr>"

definition is_pending :: "'l libevent \<Rightarrow> ev \<Rightarrow> ('c, 'l) system \<Rightarrow> bool" where
  "is_pending lib e s = lib_pending lib e (event_base (disp s))"

inductive request :: "'l libevent \<Rightarrow> ('c, 'l) system \<Rightarrow> ('c, 'l) system \<Rightarrow> bool" for lib where
  post_step:
    "free t s \<Longrightarrow> post_locked c (disp s) = (do_post, d) \<Longrightarrow>
     request lib s (s\<lparr>disp := d, posted := posted s @ [c],
                      posting := (if do_post then insert t (posting s) else posting s)\<rparr>)"
| hand_step:
    "free t s \<Longrightarrow> delete_locked x (disp s) = (need_schedule, d) \<Longrightarrow>
     request lib s (s\<lparr>disp := d, handed := handed s @ [x],
                      handing := (if need_schedule then insert t (handing s) else handing s)\<rparr>)"
| defer_step:
    "free 0 s \<Longrightarrow>
     request lib s (s\<lparr>disp := deferredDelete lib (Some x) (disp s), given := given s @ [x]\<rparr>)"

inductive progress :: "'l libevent \<Rightarrow> ('c, 'l) system \<Rightarrow> ('c, 'l) system \<Rightarrow> bool" for lib where
  schedule_post:
    "t \<in> posting s \<Longrightarrow>
     progress lib s (s\<lparr>disp := schedule lib post_cb (disp s), posting := posting s - {t}\<rparr>)"
| schedule_delete:
    "t \<in> handing s \<Longrightarrow>
     progress lib s (s\<lparr>disp := schedule lib thread_local_delete_cb (disp s), handing := handing s - {t}\<rparr>)"
| start: "free 0 s \<Longrightarrow> pc s = Not_started \<Longrightarrow> progress lib s (s\<lparr>pc := Entered\<rparr>)"
| fire_post:
    "free 0 s \<Longrightarrow> pc s = Waiting \<Longrightarrow> is_pending lib post_cb s \<Longrightarrow>
     progress lib s (s\<lparr>disp := fire lib post_cb (disp s), pc := Entered\<rparr>)"
| clear:
    "free 0 s \<Longrightarrow> pc s = Entered \<Longrightarrow>
     progress lib s (s\<lparr>disp := clearDeferredDeleteList lib (disp s), pc := Cleared\<rparr>)"
| take_all:
    "free 0 s \<Longrightarrow> pc s = Cleared \<Longrightarrow> take_posts (disp s) = (cs, d) \<Longrightarrow>
     progress lib s (s\<lparr>disp := d, pc := Calling cs\<rparr>)"
| call:
    "free 0 s \<Longrightarrow> pc s = Calling (c # cs) \<Longrightarrow>
     progress lib s (s\<lparr>called := called s @ [c], pc := Calling cs\<rparr>)"
| called_all: "free 0 s \<Longrightarrow> pc s = Calling [] \<Longrightarrow> progress lib s (s\<lparr>pc := Waiting\<rparr>)"
| fire_delete:
    "free 0 s \<Longrightarrow> pc s = Waiting \<Longrightarrow> is_pending lib thread_local_delete_cb s \<Longrightarrow>
     take_deletables (fire lib thread_local_delete_cb (disp s)) = (xs, d) \<Longrightarrow>
     progress lib s (s\<lparr>disp := d, pc := Deleting xs\<rparr>)"
| delete_one:
    "free 0 s \<Longrightarrow> pc s = Deleting (x # xs) \<Longrightarrow>
     progress lib s (s\<lparr>disp := (disp s)\<lparr>destroyed := destroyed (disp s) @ [x]\<rparr>,
                       deleted := deleted s @ [x], pc := Deleting xs\<rparr>)"
| deleted_all: "free 0 s \<Longrightarrow> pc s = Deleting [] \<Longrightarrow> progress lib s (s\<lparr>pc := Waiting\<rparr>)"
| fire_deferred:
    "free 0 s \<Longrightarrow> pc s = Waiting \<Longrightarrow> is_pending lib deferred_delete_cb s \<Longrightarrow>
     progress lib s (s\<lparr>disp := clearDeferredDeleteList lib (fire lib deferred_delete_cb (disp s))\<rparr>)"

inductive reachable :: "'l libevent \<Rightarrow> ('c, 'l) system \<Rightarrow> bool" for lib where
  reach_new: "reachable lib (system_new now l)"
| reach_request: "reachable lib s \<Longrightarrow> request lib s s' \<Longrightarrow> reachable lib s'"
| reach_progress: "reachable lib s \<Longrightarrow> progress lib s s' \<Longrightarrow> reachable lib s'"

section \<open>The invariant\<close>

fun all_ids :: "deletable \<Rightarrow> nat list" where
  "all_ids (Deletable i owned) = i # concat (map all_ids owned)"

fun calling :: "'c loop_pc \<Rightarrow> 'c list" where
  "calling (Calling cs) = cs"
| "calling _ = []"

fun deleting :: "'c loop_pc \<Rightarrow> nat list" where
  "deleting (Deleting xs) = xs"
| "deleting _ = []"

definition in_order :: "('c, 'l) system \<Rightarrow> bool" where
  "in_order s \<longleftrightarrow>
     posted s = called s @ calling (pc s) @ post_callbacks (disp s)
     \<and> handed s = deleted s @ deleting (pc s) @ deletables_in_dispatcher_thread (disp s)"

text \<open>A non-empty list always has somebody who will look at it.\<close>

definition no_lost_wakeup :: "'l libevent \<Rightarrow> ('c, 'l) system \<Rightarrow> bool" where
  "no_lost_wakeup lib s \<longleftrightarrow>
     (post_callbacks (disp s) \<noteq> [] \<longrightarrow>
        is_pending lib post_cb s \<or> posting s \<noteq> {} \<or> pc s \<in> {Not_started, Entered, Cleared})
     \<and> (deletables_in_dispatcher_thread (disp s) \<noteq> [] \<longrightarrow>
        is_pending lib thread_local_delete_cb s \<or> handing s \<noteq> {})
     \<and> (current_to_delete (disp s) \<noteq> [] \<longrightarrow> is_pending lib deferred_delete_cb s)"

definition vectors_ok :: "('c, 'l) system \<Rightarrow> bool" where
  "vectors_ok s \<longleftrightarrow>
     other_to_delete (disp s) = [] \<and> \<not> deferred_deleting (disp s) \<and> finite (posting s) \<and> finite (handing s)"

definition accounted :: "('c, 'l) system \<Rightarrow> bool" where
  "accounted s \<longleftrightarrow>
     mset (destroyed (disp s)) + mset (concat (map all_ids (current_to_delete (disp s))))
     = mset (concat (map all_ids (given s))) + mset (deleted s)"

definition system_inv :: "'l libevent \<Rightarrow> ('c, 'l) system \<Rightarrow> bool" where
  "system_inv lib s \<longleftrightarrow> in_order s \<and> no_lost_wakeup lib s \<and> vectors_ok s \<and> accounted s"

lemmas system_inv_defs = system_inv_def in_order_def no_lost_wakeup_def vectors_ok_def accounted_def

lemma all_ids_split:
  "mset (concat (map all_ids xs)) = mset (map obj_id xs) + mset (concat (map all_ids (concat (map obj_owns xs))))"
proof (induction xs)
  case (Cons x xs)
  then show ?case by (cases x) simp
qed simp

lemma system_new_inv: "system_inv lib (system_new now l)"
  by (simp add: system_inv_defs system_new_def DispatcherImpl_new_def current_to_delete_def other_to_delete_def)

lemma request_inv:
  assumes "libevent_contract lib" and "request lib s s'" and "system_inv lib s"
  shows "system_inv lib s'"
  using assms(2)
proof cases
  case (defer_step x)
  have same: "same_but_current (disp s) (deferredDelete lib (Some x) (disp s))"
    by (rule deferredDelete_Some [OF assms(1)])
  show ?thesis
    using assms(3) same deferredDelete_Some [OF assms(1), where x = x and d = "disp s"]
    by (simp add: defer_step system_inv_defs is_pending_def same_but_current_def) blast
qed (use assms(3) in \<open>auto simp: system_inv_defs is_pending_def post_locked_def delete_locked_def disp_simps\<close>)

lemma fire_simps [disp_simps]:
  "current_to_delete (fire lib e d) = current_to_delete d"
  "other_to_delete (fire lib e d) = other_to_delete d"
  "post_callbacks (fire lib e d) = post_callbacks d"
  "deletables_in_dispatcher_thread (fire lib e d) = deletables_in_dispatcher_thread d"
  "deferred_deleting (fire lib e d) = deferred_deleting d"
  "destroyed (fire lib e d) = destroyed d"
  by (simp_all add: fire_def disp_simps)

lemma fire_pending:
  assumes "libevent_contract lib"
  shows "lib_pending lib e (event_base (fire lib e' d)) \<longleftrightarrow> e \<noteq> e' \<and> lib_pending lib e (event_base d)"
  by (simp add: fire_def libevent_simps [OF assms])

lemma clear_inv:
  assumes lib: "libevent_contract lib" and inv: "system_inv lib s"
    and d: "current_to_delete d = current_to_delete (disp s)" "other_to_delete d = other_to_delete (disp s)"
      "post_callbacks d = post_callbacks (disp s)" "destroyed d = destroyed (disp s)"
      "deletables_in_dispatcher_thread d = deletables_in_dispatcher_thread (disp s)"
      "deferred_deleting d = deferred_deleting (disp s)"
      "\<And>e. e \<noteq> deferred_delete_cb \<Longrightarrow> lib_pending lib e (event_base d) = lib_pending lib e (event_base (disp s))"
    and p: "p = pc s \<or> pc s = Entered \<and> p = Cleared"
  shows "system_inv lib (s\<lparr>disp := clearDeferredDeleteList lib d, pc := p\<rparr>)"
proof -
  have v: "\<not> deferred_deleting d" "other_to_delete d = []"
    using inv d by (simp_all add: system_inv_defs)
  note c = clear_spec [OF lib v]
  have "calling p = calling (pc s)" and "deleting p = deleting (pc s)"
    using p by auto
  then have order: "in_order (s\<lparr>disp := clearDeferredDeleteList lib d, pc := p\<rparr>)"
    using inv by (simp add: system_inv_def in_order_def c d)
  have wake: "no_lost_wakeup lib (s\<lparr>disp := clearDeferredDeleteList lib d, pc := p\<rparr>)"
    using inv p by (auto simp: system_inv_def no_lost_wakeup_def is_pending_def c d)
  have acc: "accounted (s\<lparr>disp := clearDeferredDeleteList lib d, pc := p\<rparr>)"
    using inv all_ids_split [of "current_to_delete (disp s)"]
    by (simp add: system_inv_def accounted_def c d union_assoc)
  show ?thesis
    using order wake acc inv by (simp add: system_inv_def vectors_ok_def c)
qed

lemma progress_inv:
  assumes lib: "libevent_contract lib" and "progress lib s s'" and inv: "system_inv lib s"
  shows "system_inv lib s'"
  using assms(2)
proof cases
  case clear
  then show ?thesis using clear_inv [OF lib inv, where d = "disp s" and p = Cleared] by simp
next
  case fire_deferred
  have "s' = s\<lparr>disp := clearDeferredDeleteList lib (fire lib deferred_delete_cb (disp s)), pc := pc s\<rparr>"
    using fire_deferred by (simp add: system.equality)
  then show ?thesis
    using clear_inv [OF lib inv, where d = "fire lib deferred_delete_cb (disp s)" and p = "pc s"]
    by (simp add: disp_simps fire_pending [OF lib])
next
  case (schedule_post t)
  then show ?thesis
    using inv by (auto simp: system_inv_defs is_pending_def disp_simps schedule_pending [OF lib])
next
  case (schedule_delete t)
  then show ?thesis
    using inv by (auto simp: system_inv_defs is_pending_def disp_simps schedule_pending [OF lib])
next
  case fire_post
  then show ?thesis
    using inv by (auto simp: system_inv_defs is_pending_def disp_simps fire_pending [OF lib])
next
  case (fire_delete xs d)
  then show ?thesis
    using inv by (auto simp: system_inv_defs is_pending_def disp_simps fire_pending [OF lib] take_deletables_def)
qed (use inv in \<open>auto simp: system_inv_defs is_pending_def disp_simps take_posts_def\<close>)

lemma reachable_inv: "libevent_contract lib \<Longrightarrow> reachable lib s \<Longrightarrow> system_inv lib s"
proof -
  assume lib: "libevent_contract lib"
  assume "reachable lib s"
  then show ?thesis by induction (auto intro: system_new_inv request_inv [OF lib] progress_inv [OF lib])
qed

section \<open>Progress\<close>

text \<open>A bound on the steps left when nobody asks for more.\<close>

fun rank :: "'c loop_pc \<Rightarrow> nat" where
  "rank Not_started = 4"
| "rank Waiting = 0"
| "rank Entered = 3"
| "rank Cleared = 2"
| "rank (Calling cs) = Suc (length cs)"
| "rank (Deleting xs) = Suc (length xs)"

definition work :: "'l libevent \<Rightarrow> ('c, 'l) system \<Rightarrow> nat" where
  "work lib s =
     rank (pc s) + length (post_callbacks (disp s)) + length (deletables_in_dispatcher_thread (disp s))
     + 10 * (card (posting s) + card (handing s))
     + (if is_pending lib post_cb s then 5 else 0) + (if is_pending lib thread_local_delete_cb s then 5 else 0)
     + (if is_pending lib deferred_delete_cb s then 5 else 0)
     + 10 * length (concat (map all_ids (current_to_delete (disp s))))"

lemma all_ids_length:
  "length (concat (map all_ids xs)) = length xs + length (concat (map all_ids (concat (map obj_owns xs))))"
proof (induction xs)
  case (Cons x xs)
  then show ?case by (cases x) simp
qed simp

lemma clear_work:
  assumes "libevent_contract lib" and "\<not> deferred_deleting d" and "other_to_delete d = []"
  shows "(if lib_pending lib deferred_delete_cb (event_base (clearDeferredDeleteList lib d)) then 5 else 0)
      + 10 * length (concat (map all_ids (current_to_delete (clearDeferredDeleteList lib d))))
    \<le> (if lib_pending lib deferred_delete_cb (event_base d) then 5 else (0::nat))
      + 10 * length (concat (map all_ids (current_to_delete d)))"
    (is "?a \<le> ?b")
  using all_ids_length [of "current_to_delete d"]
  by (cases "current_to_delete d") (simp_all add: clear_spec [OF assms])

lemma progress_work:
  assumes lib: "libevent_contract lib" and "progress lib s s'" and inv: "system_inv lib s"
  shows "work lib s' < work lib s"
  using assms(2)
proof cases
  case (schedule_post t)
  moreover have "finite (posting s)" using inv by (simp add: system_inv_defs)
  ultimately have "card (posting s) = Suc (card (posting s - {t}))"
    by (metis card_Suc_Diff1)
  then show ?thesis
    using schedule_post by (simp add: work_def is_pending_def disp_simps schedule_pending [OF lib])
next
  case (schedule_delete t)
  moreover have "finite (handing s)" using inv by (simp add: system_inv_defs)
  ultimately have "card (handing s) = Suc (card (handing s - {t}))"
    by (metis card_Suc_Diff1)
  then show ?thesis
    using schedule_delete by (simp add: work_def is_pending_def disp_simps schedule_pending [OF lib])
next
  case clear
  have v: "\<not> deferred_deleting (disp s)" "other_to_delete (disp s) = []"
    using inv by (simp_all add: system_inv_defs)
  then show ?thesis
    using clear clear_work [OF lib v]
    by (simp add: work_def is_pending_def clear_spec(5-7) [OF lib v])
next
  case fire_deferred
  let ?d = "fire lib deferred_delete_cb (disp s)"
  have v: "\<not> deferred_deleting ?d" "other_to_delete ?d = []"
    using inv by (simp_all add: system_inv_defs disp_simps)
  then show ?thesis
    using fire_deferred clear_work [OF lib v]
    by (simp add: work_def is_pending_def clear_spec(5-7) [OF lib v] disp_simps fire_pending [OF lib])
next
  case fire_post
  then show ?thesis by (simp add: work_def is_pending_def disp_simps fire_pending [OF lib])
next
  case (fire_delete xs d)
  then show ?thesis
    by (auto simp: work_def is_pending_def disp_simps fire_pending [OF lib] take_deletables_def)
qed (auto simp: work_def is_pending_def take_posts_def disp_simps)

lemma progress_history:
  "progress lib s s' \<Longrightarrow> posted s' = posted s \<and> handed s' = handed s \<and> given s' = given s"
  by (induction rule: progress.induct) simp_all

lemma progress_run:
  assumes lib: "libevent_contract lib" and inv: "system_inv lib s" and run: "(progress lib ^^ n) s s'"
  shows "system_inv lib s' \<and> n + work lib s' \<le> work lib s
    \<and> posted s' = posted s \<and> handed s' = handed s \<and> given s' = given s"
  using run
proof (induction n arbitrary: s')
  case 0
  then show ?case using inv by simp
next
  case (Suc n)
  then obtain u where u: "(progress lib ^^ n) s u" and p: "progress lib u s'" by auto
  have ih: "system_inv lib u" "n + work lib u \<le> work lib s" "posted u = posted s"
    "handed u = handed s" "given u = given s"
    using Suc.IH [OF u] by blast+
  show ?case
    using ih progress_inv [OF lib p ih(1)] progress_work [OF lib p ih(1)] progress_history [OF p] by simp
qed

text \<open>Where no step is possible, nothing is left to do.\<close>

lemma stuck_pc:
  assumes "\<And>s'. \<not> progress lib s s'"
  shows "posting s = {}" "handing s = {}" "pc s = Waiting"
    "\<not> is_pending lib post_cb s" "\<not> is_pending lib thread_local_delete_cb s"
    "\<not> is_pending lib deferred_delete_cb s"
proof -
  show p: "posting s = {}" using assms schedule_post by fastforce
  show h: "handing s = {}" using assms schedule_delete by fastforce
  have f: "free 0 s" by (simp add: free_def p h)
  show w: "pc s = Waiting"
  proof (cases "pc s")
    case Not_started then show ?thesis using assms start [OF f] by blast
  next
    case Entered then show ?thesis using assms clear [OF f] by blast
  next
    case Cleared then show ?thesis using assms take_all [OF f] by (metis surj_pair)
  next
    case (Calling cs)
    then show ?thesis using assms call [OF f] called_all [OF f] by (cases cs) blast+
  next
    case (Deleting xs)
    then show ?thesis using assms delete_one [OF f] deleted_all [OF f] by (cases xs) blast+
  qed
  show "\<not> is_pending lib post_cb s" using assms fire_post [OF f w] by blast
  show "\<not> is_pending lib thread_local_delete_cb s" using assms fire_delete [OF f w] by (metis surj_pair)
  show "\<not> is_pending lib deferred_delete_cb s" using assms fire_deferred [OF f w] by blast
qed

lemma stuck_done:
  assumes "system_inv lib s" and "\<And>s'. \<not> progress lib s s'"
  shows "called s = posted s \<and> deleted s = handed s
    \<and> mset (destroyed (disp s)) = mset (concat (map all_ids (given s))) + mset (handed s)"
proof -
  note stuck = stuck_pc [OF assms(2)]
  have "current_to_delete (disp s) = []"
    using assms(1) stuck by (simp add: system_inv_defs)
  then show ?thesis using assms(1) stuck by (simp add: system_inv_defs)
qed

end
