(* ===== verification/EventSpec.thy ===== *)
theory EventSpec
  imports DispatcherLoop
begin

text \<open>
  What the event code promises: no posted callback, no object handed to the dispatcher thread and no deferred
  object is lost, doubled or reordered, whatever the threads do; injected file events reach the
  callback; timers get the time they were armed with.
\<close>

section \<open>A concrete libevent\<close>

text \<open>The set of pending events, for the witnesses.\<close>

definition set_libevent :: "ev list libevent" where
  "set_libevent =
     \<lparr>lib_active = List.insert, lib_add = (\<lambda>e tv. List.insert e), lib_del = removeAll,
      lib_pending = (\<lambda>e l. e \<in> set l), lib_fire = removeAll, lib_assign = (\<lambda>e flags. removeAll e)\<rparr>"

lemma set_libevent_contract: "libevent_contract set_libevent"
  unfolding libevent_contract_def set_libevent_def by auto

section \<open>The dispatcher\<close>

text \<open>Property C10. In every reachable state the callbacks posted are those run, then those being
  run, then those in the list, in the order of posting, and likewise for the objects handed over for deletion;
  the objects destroyed are exactly those handed over or deferred before, each once; and a list that is not
  empty has its event active or a thread that is about to activate it.\<close>

theorem dispatcher_never_loses:
  assumes "libevent_contract lib" and "reachable lib s"
  shows "posted s = called s @ calling (pc s) @ post_callbacks (disp s)
    \<and> handed s = deleted s @ deleting (pc s) @ deletables_in_dispatcher_thread (disp s)
    \<and> mset (destroyed (disp s)) + mset (concat (map all_ids (current_to_delete (disp s))))
        = mset (concat (map all_ids (given s))) + mset (deleted s)
    \<and> no_lost_wakeup lib s"
  using reachable_inv [OF assms] by (simp add: system_inv_def in_order_def accounted_def)

text \<open>Inside libevent's loop, as long as it is not left: when no thread asks for more, the system takes at most \<open>work lib s\<close>
  steps, and when it can take no more, every posted callback has run, in order, and every object handed over or
  deferred has been destroyed once. Leaving the loop is a step of Shutdown.\<close>

lemma loop_runs_out:
  assumes "libevent_contract lib" and "reachable lib s" and "(progress lib ^^ n) s s'"
  shows "n \<le> work lib s
    \<and> ((\<exists>u. progress lib s' u)
       \<or> called s' = posted s \<and> deleted s' = handed s
         \<and> mset (destroyed (disp s')) = mset (concat (map all_ids (given s))) + mset (handed s))"
  using progress_run [OF assms(1) reachable_inv [OF assms(1,2)] assms(3)] stuck_done
  by (metis add_leD1)

text \<open>One clearing of the deferred list destroys what is in it, in order; what the
  destructors defer waits for the next clearing, with the event active; a clearing asked for during a
  clearing does nothing.\<close>

theorem clear_destroys_in_order:
  assumes "libevent_contract lib" and "other_to_delete d = []"
  shows "if deferred_deleting d then clearDeferredDeleteList lib d = d
    else destroyed (clearDeferredDeleteList lib d) = destroyed d @ map obj_id (current_to_delete d)
      \<and> current_to_delete (clearDeferredDeleteList lib d) = concat (map obj_owns (current_to_delete d))
      \<and> other_to_delete (clearDeferredDeleteList lib d) = [] \<and> \<not> deferred_deleting (clearDeferredDeleteList lib d)
      \<and> (current_to_delete (clearDeferredDeleteList lib d) = []
         \<or> lib_pending lib deferred_delete_cb (event_base (clearDeferredDeleteList lib d)))"
  using clear_not_reentrant [of d lib] clear_spec [OF assms(1) _ assms(2)] by (cases "deferred_deleting d") auto

section \<open>File events\<close>

text \<open>What can happen to a file event: the four operations, readiness reported by libevent, and the
  activation callback, which runs only when pending. Events delivered to the callback are collected.\<close>

datatype file_op =
    Activate u32
  | Set_enabled u32
  | Register u32
  | Unregister u32
  | Ready u32
  | Activation

fun file_step :: "'l libevent \<Rightarrow> file_op \<Rightarrow> (file_event \<times> 'l) \<times> u32 list \<Rightarrow> (file_event \<times> 'l) \<times> u32 list" where
  "file_step lib (Activate m) (f, out) = (fe_activate lib m f, out)"
| "file_step lib (Set_enabled m) (f, out) = (setEnabled lib m f, out)"
| "file_step lib (Register m) (f, out) = (registerEventIfEmulatedEdge lib m f, out)"
| "file_step lib (Unregister m) (f, out) = (unregisterEventIfEmulatedEdge lib m f, out)"
| "file_step lib (Ready what) (f, out) =
     (let (events, f') = mergeInjectedEvents lib (ready_of_what what) f in (f', out @ [events]))"
| "file_step lib Activation (f, out) =
     (let (fe, l) = f in
      if scb_enabled lib (fe_activation fe) l
      then let (events, f') = mergeInjectedEvents lib 0 (fe, lib_fire lib (fe_activation fe) l)
        in (f', out @ [events])
      else (f, out))"

text \<open>The contract: a waiting of injected events, merged into the next delivery and dropped by \<open>setEnabled\<close>.\<close>

fun mask_step :: "file_op \<Rightarrow> u32 \<times> u32 list \<Rightarrow> u32 \<times> u32 list" where
  "mask_step (Activate m) (waiting, out) = (waiting OR m, out)"
| "mask_step (Set_enabled m) (waiting, out) = (0, out)"
| "mask_step (Ready what) (waiting, out) = (0, out @ [ready_of_what what OR waiting])"
| "mask_step Activation (waiting, out) = (if waiting = 0 then (waiting, out) else (0, out @ [waiting]))"
| "mask_step _ (waiting, out) = (waiting, out)"

definition file_rel :: "'l libevent \<Rightarrow> (file_event \<times> 'l) \<times> u32 list \<Rightarrow> u32 \<times> u32 list \<Rightarrow> bool" where
  "file_rel lib c a \<longleftrightarrow>
     (case c of ((fe, l), out) \<Rightarrow>
        fe_injected fe = fst a \<and> filter (\<lambda>m. m \<noteq> 0) out = filter (\<lambda>m. m \<noteq> 0) (snd a)
        \<and> fe_event fe \<noteq> fe_activation fe \<and> lib_pending lib (fe_event fe) l
        \<and> (fst a = 0 \<or> lib_pending lib (fe_activation fe) l))"

lemmas file_defs = fe_activate_def setEnabled_def updateEvents_def assignEvents_def mergeInjectedEvents_def
  registerEventIfEmulatedEdge_def unregisterEventIfEmulatedEdge_def PlatformDefaultTriggerType_def
  scb_enabled_def scheduleCallbackNextIteration_def scb_cancel_def

lemma file_step_rel:
  assumes "libevent_contract lib" and "file_rel lib c a"
  shows "file_rel lib (file_step lib op c) (mask_step op a)"
proof -
  obtain fe l out where c: "c = ((fe, l), out)" by (metis surj_pair)
  obtain waiting aout where a: "a = (waiting, aout)" by (metis surj_pair)
  show ?thesis
    using assms(2)
    by (cases op) (auto simp: c a file_rel_def file_defs libevent_simps [OF assms(1)] Let_def)
qed

lemma file_new_rel:
  assumes "libevent_contract lib" and "e \<noteq> act"
  shows "file_rel lib (FileEventImpl_new lib e act trigger events l, []) (0, [])"
  using assms by (simp add: file_rel_def FileEventImpl_new_def assignEvents_def libevent_simps)

lemma file_steps_rel:
  assumes "libevent_contract lib" and "file_rel lib c a"
  shows "file_rel lib (fold (file_step lib) ops c) (fold mask_step ops a)"
  using assms(2) by (induction ops arbitrary: c a) (simp_all add: file_step_rel [OF assms(1)])

text \<open>Property C28. Whatever sequence of operations and events a file event sees, its callback is called with the
  masks of the contract (leaving calls with no event aside): injected events are merged with the next readiness libevent reports or delivered
  alone by the activation callback, once, and \<open>setEnabled\<close> drops them; the file event stays registered, and
  injected events always have their activation callback pending.\<close>

theorem file_event_delivers_injected:
  assumes "libevent_contract lib" and "e \<noteq> act"
    and "fold (file_step lib) ops (FileEventImpl_new lib e act trigger events l, []) = ((fe, l'), out)"
    and "fold mask_step ops (0, []) = (waiting, expected)"
  shows "filter (\<lambda>m. m \<noteq> 0) out = filter (\<lambda>m. m \<noteq> 0) expected \<and> fe_injected fe = waiting
    \<and> lib_pending lib (fe_event fe) l' \<and> (waiting = 0 \<or> lib_pending lib (fe_activation fe) l')"
  using file_steps_rel [OF assms(1) file_new_rel [OF assms(1,2)], of ops trigger events l]
  by (simp add: assms(3,4) file_rel_def)

section \<open>Timers\<close>

lemma truncating_div_greater:
  assumes "0 < b" and "0 \<le> c"
  shows "truncating_div a b > c \<longleftrightarrow> (c + 1) * b \<le> a"
proof (cases "a < 0")
  case True
  then have "truncating_div a b \<le> 0"
    using assms(1) by (simp add: truncating_div_def pos_imp_zdiv_nonneg_iff)
  moreover have "a < (c + 1) * b" using True assms by (smt (verit) zero_le_mult_iff)
  ultimately show ?thesis using assms(2) by simp
next
  case False
  have "(c + 1) * b \<le> a \<longleftrightarrow> c + 1 \<le> a div b"
  proof
    assume "(c + 1) * b \<le> a"
    then have "(c + 1) * b div b \<le> a div b" using assms(1) by (rule zdiv_mono1)
    then show "c + 1 \<le> a div b" using assms(1) by simp
  next
    assume "c + 1 \<le> a div b"
    then have "(c + 1) * b \<le> a div b * b" using assms(1) by simp
    also have "\<dots> \<le> a" using assms(1) by (simp add: minus_mod_eq_div_mult [symmetric])
    finally show "(c + 1) * b \<le> a" .
  qed
  then show ?thesis using False by (simp add: truncating_div_def) linarith
qed

lemma truncating_div_rest:
  assumes "0 < b"
  shows "\<bar>a - truncating_div a b * b\<bar> < b"
    and "0 \<le> a - truncating_div a b * b \<longleftrightarrow> 0 \<le> a \<or> b dvd a"
proof -
  have r: "a - truncating_div a b * b = (if a < 0 then - ((- a) mod b) else a mod b)"
  proof (cases "a < 0")
    case True
    have "- a - (- a) div b * b = (- a) mod b" by (rule minus_div_mult_eq_mod)
    with True show ?thesis by (simp add: truncating_div_def)
  next
    case False
    have "a - a div b * b = a mod b" by (rule minus_div_mult_eq_mod)
    with False show ?thesis by (simp add: truncating_div_def)
  qed
  have m: "0 \<le> a mod b" "a mod b < b" "0 \<le> (- a) mod b" "(- a) mod b < b"
    using assms by simp_all
  show "\<bar>a - truncating_div a b * b\<bar> < b"
    using r m by (smt (verit))
  have "b dvd a \<longleftrightarrow> (- a) mod b = 0" by (simp flip: dvd_eq_mod_eq_0)
  then show "0 \<le> a - truncating_div a b * b \<longleftrightarrow> 0 \<le> a \<or> b dvd a"
    using m by (auto simp: r)
qed

text \<open>A duration in milliseconds or microseconds becomes the same time in seconds and
  microseconds, or the bound of INT32_MAX seconds when it is longer. A negative duration is not rejected: it
  becomes a negative time.\<close>

theorem durationToTimeval_exact:
  assumes "per_sec \<in> {1000, 1000000}"
  shows "if ticks < (2147483647 + 1) * per_sec
    then tv_sec (durationToTimeval per_sec ticks) * 1000000 + tv_usec (durationToTimeval per_sec ticks)
           = ticks * (1000000 div per_sec)
      \<and> \<bar>tv_usec (durationToTimeval per_sec ticks)\<bar> < 1000000
      \<and> (0 \<le> tv_usec (durationToTimeval per_sec ticks) \<longleftrightarrow> 0 \<le> ticks \<or> per_sec dvd ticks)
    else durationToTimeval per_sec ticks = \<lparr>tv_sec = 2147483647, tv_usec = 0\<rparr>"
proof (cases "ticks < (2147483647 + 1) * per_sec")
  case True
  define k where "k = 1000000 div per_sec"
  have pos: "0 < per_sec" and q: "per_sec * k = 1000000" and k: "0 < k"
    using assms by (auto simp: k_def)
  let ?s = "truncating_div ticks per_sec"
  have "\<not> ?s > 2147483647" using True truncating_div_greater [OF pos, of 2147483647 ticks] by simp
  then have tv: "durationToTimeval per_sec ticks = \<lparr>tv_sec = ?s, tv_usec = (ticks - ?s * per_sec) * k\<rparr>"
    by (simp add: durationToTimeval_def Let_def k_def)
  have "?s * 1000000 + (ticks - ?s * per_sec) * k = ?s * (per_sec * k) + (ticks - ?s * per_sec) * k"
    by (simp only: q)
  also have "\<dots> = ticks * k" by (simp add: algebra_simps)
  finally have sum: "?s * 1000000 + (ticks - ?s * per_sec) * k = ticks * k" .
  have "\<bar>(ticks - ?s * per_sec) * k\<bar> = \<bar>ticks - ?s * per_sec\<bar> * k" using k by (simp add: abs_mult)
  also have "\<dots> < per_sec * k" by (rule mult_strict_right_mono [OF truncating_div_rest(1) [OF pos] k])
  finally have "\<bar>(ticks - ?s * per_sec) * k\<bar> < 1000000" by (simp only: q)
  moreover have "0 \<le> (ticks - ?s * per_sec) * k \<longleftrightarrow> 0 \<le> ticks - ?s * per_sec"
    using k by (simp add: zero_le_mult_iff)
  ultimately show ?thesis
    using True sum truncating_div_rest(2) [OF pos, of ticks] by (simp add: tv k_def)
next
  case False
  have pos: "0 < per_sec" using assms by auto
  have "?thesis \<longleftrightarrow> durationToTimeval per_sec ticks = \<lparr>tv_sec = 2147483647, tv_usec = 0\<rparr>"
    using False by simp
  moreover have "truncating_div ticks per_sec > 2147483647"
    using False truncating_div_greater [OF pos, of 2147483647 ticks] by simp
  ultimately show ?thesis by (simp add: durationToTimeval_def Let_def)
qed

section \<open>Witnesses\<close>

definition posted_one :: "(string, ev list) system" where
  "posted_one = (system_new 0 [])\<lparr>disp := (DispatcherImpl_new 0 [])\<lparr>post_callbacks := [''c'']\<rparr>, posted := [''c''], posting := {1}\<rparr>"

lemma posted_one_reachable: "reachable set_libevent posted_one"
proof -
  have "post_locked ''c'' (disp (system_new 0 [])) = (True, (DispatcherImpl_new 0 [])\<lparr>post_callbacks := [''c'']\<rparr>)"
    by (simp add: system_new_def post_locked_def DispatcherImpl_new_def)
  moreover have "free 1 (system_new 0 [])" by (simp add: free_def system_new_def)
  ultimately show ?thesis
    using reach_request [OF reach_new post_step] by (fastforce simp: posted_one_def system_new_def)
qed

theorem dispatcher_never_loses_witness:
  "posted posted_one = called posted_one @ calling (pc posted_one) @ post_callbacks (disp posted_one)"
  by (rule dispatcher_never_loses [OF set_libevent_contract posted_one_reachable, THEN conjunct1])

definition two_deferred :: "(string, ev list) dispatcher" where
  "two_deferred = (DispatcherImpl_new 0 [])
    \<lparr>to_delete_1 := [Deletable 7 [Deletable 9 []], Deletable 8 []]\<rparr>"

theorem clear_destroys_in_order_witness:
  "destroyed (clearDeferredDeleteList set_libevent two_deferred) = [7, 8]
    \<and> current_to_delete (clearDeferredDeleteList set_libevent two_deferred) = [Deletable 9 []]"
  using clear_destroys_in_order [OF set_libevent_contract, of two_deferred]
  by (simp add: two_deferred_def other_to_delete_def current_to_delete_def DispatcherImpl_new_def)

theorem file_event_delivers_injected_witness:
  "filter (\<lambda>m. m \<noteq> 0) (snd (fold (file_step set_libevent) [Activate 1, Activate 2, Ready EV_CLOSED, Activate 1, Activation]
      (FileEventImpl_new set_libevent 10 11 Edge 3 [], []))) = [7, 1]"
proof -
  let ?ops = "[Activate 1, Activate 2, Ready EV_CLOSED, Activate 1, Activation]"
  let ?c = "fold (file_step set_libevent) ?ops (FileEventImpl_new set_libevent 10 11 Edge 3 [], [])"
  obtain fe l out where c: "?c = ((fe, l), out)" by (metis surj_pair)
  have m: "fold mask_step ?ops (0, []) = (0, [7, 1])"
    by (simp add: ready_of_what_def EV_READ_def EV_WRITE_def EV_CLOSED_def ReadyClosed_def)
  have "filter (\<lambda>m. m \<noteq> 0) out = [7, 1]"
    using file_event_delivers_injected [OF set_libevent_contract _ c m] by simp
  then show ?thesis unfolding c by simp
qed

theorem durationToTimeval_exact_witness:
  "durationToTimeval 1000 1500 = \<lparr>tv_sec = 1, tv_usec = 500000\<rparr>
    \<and> tv_sec (durationToTimeval 1000 1500) * 1000000 + tv_usec (durationToTimeval 1000 1500) = 1500 * (1000000 div 1000)
    \<and> durationToTimeval 1000 (- 1500) = \<lparr>tv_sec = - 1, tv_usec = - 500000\<rparr>"
  using durationToTimeval_exact [of 1000 1500]
  by (simp add: durationToTimeval_def truncating_div_def)

end
