(* ===== verification/ConnHandler.thy ===== *)
theory ConnHandler
  imports NetAddress
begin

text \<open>
  \<open>ConnectionHandlerImpl\<close> (\<open>server/ConnectionHanlderImpl.h\<close> and \<open>.cpp\<close>): the listeners of one worker, by tag
  and by address. The listener objects themselves (\<open>ActiveTcpListener\<close>, \<open>createActiveUdpListener\<close>,
  \<open>createActiveInternalListener\<close>) are not in the tree; what is kept of one is which alternative of the variant
  \<open>typed_listener_\<close> it is. A shared pointer to the details of an address is the details, which never change
  once they are in the maps.
\<close>

datatype typed_listener = Monostate | Active_tcp | Active_udp | Active_internal

record per_address =
  pa_address :: address
  pa_listener :: typed_listener

record listener_config =
  cfg_internal :: bool
  cfg_factories :: "(address \<times> socket_type) list"
  cfg_tag :: u64

record handler =
  worker_index :: "u32 option"
  num_handler_connections :: u64
  listener_map_by_tag :: "u64 \<rightharpoonup> per_address list"
  tcp_listener_map_by_address :: "string \<rightharpoonup> per_address"
  internal_listener_map_by_address :: "string \<rightharpoonup> per_address"
  disable_listeners :: bool

definition ConnectionHandlerImpl_new :: "u32 option \<Rightarrow> handler" where
  "ConnectionHandlerImpl_new i =
     \<lparr>worker_index = i, num_handler_connections = 0, listener_map_by_tag = Map.empty,
      tcp_listener_map_by_address = Map.empty, internal_listener_map_by_address = Map.empty,
      disable_listeners = False\<rparr>"

definition incNumConnections :: "handler \<Rightarrow> handler" where
  "incNumConnections h = h\<lparr>num_handler_connections := num_handler_connections h + 1\<rparr>"

definition decNumConnections :: "handler \<Rightarrow> handler" where
  "decNumConnections h = h\<lparr>num_handler_connections := num_handler_connections h - 1\<rparr>"

section \<open>Looking up\<close>

definition findActiveListenerByTag :: "u64 \<Rightarrow> handler \<Rightarrow> per_address list option" where
  "findActiveListenerByTag tag h = listener_map_by_tag h tag"

fun find_address :: "address \<Rightarrow> per_address list \<Rightarrow> per_address option" where
  "find_address addr [] = None"
| "find_address addr (d # ds) = (if address_eq (pa_address d) addr then Some d else find_address addr ds)"

definition findPerAddressActiveListenerDetails :: "per_address list option \<Rightarrow> address \<Rightarrow> per_address option" where
  "findPerAddressActiveListenerDetails details addr =
     (case details of Some ds \<Rightarrow> find_address addr ds | None \<Rightarrow> None)"

text \<open>\<open>envoyInternalAddress()\<close> is null for other addresses.\<close>

fun addressId :: "address \<Rightarrow> string result" where
  "addressId (InternalAddress i) = Inr (address_id i)"
| "addressId _ = Inl Undefined_behaviour"

definition tcpListener :: "per_address \<Rightarrow> bool" where
  "tcpListener d = (pa_listener d = Active_tcp)"

definition udpListener :: "per_address \<Rightarrow> bool" where
  "udpListener d = (pa_listener d = Active_udp)"

definition internalListener :: "per_address \<Rightarrow> bool" where
  "internalListener d = (pa_listener d = Active_internal)"

text \<open>\<open>findByAddress\<close>: the details whose internal listener is returned; \<open>value()\<close> of an empty optional throws.\<close>

definition findByAddress :: "address \<Rightarrow> handler \<Rightarrow> per_address option result" where
  "findByAddress addr h =
     res_bind (addressId addr) (\<lambda>key.
       case internal_listener_map_by_address h key of
         Some d \<Rightarrow> if internalListener d then Inr (Some d) else Inl Out_of_range
       | None \<Rightarrow> Inr None)"

section \<open>Adding\<close>

definition addActiveListener :: "address \<Rightarrow> typed_listener \<Rightarrow> per_address list \<Rightarrow> per_address list" where
  "addActiveListener addr l details = details @ [\<lparr>pa_address = addr, pa_listener = l\<rparr>]"

text \<open>The details of a new listener. \<open>listenSocketFactories()[0]\<close> is out of range for a listener without
  addresses, \<open>*worker_index_\<close> is undefined on the main thread.\<close>

definition listener_details :: "listener_config \<Rightarrow> handler \<Rightarrow> per_address list result" where
  "listener_details cfg h =
     (case cfg_factories cfg of
        [] \<Rightarrow> Inl Undefined_behaviour
      | (addr0, type0) # rest \<Rightarrow>
          if cfg_internal cfg then Inr (addActiveListener addr0 Active_internal [])
          else if type0 = Stream
          then Inr (fold (\<lambda>(addr, type). addActiveListener addr Active_tcp) (cfg_factories cfg) [])
          else if worker_index h = None then Inl Undefined_behaviour
          else Inr (fold (\<lambda>(addr, type). addActiveListener addr Active_udp) (cfg_factories cfg) []))"

definition assign_tcp :: "string \<Rightarrow> per_address \<Rightarrow> handler \<Rightarrow> handler" where
  "assign_tcp key d h = h\<lparr>tcp_listener_map_by_address := (tcp_listener_map_by_address h)(key \<mapsto> d)\<rparr>"

text \<open>An IPv6 address that is not v6-only also answers for an IPv4 address: the IPv4 any address, unless
  another listener has it, or the address mapped into it.\<close>

definition register_ipv4_alias :: "per_address \<Rightarrow> handler \<Rightarrow> handler result" where
  "register_ipv4_alias d h =
     (case pa_address d of
        Ipv6Address i \<Rightarrow>
          if v6_v6only i then Inr h
          else if sin6_addr (v6_sockaddr i) = in6addr_any
          then res_bind (Ipv4Instance_port (ucast (ntohs (sin6_port (v6_sockaddr i))))) (\<lambda>any4.
            let key = asString (Ipv4Address any4) in
            case tcp_listener_map_by_address h key of
              None \<Rightarrow> Inr (assign_tcp key d h)
            | Some d' \<Rightarrow>
                if address_eq (pa_address d') (pa_address d) then Inr (assign_tcp key d h) else Inr h)
          else res_bind (v4CompatibleAddress i) (\<lambda>v4.
            case v4 of
              None \<Rightarrow> Inl Undefined_behaviour
            | Some a \<Rightarrow> Inr (assign_tcp (asString a) d h))
      | _ \<Rightarrow> Inr h)"

definition register_details :: "per_address \<Rightarrow> handler \<Rightarrow> handler result" where
  "register_details d h =
     (if tcpListener d then register_ipv4_alias d (assign_tcp (asString (pa_address d)) d h)
      else if internalListener d
      then res_bind (addressId (pa_address d)) (\<lambda>key.
        Inr (h\<lparr>internal_listener_map_by_address := (internal_listener_map_by_address h)(key \<mapsto> d)\<rparr>))
      else Inr h)"

fun register_all :: "per_address list \<Rightarrow> handler \<Rightarrow> handler result" where
  "register_all [] h = Inr h"
| "register_all (d # ds) h = res_bind (register_details d h) (register_all ds)"

text \<open>\<open>emplace\<close> keeps an entry that is there. An update in place looks the listener up and does nothing to it:
  the call of \<open>updateListenerConfig\<close> is commented out.\<close>

definition handler_addListener :: "u64 option \<Rightarrow> listener_config \<Rightarrow> handler \<Rightarrow> handler result" where
  "handler_addListener overridden cfg h =
     (case overridden of
        Some tag \<Rightarrow>
          (case findActiveListenerByTag tag h of
             None \<Rightarrow> Inl Undefined_behaviour
           | Some ds \<Rightarrow> Inr h)
      | None \<Rightarrow>
          res_bind (listener_details cfg h) (\<lambda>ds.
          res_bind (register_all ds h) (\<lambda>h1.
            Inr (if listener_map_by_tag h1 (cfg_tag cfg) = None
                 then h1\<lparr>listener_map_by_tag := (listener_map_by_tag h1)(cfg_tag cfg \<mapsto> ds)\<rparr>
                 else h1))))"

fun handler_add_all :: "listener_config list \<Rightarrow> handler \<Rightarrow> handler result" where
  "handler_add_all [] h = Inr h"
| "handler_add_all (cfg # cfgs) h = res_bind (handler_addListener None cfg h) (handler_add_all cfgs)"

section \<open>Lemmas\<close>

text \<open>The addresses the parser and the kernel give: the name of an IPv6 address starts with a bracket.\<close>

fun ip_address_named :: "address \<Rightarrow> bool" where
  "ip_address_named (Ipv4Address i) \<longleftrightarrow> True"
| "ip_address_named (Ipv6Address i) \<longleftrightarrow> (\<exists>rest. v6_friendly_name i = CHR ''['' # rest)"
| "ip_address_named _ \<longleftrightarrow> False"

definition any4_name :: "u16 \<Rightarrow> string" where
  "any4_name port = ''0.0.0.0:'' @ decimal (unat port)"

fun dual_stack_any :: "u16 \<Rightarrow> address \<Rightarrow> bool" where
  "dual_stack_any port (Ipv6Address i) \<longleftrightarrow>
     \<not> v6_v6only i \<and> sin6_addr (v6_sockaddr i) = in6addr_any \<and> ntohs (sin6_port (v6_sockaddr i)) = port"
| "dual_stack_any port _ \<longleftrightarrow> False"

lemma v4CompatibleAddress_none: "v4CompatibleAddress i = Inr None"
  by (simp add: v4CompatibleAddress_def createInstancePtr_ipv4_def ipv4_validateProtocolSupported_def)

lemma any4_key:
  "\<exists>any4. Ipv4Instance_port (ucast port) = Inr any4 \<and> asString (Ipv4Address any4) = any4_name (port :: u16)"
proof -
  have "unat port < 2 ^ 32" using unat_less_two_power [of port] by simp
  then have "unat (ucast port :: u32) = unat port" by (simp add: unsigned_ucast_eq take_bit_nat_eq_self)
  then show ?thesis by (simp add: Ipv4Instance_port_def throwOnError_status_def any4_name_def)
qed

text \<open>What a list of TCP listeners, in the order of registration, makes of the map: the last listener with the
  name wins; for the IPv4 any address without one of its own, a dual-stack listener on the port answers.\<close>

definition last_named :: "string \<Rightarrow> per_address list \<Rightarrow> per_address option" where
  "last_named k ds = find (\<lambda>d. asString (pa_address d) = k) (rev ds)"

definition resolves :: "per_address list \<Rightarrow> (string \<rightharpoonup> per_address) \<Rightarrow> string \<Rightarrow> bool" where
  "resolves ds m k \<longleftrightarrow>
     (case last_named k ds of
        Some d \<Rightarrow> m k = Some d
      | None \<Rightarrow>
          (case m k of
             None \<Rightarrow> \<forall>p d. k = any4_name p \<longrightarrow> d \<in> set ds \<longrightarrow> \<not> dual_stack_any p (pa_address d)
           | Some d \<Rightarrow> d \<in> set ds \<and> (\<exists>p. k = any4_name p \<and> dual_stack_any p (pa_address d))))"

lemma last_named_snoc:
  "last_named k (ds @ [d]) = (if asString (pa_address d) = k then Some d else last_named k ds)"
  by (simp add: last_named_def)

lemma last_named_Some: "last_named k ds = Some d \<Longrightarrow> d \<in> set ds \<and> asString (pa_address d) = k"
  by (auto simp: last_named_def find_Some_iff in_set_conv_nth) (metis length_rev nth_mem set_rev in_set_conv_nth)

lemma any4_no_bracket: "any4_name p \<noteq> CHR ''['' # rest"
  by (simp add: any4_name_def)

lemma assign_tcp_sel [simp]:
  "tcp_listener_map_by_address (assign_tcp key d h) = (tcp_listener_map_by_address h)(key \<mapsto> d)"
  by (simp add: assign_tcp_def)

text \<open>Registering under the own name alone, when the address is not a dual-stack any address.\<close>

lemma own_name_resolves:
  assumes "resolves ds m k" and "\<And>p. \<not> dual_stack_any p (pa_address d)"
  shows "resolves (ds @ [d]) (m(asString (pa_address d) \<mapsto> d)) k"
  using assms by (auto simp: resolves_def last_named_snoc split: option.splits)

lemma dual_name_resolves:
  assumes res: "\<And>k. resolves ds m k" and named: "list_all (\<lambda>d. ip_address_named (pa_address d)) (ds @ [d])"
    and dual: "dual_stack_any p (pa_address d)"
  defines "m1 \<equiv> m(asString (pa_address d) \<mapsto> d)"
  shows "resolves (ds @ [d])
    (case m1 (any4_name p) of
       None \<Rightarrow> m1(any4_name p \<mapsto> d)
     | Some d' \<Rightarrow> if address_eq (pa_address d') (pa_address d) then m1(any4_name p \<mapsto> d) else m1) k"
proof -
  obtain i where i: "pa_address d = Ipv6Address i" using dual by (cases "pa_address d") auto
  have p: "ntohs (sin6_port (v6_sockaddr i)) = p" using dual i by simp
  then have dual_iff: "dual_stack_any q (pa_address d) \<longleftrightarrow> q = p" for q using dual i by auto
  obtain rest where name: "asString (pa_address d) = CHR ''['' # rest" using named i by auto
  have m1: "m1 (any4_name p) = m (any4_name p)"
    using any4_no_bracket by (auto simp: m1_def name)
  have explicit: "\<not> address_eq (pa_address e) (pa_address d)" if "last_named (any4_name p) ds = Some e" for e
  proof -
    have "ip_address_named (pa_address e)" "asString (pa_address e) = any4_name p"
      using last_named_Some [OF that] named by (auto simp: list_all_iff)
    then show ?thesis using any4_no_bracket [of p] by (cases "pa_address e") (auto simp: i)
  qed
  show ?thesis
  proof (cases "k = any4_name p")
    case True
    have own: "asString (pa_address d) \<noteq> any4_name p" using any4_no_bracket [of p] name by metis
    then show ?thesis
      using res [of "any4_name p"] explicit dual unfolding True
      by (auto simp: resolves_def last_named_snoc m1 dual_iff split: option.splits)
  next
    case False
    have "resolves (ds @ [d]) m1 k"
      using res [of k] False by (auto simp: m1_def resolves_def last_named_snoc dual_iff split: option.splits)
    then show ?thesis using False by (auto simp: resolves_def split: option.splits)
  qed
qed

lemma register_tcp_resolves:
  assumes res: "\<And>k. resolves ds (tcp_listener_map_by_address h) k"
    and named: "list_all (\<lambda>d. ip_address_named (pa_address d)) (ds @ [d])" and "tcpListener d"
    and reg: "register_details d h = Inr h'"
  shows "resolves (ds @ [d]) (tcp_listener_map_by_address h') k"
proof -
  let ?m = "tcp_listener_map_by_address h"
  let ?h = "assign_tcp (asString (pa_address d)) d h"
  have al: "register_ipv4_alias d ?h = Inr h'" using reg assms(3) by (simp add: register_details_def)
  show ?thesis
  proof (cases "\<exists>p. dual_stack_any p (pa_address d)")
    case False
    then have "h' = ?h"
      using al v4CompatibleAddress_none
      by (auto simp: register_ipv4_alias_def split: address.splits if_splits)
    then show ?thesis using own_name_resolves [OF res, of d k] False by simp
  next
    case True
    then obtain p where p: "dual_stack_any p (pa_address d)" ..
    obtain any4 where any4: "Ipv4Instance_port (ucast p) = Inr any4" "asString (Ipv4Address any4) = any4_name p"
      using any4_key [of p] by blast
    have "tcp_listener_map_by_address h' =
        (case tcp_listener_map_by_address ?h (any4_name p) of
           None \<Rightarrow> (tcp_listener_map_by_address ?h)(any4_name p \<mapsto> d)
         | Some d' \<Rightarrow> if address_eq (pa_address d') (pa_address d)
             then (tcp_listener_map_by_address ?h)(any4_name p \<mapsto> d) else tcp_listener_map_by_address ?h)"
      using al p any4 by (auto simp: register_ipv4_alias_def Let_def split: address.splits option.splits if_splits)
    then show ?thesis using dual_name_resolves [OF res named p, of k] by (simp only: assign_tcp_sel)
  qed
qed

lemma register_all_resolves:
  assumes "\<And>k. resolves seen (tcp_listener_map_by_address h) k"
    and "list_all (\<lambda>d. ip_address_named (pa_address d)) (seen @ filter tcpListener ds)"
    and "register_all ds h = Inr h'"
  shows "resolves (seen @ filter tcpListener ds) (tcp_listener_map_by_address h') k
    \<and> listener_map_by_tag h' = listener_map_by_tag h"
  using assms
proof (induction ds arbitrary: seen h)
  case Nil
  then show ?case by simp
next
  case (Cons d ds)
  from Cons.prems(3) obtain h1 where h1: "register_details d h = Inr h1" "register_all ds h1 = Inr h'"
    by (auto simp: res_bind_Inr_iff)
  show ?case
  proof (cases "tcpListener d")
    case True
    then have "resolves (seen @ [d]) (tcp_listener_map_by_address h1) k" for k
      using register_tcp_resolves [OF Cons.prems(1) _ True h1(1)] Cons.prems(2) by simp
    moreover have "listener_map_by_tag h1 = listener_map_by_tag h"
      using h1(1) True
      by (auto simp: register_details_def register_ipv4_alias_def assign_tcp_def res_bind_Inr_iff Let_def
          split: address.splits option.splits if_splits)
    ultimately show ?thesis
      using Cons.IH [of "seen @ [d]" h1] Cons.prems(2) h1(2) True by simp
  next
    case False
    then have "tcp_listener_map_by_address h1 = tcp_listener_map_by_address h"
      and "listener_map_by_tag h1 = listener_map_by_tag h"
      using h1(1) by (auto simp: register_details_def res_bind_Inr_iff split: if_splits)
    then show ?thesis using Cons.IH [of seen h1] Cons.prems(1,2) h1(2) False by simp
  qed
qed

text \<open>The TCP listeners a configuration asks for.\<close>

definition tcp_details :: "listener_config \<Rightarrow> per_address list" where
  "tcp_details cfg =
     (if \<not> cfg_internal cfg \<and> cfg_factories cfg \<noteq> [] \<and> snd (hd (cfg_factories cfg)) = Stream
      then map (\<lambda>(addr, type). \<lparr>pa_address = addr, pa_listener = Active_tcp\<rparr>) (cfg_factories cfg) else [])"

lemma fold_addActive:
  "fold (\<lambda>(addr, type). addActiveListener addr l) fs ds
    = ds @ map (\<lambda>(addr, type). \<lparr>pa_address = addr, pa_listener = l\<rparr>) fs"
  by (induction fs arbitrary: ds) (auto simp: addActiveListener_def)

lemma listener_details_tcp: "listener_details cfg h = Inr ds \<Longrightarrow> filter tcpListener ds = tcp_details cfg"
  by (auto simp: listener_details_def tcp_details_def fold_addActive addActiveListener_def tcpListener_def
      filter_map o_def case_prod_beta split: list.splits if_splits)

lemma handler_add_all_resolves:
  assumes "\<And>k. resolves seen (tcp_listener_map_by_address h) k"
    and "list_all (\<lambda>d. ip_address_named (pa_address d)) (seen @ concat (map tcp_details cfgs))"
    and "handler_add_all cfgs h = Inr h'"
  shows "resolves (seen @ concat (map tcp_details cfgs)) (tcp_listener_map_by_address h') k"
  using assms
proof (induction cfgs arbitrary: seen h)
  case Nil
  then show ?case by simp
next
  case (Cons cfg cfgs)
  from Cons.prems(3) obtain h1 where h1: "handler_addListener None cfg h = Inr h1" "handler_add_all cfgs h1 = Inr h'"
    by (auto simp: res_bind_Inr_iff)
  then obtain ds h2 where ds: "listener_details cfg h = Inr ds" "register_all ds h = Inr h2"
    and m: "tcp_listener_map_by_address h1 = tcp_listener_map_by_address h2"
    by (auto simp: handler_addListener_def res_bind_Inr_iff split: if_splits)
  note f = listener_details_tcp [OF ds(1)]
  have "resolves (seen @ tcp_details cfg) (tcp_listener_map_by_address h1) k" for k
    using register_all_resolves [OF Cons.prems(1) _ ds(2)] Cons.prems(2) by (simp add: f m)
  then show ?case
    using Cons.IH [of "seen @ tcp_details cfg" h1] Cons.prems(2) h1(2) by simp
qed

end
