(* ===== verification/Listener.thy ===== *)
theory Listener
  imports ConnHandler
begin

text \<open>
  \<open>ListenerImpl\<close> (\<open>server/ListenerImpl.h\<close> and \<open>.cpp\<close>): what the listener manager compares and copies. A socket
  factory is a value of type \<open>'f\<close>; its constructor and copy constructor are declared in the tree but defined
  nowhere, so they and its two observers are the parameter \<open>factory_ops\<close>. \<open>buildUdpListenerWorkerRouter\<close>,
  which \<open>addSocketFactory\<close> calls, is commented out with its body.
\<close>

datatype bind_type = NoBind | NoReusePort | ReusePort

record 'f factory_ops =
  ff_create :: "address \<Rightarrow> socket_type \<Rightarrow> string \<Rightarrow> bind_type \<Rightarrow> bool \<Rightarrow> 'f"
  ff_clone :: "'f \<Rightarrow> 'f"
  ff_localAddress :: "'f \<Rightarrow> address"
  ff_socketType :: "'f \<Rightarrow> socket_type"

record 'f listener =
  lst_name :: string
  lst_version_info :: string
  lst_addresses :: "address list"
  lst_socket_type :: socket_type
  lst_socket_factories :: "'f list"
  lst_bind_to_port :: bool
  lst_mptcp_enabled :: bool
  lst_added_via_api :: bool
  lst_workers_started :: bool
  lst_hash :: u64
  lst_reuse_port :: bool

text \<open>The constructor from a configuration fills in no address, and \<open>initialize\<close> does nothing.\<close>

definition ListenerImpl_new :: "string \<Rightarrow> string \<Rightarrow> bool \<Rightarrow> bool \<Rightarrow> 'f listener" where
  "ListenerImpl_new version name via_api started =
     \<lparr>lst_name = name, lst_version_info = version, lst_addresses = [], lst_socket_type = Stream,
      lst_socket_factories = [], lst_bind_to_port = True, lst_mptcp_enabled = False,
      lst_added_via_api = via_api, lst_workers_started = started, lst_hash = 11, lst_reuse_port = True\<rparr>"

text \<open>The constructor of an update in place.\<close>

definition ListenerImpl_from :: "'f listener \<Rightarrow> string \<Rightarrow> string \<Rightarrow> bool \<Rightarrow> bool \<Rightarrow> u64 \<Rightarrow> 'f listener" where
  "ListenerImpl_from origin version name via_api started hash =
     \<lparr>lst_name = name, lst_version_info = [], lst_addresses = lst_addresses origin,
      lst_socket_type = lst_socket_type origin, lst_socket_factories = [], lst_bind_to_port = False,
      lst_mptcp_enabled = False, lst_added_via_api = via_api, lst_workers_started = started,
      lst_hash = hash, lst_reuse_port = lst_reuse_port origin\<rparr>"

definition lst_initialize :: "'f listener \<Rightarrow> 'f listener" where
  "lst_initialize l = (if lst_workers_started l then l else l)"

definition blockUpdate :: "u64 \<Rightarrow> 'f listener \<Rightarrow> bool" where
  "blockUpdate new_hash l = (new_hash = lst_hash l \<or> \<not> lst_added_via_api l)"

definition blockRemove :: "'f listener \<Rightarrow> bool" where
  "blockRemove l = (\<not> lst_added_via_api l)"

definition addSocketFactory :: "'f \<Rightarrow> 'f listener \<Rightarrow> 'f listener" where
  "addSocketFactory f l = l\<lparr>lst_socket_factories := lst_socket_factories l @ [f]\<rparr>"

definition cloneSocketFactoryFrom :: "'f factory_ops \<Rightarrow> 'f listener \<Rightarrow> 'f listener \<Rightarrow> 'f listener" where
  "cloneSocketFactoryFrom ops other l =
     fold (\<lambda>f. addSocketFactory (ff_clone ops f)) (lst_socket_factories other) l"

text \<open>The comparison is commented out: two listeners never have the same options.\<close>

definition socketOptionsEqual :: "'f listener \<Rightarrow> 'f listener \<Rightarrow> bool" where
  "socketOptionsEqual l other = False"

section \<open>Comparing addresses\<close>

fun erase_first :: "('a \<Rightarrow> bool) \<Rightarrow> 'a list \<Rightarrow> 'a list option" where
  "erase_first P [] = None"
| "erase_first P (x # xs) = (if P x then Some xs else map_option ((#) x) (erase_first P xs))"

fun compatible_loop :: "address list \<Rightarrow> address list \<Rightarrow> bool" where
  "compatible_loop [] others = True"
| "compatible_loop (a # as) others =
     (case erase_first (address_eq a) others of
        None \<Rightarrow> False
      | Some rest \<Rightarrow> compatible_loop as rest)"

definition hasCompatibleAddress :: "'f listener \<Rightarrow> 'f listener \<Rightarrow> bool" where
  "hasCompatibleAddress l other =
     (if lst_socket_type l \<noteq> lst_socket_type other \<or> length (lst_addresses l) \<noteq> length (lst_addresses other)
      then False else compatible_loop (lst_addresses l) (lst_addresses other))"

fun duplicated_loop :: "bool \<Rightarrow> address list \<Rightarrow> address list \<Rightarrow> bool" where
  "duplicated_loop bind own [] = False"
| "duplicated_loop bind own (o_addr # others) =
     (if (case ip_port o_addr of None \<Rightarrow> True | Some port \<Rightarrow> port \<noteq> 0 \<or> \<not> bind)
         \<and> list_ex (\<lambda>addr. address_eq o_addr addr) own
      then True else duplicated_loop bind own others)"

definition hasDuplicatedAddress :: "'f listener \<Rightarrow> 'f listener \<Rightarrow> bool" where
  "hasDuplicatedAddress l other =
     (if lst_socket_type l \<noteq> lst_socket_type other then False
      else duplicated_loop (lst_bind_to_port l) (lst_addresses l) (lst_addresses other))"

section \<open>Lemmas\<close>

text \<open>What \<open>operator==\<close> of the IP addresses compares.\<close>

fun address_key :: "address \<Rightarrow> (u32 + u128 \<times> u32) \<times> u16" where
  "address_key (Ipv4Address i) = (Inl (sin_addr (v4_sockaddr i)), ntohs (sin_port (v4_sockaddr i)))"
| "address_key (Ipv6Address i) =
     (Inr (sin6_addr (v6_sockaddr i), sin6_scope_id (v6_sockaddr i)), ntohs (sin6_port (v6_sockaddr i)))"
| "address_key _ = undefined"

definition is_ip :: "address \<Rightarrow> bool" where
  "is_ip a \<longleftrightarrow> ip_version_of a \<noteq> None"

lemma address_eq_key: "is_ip a \<Longrightarrow> is_ip b \<Longrightarrow> address_eq a b \<longleftrightarrow> address_key a = address_key b"
  by (cases a; cases b) (auto simp: is_ip_def)

lemma erase_first_key:
  assumes "is_ip a" and "list_all is_ip bs"
  shows "(case erase_first (address_eq a) bs of
      None \<Rightarrow> address_key a \<notin># image_mset address_key (mset bs)
    | Some rest \<Rightarrow> list_all is_ip rest \<and> Suc (length rest) = length bs
        \<and> image_mset address_key (mset bs) = add_mset (address_key a) (image_mset address_key (mset rest)))"
  using assms(2)
proof (induction bs)
  case (Cons b bs)
  then show ?case
    using address_eq_key [OF assms(1), of b] by (auto split: option.splits)
qed simp

lemma compatible_loop_key:
  assumes "list_all is_ip as" and "list_all is_ip bs" and "length as = length bs"
  shows "compatible_loop as bs \<longleftrightarrow> image_mset address_key (mset as) = image_mset address_key (mset bs)"
  using assms
proof (induction as arbitrary: bs)
  case (Cons a as)
  have ip: "is_ip a" "list_all is_ip as" using Cons.prems by simp_all
  note key = erase_first_key [OF ip(1) Cons.prems(2)]
  show ?case
  proof (cases "erase_first (address_eq a) bs")
    case None
    then have "address_key a \<notin># image_mset address_key (mset bs)" using key by simp
    then have "image_mset address_key (mset (a # as)) \<noteq> image_mset address_key (mset bs)"
      by (metis image_mset_add_mset mset.simps(2) union_single_eq_member)
    then show ?thesis using None by simp
  next
    case (Some rest)
    then show ?thesis using key Cons.IH [OF ip(2), of rest] Cons.prems(3) by simp
  qed
qed simp

lemma duplicated_loop_iff:
  "duplicated_loop bind own others \<longleftrightarrow>
     (\<exists>o_addr \<in> set others. (ip_port o_addr = Some 0 \<longrightarrow> \<not> bind) \<and> (\<exists>addr \<in> set own. address_eq o_addr addr))"
  by (induction others) (auto simp: list_ex_iff split: option.splits)

end
