(* ===== verification/ListenerManager.thy ===== *)
theory ListenerManager
  imports Listener
begin

text \<open>
  \<open>WorkerImpl\<close> (\<open>server/WorkerImpl.cpp\<close>), \<open>ListenerManagerImpl\<close> (\<open>server/ListenerManagerImpl.cpp\<close>) and the
  start-up of \<open>Server\<close> (\<open>server/Server.cpp\<close>). A worker is its connection handler and the callbacks posted to
  its dispatcher; what it posts to the main dispatcher is the callbacks that count listeners down. The
  runtime flag of the listener update is the parameter \<open>update_flag\<close>. \<open>Network::ListenerConfig\<close> has neither a
  tag nor an internal-listener configuration (both are commented out): the tag is a parameter.
\<close>

section \<open>Workers\<close>

datatype worker_post = Add_listener "u64 option" listener_config | Worker_started

datatype worker_thread = No_thread | Thread_running | Thread_joined

text \<open>The handler is reset at the end of the thread; the pointer to the thread never is.\<close>

record worker =
  wk_posts :: "worker_post list"
  wk_handler :: "handler option"
  wk_thread :: worker_thread

definition createWorker :: "u32 \<Rightarrow> worker" where
  "createWorker i = \<lparr>wk_posts = [], wk_handler = Some (ConnectionHandlerImpl_new (Some i)), wk_thread = No_thread\<rparr>"

definition worker_addListener :: "u64 option \<Rightarrow> listener_config \<Rightarrow> worker \<Rightarrow> worker" where
  "worker_addListener overridden cfg w = w\<lparr>wk_posts := wk_posts w @ [Add_listener overridden cfg]\<rparr>"

definition worker_numConnections :: "worker \<Rightarrow> u64" where
  "worker_numConnections w = (case wk_handler w of None \<Rightarrow> 0 | Some h \<Rightarrow> num_handler_connections h)"

text \<open>Running the posted callbacks: the handler, and how many completions were called.\<close>

fun run_worker_posts :: "worker_post list \<Rightarrow> handler option \<times> nat \<Rightarrow> (handler option \<times> nat) result" where
  "run_worker_posts [] s = Inr s"
| "run_worker_posts (Add_listener overridden cfg # ps) (ho, n) =
     (case ho of
        None \<Rightarrow> Inl Undefined_behaviour
      | Some h \<Rightarrow> res_bind (handler_addListener overridden cfg h) (\<lambda>h1. run_worker_posts ps (Some h1, Suc n)))"
| "run_worker_posts (Worker_started # ps) s = run_worker_posts ps s"

text \<open>\<open>start\<close> and \<open>threadRoutine\<close>, as far as the callback that reports the start. Two threads in one event base
  without locks are undefined.\<close>

definition worker_start :: "worker \<Rightarrow> (worker \<times> nat) result" where
  "worker_start w =
     (if wk_thread w = Thread_running then Inl Undefined_behaviour
      else res_bind (run_worker_posts (wk_posts w @ [Worker_started]) (wk_handler w, 0)) (\<lambda>(h, n).
             Inr (w\<lparr>wk_posts := [], wk_handler := h, wk_thread := Thread_running\<rparr>, n)))"

text \<open>The end of \<open>threadRoutine\<close>, when the loop has been left.\<close>

definition thread_routine_end :: "worker \<Rightarrow> worker" where
  "thread_routine_end w = w\<lparr>wk_handler := None\<rparr>"

text \<open>\<open>stop\<close> joins whenever there is a thread object; joining a thread twice is undefined.\<close>

definition worker_stop :: "worker \<Rightarrow> worker result" where
  "worker_stop w =
     (case wk_thread w of
        No_thread \<Rightarrow> Inr w
      | Thread_running \<Rightarrow> Inr ((thread_routine_end w)\<lparr>wk_thread := Thread_joined\<rparr>)
      | Thread_joined \<Rightarrow> Inl Undefined_behaviour)"

section \<open>The listener manager\<close>

datatype stop_listeners_type = InboundOnly | All

text \<open>\<open>completions\<close> are the callbacks in the main dispatcher, \<open>listeners_pending_init\<close> the shared counter of
  \<open>startWorkers\<close>, \<open>callback_calls\<close> how often its callback has been called.\<close>

record 'f manager =
  active_listeners :: "'f listener list"
  warming_listeners :: "'f listener list"
  mg_workers :: "worker list"
  mg_workers_started :: bool
  mg_stop_type :: "stop_listeners_type option"
  completions :: nat
  listeners_pending_init :: u64
  callback_calls :: nat

definition ListenerManagerImpl_new :: "nat \<Rightarrow> 'f manager" where
  "ListenerManagerImpl_new concurrency =
     \<lparr>active_listeners = [], warming_listeners = [],
      mg_workers = map (\<lambda>i. createWorker (word_of_nat i)) [0..<concurrency],
      mg_workers_started = False, mg_stop_type = None,
      completions = 0, listeners_pending_init = 0, callback_calls = 0\<rparr>"

text \<open>\<open>getListenerByName\<close> runs through the whole list: the last listener with the name.\<close>

fun getListenerByName :: "nat \<Rightarrow> nat option \<Rightarrow> 'f listener list \<Rightarrow> string \<Rightarrow> nat option" where
  "getListenerByName i ret [] name = ret"
| "getListenerByName i ret (l # ls) name =
     getListenerByName (Suc i) (if lst_name l = name then Some i else ret) ls name"

fun hasListenerWithDuplicatedAddress :: "'f listener list \<Rightarrow> 'f listener \<Rightarrow> bool" where
  "hasListenerWithDuplicatedAddress [] l = False"
| "hasListenerWithDuplicatedAddress (e # es) l =
     (if hasDuplicatedAddress e l then True else hasListenerWithDuplicatedAddress es l)"

definition createListenSocketFactory :: "'f factory_ops \<Rightarrow> 'f listener \<Rightarrow> 'f listener" where
  "createListenSocketFactory ops l =
     (let bind = (if lst_bind_to_port l then (if lst_reuse_port l then ReusePort else NoReusePort) else NoBind)
      in fold (\<lambda>addr. addSocketFactory (ff_create ops addr (lst_socket_type l) (lst_name l) bind (lst_mptcp_enabled l)))
           (lst_addresses l) l)"

text \<open>A duplicate address is found and then nothing is done about it.\<close>

definition setNewOrDrainingSocketFactory :: "'f factory_ops \<Rightarrow> 'f manager \<Rightarrow> 'f listener \<Rightarrow> 'f listener" where
  "setNewOrDrainingSocketFactory ops m l =
     (if hasListenerWithDuplicatedAddress (warming_listeners m) l
         \<or> hasListenerWithDuplicatedAddress (active_listeners m) l
      then createListenSocketFactory ops l else createListenSocketFactory ops l)"

definition setupSocketFactoryForListener ::
    "bool \<Rightarrow> 'f factory_ops \<Rightarrow> 'f manager \<Rightarrow> 'f listener \<Rightarrow> 'f listener \<Rightarrow> 'f listener result" where
  "setupSocketFactoryForListener update_flag ops m new existing =
     (let same_socket_options = (if update_flag then socketOptionsEqual existing new else True) in
      if update_flag \<and> lst_reuse_port new \<noteq> lst_reuse_port existing
      then Inl (Envoy_exception (''Listener '' @ lst_name new @ '': reuse port cannot be changed during an update''))
      else if update_flag \<and> \<not> same_socket_options \<and> \<not> lst_reuse_port new
      then Inl (Envoy_exception (''Listener '' @ lst_name new
             @ '': doesn't support update any socket options when the reuse port isn't enabled''))
      else if \<not> (hasCompatibleAddress existing new \<and> same_socket_options)
      then Inr (setNewOrDrainingSocketFactory ops m new)
      else Inr (cloneSocketFactoryFrom ops existing new))"

definition addOrUpdateListenerInternal ::
    "bool \<Rightarrow> 'f factory_ops \<Rightarrow> string \<Rightarrow> bool \<Rightarrow> string \<Rightarrow> 'f manager \<Rightarrow> (bool \<times> 'f manager) result" where
  "addOrUpdateListenerInternal update_flag ops version via_api name m =
     (let existing_active = getListenerByName 0 None (active_listeners m) name;
          existing_warming = getListenerByName 0 None (warming_listeners m) name;
          new = ListenerImpl_new version name via_api (mg_workers_started m)
      in case existing_warming of
           Some i \<Rightarrow>
             res_bind (setupSocketFactoryForListener update_flag ops m new (warming_listeners m ! i)) (\<lambda>l.
               Inr (True, m\<lparr>warming_listeners := (warming_listeners m)[i := lst_initialize l]\<rparr>))
         | None \<Rightarrow>
             (case existing_active of
                Some i \<Rightarrow>
                  res_bind (setupSocketFactoryForListener update_flag ops m new (active_listeners m ! i)) (\<lambda>l.
                    Inr (True,
                      if mg_workers_started m
                      then m\<lparr>warming_listeners := warming_listeners m @ [lst_initialize l]\<rparr>
                      else m\<lparr>active_listeners := (active_listeners m)[i := lst_initialize l]\<rparr>))
              | None \<Rightarrow>
                  let l = lst_initialize (setNewOrDrainingSocketFactory ops m new) in
                  Inr (True,
                    if mg_workers_started m then m\<lparr>warming_listeners := warming_listeners m @ [l]\<rparr>
                    else m\<lparr>active_listeners := active_listeners m @ [l]\<rparr>)))"

definition addOrUpdateListener ::
    "bool \<Rightarrow> 'f factory_ops \<Rightarrow> string \<Rightarrow> bool \<Rightarrow> 'f manager \<Rightarrow> (bool \<times> 'f manager) result" where
  "addOrUpdateListener update_flag ops version via_api m =
     addOrUpdateListenerInternal update_flag ops version via_api ''listener_0'' m"

text \<open>A non-void function without a return.\<close>

definition removeListener :: "string \<Rightarrow> 'f manager \<Rightarrow> bool result" where
  "removeListener name m = Inl Undefined_behaviour"

definition mg_numConnections :: "'f manager \<Rightarrow> u64" where
  "mg_numConnections m = fold (\<lambda>w n. n + worker_numConnections w) (mg_workers m) 0"

section \<open>Starting and stopping\<close>

definition config_of :: "'f factory_ops \<Rightarrow> u64 \<Rightarrow> 'f listener \<Rightarrow> listener_config" where
  "config_of ops tag l =
     \<lparr>cfg_internal = False,
      cfg_factories = map (\<lambda>f. (ff_localAddress ops f, ff_socketType ops f)) (lst_socket_factories l),
      cfg_tag = tag\<rparr>"

text \<open>\<open>addListenerToWorker\<close> for every listener and worker, with the completion that counts down.\<close>

definition add_all_to_workers :: "('f listener \<Rightarrow> listener_config) \<Rightarrow> 'f listener list \<Rightarrow> worker list \<Rightarrow> worker list" where
  "add_all_to_workers cfg ls ws = fold (\<lambda>l. map (worker_addListener None (cfg l))) ls ws"

fun start_all :: "worker list \<Rightarrow> (worker list \<times> nat) result" where
  "start_all [] = Inr ([], 0)"
| "start_all (w # ws) =
     res_bind (worker_start w) (\<lambda>(w1, n).
     res_bind (start_all ws) (\<lambda>(ws1, k). Inr (w1 # ws1, n + k)))"

definition startWorkers :: "('f listener \<Rightarrow> listener_config) \<Rightarrow> 'f manager \<Rightarrow> 'f manager result" where
  "startWorkers cfg m =
     (let pending = word_of_nat (length (mg_workers m) * length (active_listeners m));
          ws = add_all_to_workers cfg (active_listeners m) (mg_workers m)
      in res_bind (start_all ws) (\<lambda>(ws1, n).
           Inr (m\<lparr>mg_workers_started := True, listeners_pending_init := pending, mg_workers := ws1,
                  completions := completions m + n\<rparr>)))"

text \<open>One completion run by the main dispatcher.\<close>

definition run_completion :: "'f manager \<Rightarrow> 'f manager" where
  "run_completion m =
     (let n = listeners_pending_init m - 1;
          m1 = m\<lparr>listeners_pending_init := n, completions := completions m - 1\<rparr>
      in if n = 0 then m1\<lparr>callback_calls := callback_calls m1 + 1\<rparr> else m1)"

definition stopListeners :: "stop_listeners_type \<Rightarrow> 'f manager \<Rightarrow> 'f manager" where
  "stopListeners type m = m\<lparr>mg_stop_type := Some type\<rparr>"

fun stop_all :: "worker list \<Rightarrow> worker list result" where
  "stop_all [] = Inr []"
| "stop_all (w # ws) = res_bind (worker_stop w) (\<lambda>w1. res_bind (stop_all ws) (\<lambda>ws1. Inr (w1 # ws1)))"

definition stopWorkers :: "'f manager \<Rightarrow> 'f manager result" where
  "stopWorkers m =
     (if \<not> mg_workers_started m then Inr m
      else res_bind (stop_all (mg_workers m)) (\<lambda>ws. Inr (m\<lparr>mg_workers := ws\<rparr>)))"

text \<open>\<open>Server::initialize\<close>, with \<open>concurrency()\<close> one.\<close>

definition server_concurrency :: nat where
  "server_concurrency = 1"

definition server_initialize :: "bool \<Rightarrow> 'f factory_ops \<Rightarrow> u64 \<Rightarrow> 'f manager result" where
  "server_initialize update_flag ops tag =
     res_bind (addOrUpdateListener update_flag ops [] False (ListenerManagerImpl_new server_concurrency))
       (\<lambda>(added, m). startWorkers (config_of ops tag) m)"

end
