(* ===== verification/ServerSpec.thy ===== *)
theory ServerSpec
  imports ListenerManager
begin

text \<open>
  What the listener manager, the workers and the connection handlers promise together, and the two places
  where the start-up does not get that far.
\<close>

section \<open>The lists of the manager\<close>

lemma getListenerByName_absent: "name \<notin> lst_name ` set ls \<Longrightarrow> getListenerByName i ret ls name = ret"
  by (induction ls arbitrary: i ret) auto

lemma getListenerByName_last:
  assumes "name \<in> lst_name ` set ls"
  shows "\<exists>j < length ls. getListenerByName i ret ls name = Some (i + j) \<and> lst_name (ls ! j) = name
    \<and> (\<forall>k. j < k \<longrightarrow> k < length ls \<longrightarrow> lst_name (ls ! k) \<noteq> name)"
  using assms
proof (induction ls arbitrary: i ret)
  case (Cons l ls)
  show ?case
  proof (cases "name \<in> lst_name ` set ls")
    case True
    then obtain j where j: "j < length ls"
      "getListenerByName (Suc i) (if lst_name l = name then Some i else ret) ls name = Some (Suc i + j)"
      "lst_name (ls ! j) = name" "\<forall>k. j < k \<longrightarrow> k < length ls \<longrightarrow> lst_name (ls ! k) \<noteq> name"
      using Cons.IH by blast
    show ?thesis
    proof (intro exI conjI)
      show "\<forall>k. Suc j < k \<longrightarrow> k < length (l # ls) \<longrightarrow> lst_name ((l # ls) ! k) \<noteq> name"
        using j(4) by (auto simp: nth_Cons split: nat.splits)
    qed (use j in simp_all)
  next
    case False
    then have "lst_name l = name" using Cons.prems by auto
    moreover have "\<forall>k. 0 < k \<longrightarrow> k < length (l # ls) \<longrightarrow> lst_name ((l # ls) ! k) \<noteq> name"
      using False by (auto simp: nth_Cons split: nat.splits)
    ultimately show ?thesis
      using getListenerByName_absent [OF False] by (intro exI [of _ 0]) simp
  qed
qed simp

lemma getListenerByName_Some:
  assumes "getListenerByName 0 None ls name = Some i"
  shows "i < length ls \<and> lst_name (ls ! i) = name"
proof (cases "name \<in> lst_name ` set ls")
  case True
  then show ?thesis using getListenerByName_last [OF True, of 0 None] assms by auto
next
  case False
  then show ?thesis using getListenerByName_absent [OF False, of 0 None] assms by simp
qed

lemma getListenerByName_None:
  assumes "getListenerByName 0 None ls name = None"
  shows "name \<notin> lst_name ` set ls"
  using getListenerByName_last [of name ls 0 None] assms by auto

inductive mg_reachable :: "'f factory_ops \<Rightarrow> ('f listener \<Rightarrow> listener_config) \<Rightarrow> 'f manager \<Rightarrow> bool" for ops cfg where
  mg_new: "mg_reachable ops cfg (ListenerManagerImpl_new n)"
| mg_add: "mg_reachable ops cfg m \<Longrightarrow>
    addOrUpdateListenerInternal flag ops version api name m = Inr (b, m') \<Longrightarrow> mg_reachable ops cfg m'"
| mg_start: "mg_reachable ops cfg m \<Longrightarrow> startWorkers cfg m = Inr m' \<Longrightarrow> mg_reachable ops cfg m'"
| mg_completion: "mg_reachable ops cfg m \<Longrightarrow> 0 < completions m \<Longrightarrow> mg_reachable ops cfg (run_completion m)"
| mg_stop: "mg_reachable ops cfg m \<Longrightarrow> mg_reachable ops cfg (stopListeners t m)"
| mg_stop_workers: "mg_reachable ops cfg m \<Longrightarrow> stopWorkers m = Inr m' \<Longrightarrow> mg_reachable ops cfg m'"

definition mg_inv :: "'f manager \<Rightarrow> bool" where
  "mg_inv m \<longleftrightarrow>
     distinct (map lst_name (active_listeners m)) \<and> distinct (map lst_name (warming_listeners m))
     \<and> (warming_listeners m = [] \<or> mg_workers_started m)
     \<and> list_all (\<lambda>l. lst_addresses l = [] \<and> lst_socket_factories l = []) (active_listeners m @ warming_listeners m)"

text \<open>What the socket factories of a new listener are: none, as it has no addresses.\<close>

lemma create_factories_fold:
  "fold (\<lambda>addr. addSocketFactory (g addr)) as l
    = l\<lparr>lst_socket_factories := lst_socket_factories l @ map g as\<rparr>"
  by (induction as arbitrary: l) (simp_all add: addSocketFactory_def)

lemma new_factories:
  "lst_name (setNewOrDrainingSocketFactory ops m l) = lst_name l"
  "lst_addresses (setNewOrDrainingSocketFactory ops m l) = lst_addresses l"
  "lst_socket_factories (setNewOrDrainingSocketFactory ops m l) = lst_socket_factories l
     @ map (\<lambda>addr. ff_create ops addr (lst_socket_type l) (lst_name l)
         (if lst_bind_to_port l then (if lst_reuse_port l then ReusePort else NoReusePort) else NoBind)
         (lst_mptcp_enabled l)) (lst_addresses l)"
  by (simp_all add: setNewOrDrainingSocketFactory_def createListenSocketFactory_def create_factories_fold)

lemma setup_factories:
  assumes "setupSocketFactoryForListener flag ops m l existing = Inr l'"
    and "lst_addresses l = []" and "lst_socket_factories l = []" and "lst_socket_factories existing = []"
  shows "lst_name l' = lst_name l \<and> lst_addresses l' = [] \<and> lst_socket_factories l' = []"
  using assms
  by (auto simp: setupSocketFactoryForListener_def Let_def new_factories cloneSocketFactoryFrom_def split: if_splits)

lemma distinct_names_update:
  assumes "distinct (map lst_name ls)" and "i < length ls" and "lst_name l = lst_name (ls ! i)"
  shows "distinct (map lst_name (ls[i := l]))"
proof -
  have "map lst_name (ls[i := l]) = map lst_name ls"
    using assms(2,3) by (intro nth_equalityI) (auto simp: nth_list_update)
  then show ?thesis using assms(1) by simp
qed

lemma list_all_update: "list_all P xs \<Longrightarrow> P x \<Longrightarrow> list_all P (xs[i := x])"
  using set_update_subset_insert [of xs i x] by (auto simp: list_all_iff)

lemma lst_initialize_id [simp]: "lst_initialize l = l"
  by (simp add: lst_initialize_def)

lemma mg_inv_add:
  assumes inv: "mg_inv m" and add: "addOrUpdateListenerInternal flag ops version api name m = Inr (b, m')"
  shows "mg_inv m'"
proof -
  let ?new = "ListenerImpl_new version name api (mg_workers_started m) :: 'a listener"
  have new: "lst_name ?new = name" "lst_addresses ?new = []" "lst_socket_factories ?new = []"
    by (simp_all add: ListenerImpl_new_def)
  have empty: "list_all (\<lambda>l. lst_addresses l = [] \<and> lst_socket_factories l = []) (active_listeners m)"
    "list_all (\<lambda>l. lst_addresses l = [] \<and> lst_socket_factories l = []) (warming_listeners m)"
    and names: "distinct (map lst_name (active_listeners m))" "distinct (map lst_name (warming_listeners m))"
    and started: "warming_listeners m = [] \<or> mg_workers_started m"
    using inv by (simp_all add: mg_inv_def)
  show ?thesis
  proof (cases "getListenerByName 0 None (warming_listeners m) name")
    case (Some i)
    note i = getListenerByName_Some [OF Some]
    then have ex: "lst_socket_factories (warming_listeners m ! i) = []" using empty(2) by (simp add: list_all_length)
    from add Some obtain l where l: "setupSocketFactoryForListener flag ops m ?new (warming_listeners m ! i) = Inr l"
      and m': "m' = m\<lparr>warming_listeners := (warming_listeners m)[i := l]\<rparr>"
      by (auto simp: addOrUpdateListenerInternal_def Let_def res_bind_Inr_iff)
    have "lst_name l = name \<and> lst_addresses l = [] \<and> lst_socket_factories l = []"
      using setup_factories [OF l] new ex by simp
    then show ?thesis
      using inv i distinct_names_update [OF names(2)] started
      by (auto simp: m' mg_inv_def list_all_update)
  next
    case None
    note fresh = getListenerByName_None [OF None]
    show ?thesis
    proof (cases "getListenerByName 0 None (active_listeners m) name")
      case (Some i)
      note i = getListenerByName_Some [OF Some]
      then have ex: "lst_socket_factories (active_listeners m ! i) = []" using empty(1) by (simp add: list_all_length)
      from add None Some obtain l where
        l: "setupSocketFactoryForListener flag ops m ?new (active_listeners m ! i) = Inr l"
        and m': "m' = (if mg_workers_started m then m\<lparr>warming_listeners := warming_listeners m @ [l]\<rparr>
          else m\<lparr>active_listeners := (active_listeners m)[i := l]\<rparr>)"
        by (auto simp: addOrUpdateListenerInternal_def Let_def res_bind_Inr_iff)
      have "lst_name l = name \<and> lst_addresses l = [] \<and> lst_socket_factories l = []"
        using setup_factories [OF l] new ex by simp
      then show ?thesis
        using inv i distinct_names_update [OF names(1)] fresh
        by (auto simp: m' mg_inv_def list_all_update)
    next
      case none: None
      let ?l = "setNewOrDrainingSocketFactory ops m ?new"
      have l: "lst_name ?l = name" "lst_addresses ?l = []" "lst_socket_factories ?l = []"
        by (simp_all add: new_factories new)
      have m': "m' = (if mg_workers_started m then m\<lparr>warming_listeners := warming_listeners m @ [?l]\<rparr>
          else m\<lparr>active_listeners := active_listeners m @ [?l]\<rparr>)"
        using add None none by (auto simp: addOrUpdateListenerInternal_def Let_def)
      show ?thesis
        using inv l fresh getListenerByName_None [OF none] by (auto simp: m' mg_inv_def)
    qed
  qed
qed

lemma mg_reachable_inv: "mg_reachable ops cfg m \<Longrightarrow> mg_inv m"
proof (induction rule: mg_reachable.induct)
  case (mg_add m flag version api name b m')
  then show ?case using mg_inv_add by blast
qed (auto simp: mg_inv_def ListenerManagerImpl_new_def startWorkers_def run_completion_def Let_def
      stopListeners_def stopWorkers_def res_bind_Inr_iff split: if_splits)

section \<open>Starting the workers\<close>

definition adds :: "listener_config list \<Rightarrow> worker_post list" where
  "adds cfgs = map (Add_listener None) cfgs"

lemma add_all_to_workers_posts:
  "add_all_to_workers cfg ls ws = map (\<lambda>w. w\<lparr>wk_posts := wk_posts w @ adds (map cfg ls)\<rparr>) ws"
proof (induction ls arbitrary: ws)
  case (Cons l ls)
  have "add_all_to_workers cfg (l # ls) ws = add_all_to_workers cfg ls (map (worker_addListener None (cfg l)) ws)"
    by (simp add: add_all_to_workers_def)
  then show ?case by (simp add: Cons.IH worker_addListener_def adds_def)
qed (simp add: add_all_to_workers_def adds_def)

lemma run_adds:
  "run_worker_posts (adds cfgs @ [Worker_started]) (Some h, n) =
     res_bind (handler_add_all cfgs h) (\<lambda>h'. Inr (Some h', n + length cfgs))"
proof (induction cfgs arbitrary: h n)
  case (Cons cfg cfgs)
  have "run_worker_posts (adds (cfg # cfgs) @ [Worker_started]) (Some h, n) =
      res_bind (handler_addListener None cfg h)
        (\<lambda>h1. res_bind (handler_add_all cfgs h1) (\<lambda>h'. Inr (Some h', Suc n + length cfgs)))"
    by (simp add: adds_def Cons.IH [unfolded adds_def])
  then show ?case by (cases "handler_addListener None cfg h") simp_all
qed (simp add: adds_def)

text \<open>A worker that has not been started, and one that runs with the listeners added to its handler.\<close>

definition fresh_worker :: "worker \<Rightarrow> bool" where
  "fresh_worker w \<longleftrightarrow> wk_posts w = [] \<and> wk_handler w \<noteq> None \<and> wk_thread w = No_thread"

definition runs_with :: "listener_config list \<Rightarrow> worker \<Rightarrow> worker \<Rightarrow> bool" where
  "runs_with cfgs w w' \<longleftrightarrow> wk_posts w' = [] \<and> wk_thread w' = Thread_running
     \<and> (\<exists>h h'. wk_handler w = Some h \<and> wk_handler w' = Some h' \<and> handler_add_all cfgs h = Inr h')"

lemma start_all_handlers:
  assumes "start_all (map (\<lambda>w. w\<lparr>wk_posts := wk_posts w @ adds cfgs\<rparr>) ws) = Inr (ws', n)"
    and "list_all fresh_worker ws"
  shows "n = length ws * length cfgs \<and> list_all2 (runs_with cfgs) ws ws'"
  using assms
proof (induction ws arbitrary: ws' n)
  case (Cons w ws)
  from Cons.prems obtain w1 k ws1 j where
    w1: "worker_start (w\<lparr>wk_posts := adds cfgs\<rparr>) = Inr (w1, k)"
    and ws1: "start_all (map (\<lambda>w. w\<lparr>wk_posts := wk_posts w @ adds cfgs\<rparr>) ws) = Inr (ws1, j)"
    and r: "ws' = w1 # ws1" "n = k + j"
    by (auto simp: res_bind_Inr_iff fresh_worker_def)
  obtain h where "wk_handler w = Some h" "wk_thread w = No_thread" using Cons.prems(2) by (auto simp: fresh_worker_def)
  with w1 have "k = length cfgs" "runs_with cfgs w w1"
    by (auto simp: worker_start_def run_adds res_bind_Inr_iff runs_with_def)
  then show ?case using Cons.IH [OF ws1] Cons.prems(2) r by simp
qed simp

lemma completions_countdown:
  assumes "completions m = n" and "listeners_pending_init m = word_of_nat n" and "n < 2 ^ 64" and "k \<le> n"
  shows "completions ((run_completion ^^ k) m) = n - k
    \<and> listeners_pending_init ((run_completion ^^ k) m) = word_of_nat (n - k)
    \<and> callback_calls ((run_completion ^^ k) m) = callback_calls m + (if 0 < k \<and> k = n then 1 else 0)"
  using assms(4)
proof (induction k)
  case 0
  then show ?case using assms by simp
next
  case (Suc k)
  let ?m = "(run_completion ^^ k) m"
  let ?p = "word_of_nat (n - Suc k) :: u64"
  have ih: "completions ?m = n - k" "listeners_pending_init ?m = word_of_nat (n - k)"
    "callback_calls ?m = callback_calls m"
    using Suc by simp_all
  have "listeners_pending_init ?m - 1 = ?p"
    unfolding ih(2) using Suc.prems by (simp add: of_nat_diff)
  then have run: "run_completion ?m = (let m1 = ?m\<lparr>listeners_pending_init := ?p, completions := n - Suc k\<rparr>
      in if ?p = 0 then m1\<lparr>callback_calls := callback_calls m1 + 1\<rparr> else m1)"
    unfolding run_completion_def Let_def ih(1) by simp
  have "n - Suc k < 2 ^ 64" by (rule le_less_trans [OF diff_le_self assms(3)])
  then have "unat ?p = n - Suc k" by (rule unat_le_of_nat)
  then have zero: "?p = 0 \<longleftrightarrow> n = Suc k"
    unfolding unat_eq_zero [symmetric] using Suc.prems by auto
  show ?case
    unfolding funpow.simps comp_apply run Let_def zero using ih(3) by simp
qed

text \<open>Stopping running workers; their threads stay joined.\<close>

lemma stop_all_running:
  "list_all (\<lambda>w. wk_thread w = Thread_running) ws \<Longrightarrow>
     stop_all ws = Inr (map (\<lambda>w. (thread_routine_end w)\<lparr>wk_thread := Thread_joined\<rparr>) ws)"
  by (induction ws) (simp_all add: worker_stop_def)

lemma stop_all_joined:
  "ws \<noteq> [] \<Longrightarrow> list_all (\<lambda>w. wk_thread w = Thread_joined) ws \<Longrightarrow> stop_all ws = Inl Undefined_behaviour"
  by (cases ws) (simp_all add: worker_stop_def)

lemma no_handler_no_connections:
  "list_all (\<lambda>w. wk_handler w = None) (mg_workers m) \<Longrightarrow> mg_numConnections m = 0"
proof -
  have "fold (\<lambda>w n. n + worker_numConnections w) ws 0 = 0" if "list_all (\<lambda>w. wk_handler w = None) ws" for ws
    using that by (induction ws) (simp_all add: worker_numConnections_def)
  then show "list_all (\<lambda>w. wk_handler w = None) (mg_workers m) \<Longrightarrow> mg_numConnections m = 0"
    by (simp add: mg_numConnections_def)
qed

lemma stop_started:
  assumes "mg_workers_started m" and "list_all (\<lambda>w. wk_thread w = Thread_running) (mg_workers m)"
  shows "\<exists>m'. stopWorkers m = Inr m' \<and> mg_numConnections m' = 0
    \<and> (mg_workers m \<noteq> [] \<longrightarrow> stopWorkers m' = Inl Undefined_behaviour)"
proof -
  let ?ws = "map (\<lambda>w. (thread_routine_end w)\<lparr>wk_thread := Thread_joined\<rparr>) (mg_workers m)"
  have "list_all (\<lambda>w. wk_handler w = None) ?ws" "list_all (\<lambda>w. wk_thread w = Thread_joined) ?ws"
    by (simp_all add: list_all_iff thread_routine_end_def)
  then have "mg_numConnections (m\<lparr>mg_workers := ?ws\<rparr>) = 0"
    "mg_workers m \<noteq> [] \<Longrightarrow> stopWorkers (m\<lparr>mg_workers := ?ws\<rparr>) = Inl Undefined_behaviour"
    using assms(1) stop_all_joined [of ?ws] no_handler_no_connections [of "m\<lparr>mg_workers := ?ws\<rparr>"]
    by (simp_all add: stopWorkers_def)
  then show ?thesis using stop_all_running [OF assms(2)] assms(1) by (simp add: stopWorkers_def)
qed

section \<open>Properties\<close>

text \<open>Property C12. After any sequence of listeners the connection handler has taken, the TCP listener it finds
  under the name of an address is the last one added for that name; for the IPv4 any address of a port
  without a listener of its own it is a dual-stack IPv6 listener of that port, if there is one. So a dual-stack
  listener never takes the place of an IPv4 listener, whichever comes first.\<close>

theorem tcp_lookup_prefers_own_listener:
  assumes "handler_add_all cfgs (ConnectionHandlerImpl_new w) = Inr h"
    and "list_all (\<lambda>d. ip_address_named (pa_address d)) (concat (map tcp_details cfgs))"
  shows "resolves (concat (map tcp_details cfgs)) (tcp_listener_map_by_address h) k"
  using handler_add_all_resolves [of "[]" "ConnectionHandlerImpl_new w" cfgs h k] assms
  by (simp add: resolves_def last_named_def ConnectionHandlerImpl_new_def)

text \<open>For listeners on IP addresses \<open>hasCompatibleAddress\<close> is equality of the socket types and of
  the multisets of addresses, so it does not depend on the order and is an equivalence.\<close>

theorem hasCompatibleAddress_multiset:
  assumes "list_all is_ip (lst_addresses a)" and "list_all is_ip (lst_addresses b)"
  shows "hasCompatibleAddress a b \<longleftrightarrow>
    lst_socket_type a = lst_socket_type b
    \<and> image_mset address_key (mset (lst_addresses a)) = image_mset address_key (mset (lst_addresses b))"
proof (cases "length (lst_addresses a) = length (lst_addresses b)")
  case True
  then show ?thesis using compatible_loop_key [OF assms True] by (simp add: hasCompatibleAddress_def)
next
  case False
  then have "image_mset address_key (mset (lst_addresses a)) \<noteq> image_mset address_key (mset (lst_addresses b))"
    by (metis size_image_mset size_mset)
  then show ?thesis using False by (simp add: hasCompatibleAddress_def)
qed

text \<open>Property C29. In every reachable state of the manager the names of the active listeners are distinct and
  so are those of the warming listeners, no listener warms before the workers have started, and after they have
  started the active listeners never change: what is added stays warming.\<close>

theorem listener_names_unique:
  assumes "mg_reachable ops cfg m"
  shows "distinct (map lst_name (active_listeners m)) \<and> distinct (map lst_name (warming_listeners m))
    \<and> (warming_listeners m = [] \<or> mg_workers_started m)
    \<and> (mg_workers_started m \<longrightarrow>
        (\<forall>flag version api name b m'. addOrUpdateListenerInternal flag ops version api name m = Inr (b, m')
          \<longrightarrow> active_listeners m' = active_listeners m))"
  using mg_reachable_inv [OF assms]
  by (auto simp: mg_inv_def addOrUpdateListenerInternal_def Let_def res_bind_Inr_iff split: option.splits)

text \<open>When \<open>startWorkers\<close> returns, every worker has run and its handler holds every active listener,
  and as the main thread runs the completions the callback is called exactly once, by the last of them; it is
  never called when there is no worker or no active listener. \<open>stopWorkers\<close> then ends every worker and its
  connections; a second one would join the threads again, which is undefined.\<close>

theorem startWorkers_calls_back_once:
  assumes "startWorkers cfg m = Inr m'" and "list_all fresh_worker (mg_workers m)"
    and "completions m = 0" and "n = length (mg_workers m) * length (active_listeners m)" and "n < 2 ^ 64"
  shows "list_all2 (runs_with (map cfg (active_listeners m))) (mg_workers m) (mg_workers m')
    \<and> (\<forall>k\<le>n. completions ((run_completion ^^ k) m') = n - k
        \<and> callback_calls ((run_completion ^^ k) m') = callback_calls m + (if 0 < k \<and> k = n then 1 else 0))
    \<and> (\<exists>m''. stopWorkers m' = Inr m'' \<and> mg_numConnections m'' = 0
        \<and> (mg_workers m \<noteq> [] \<longrightarrow> stopWorkers m'' = Inl Undefined_behaviour))"
proof -
  from assms(1) obtain ws c where
    ws: "start_all (map (\<lambda>w. w\<lparr>wk_posts := wk_posts w @ adds (map cfg (active_listeners m))\<rparr>) (mg_workers m)) = Inr (ws, c)"
    and m': "m' = m\<lparr>mg_workers_started := True, listeners_pending_init := word_of_nat n, mg_workers := ws,
      completions := completions m + c\<rparr>"
    by (auto simp: startWorkers_def Let_def res_bind_Inr_iff add_all_to_workers_posts assms(4))
  note h = start_all_handlers [OF ws assms(2)]
  have c: "c = n" using h assms(4) by simp
  have comp: "completions m' = n" and pend: "listeners_pending_init m' = word_of_nat n"
    and cb: "callback_calls m' = callback_calls m"
    by (simp_all add: m' c assms(3))
  have "completions ((run_completion ^^ k) m') = n - k
      \<and> callback_calls ((run_completion ^^ k) m') = callback_calls m + (if 0 < k \<and> k = n then 1 else 0)"
    if "k \<le> n" for k
    using completions_countdown [OF comp pend assms(5) that] by (simp only: cb)
  moreover have all: "list_all2 (runs_with (map cfg (active_listeners m))) (mg_workers m) (mg_workers m')"
    using h by (simp add: m')
  moreover have "list_all (\<lambda>w. wk_thread w = Thread_running) (mg_workers m')"
    using all by (auto simp: list_all2_conv_all_nth list_all_length runs_with_def)
  then have "\<exists>m''. stopWorkers m' = Inr m'' \<and> mg_numConnections m'' = 0
      \<and> (mg_workers m \<noteq> [] \<longrightarrow> stopWorkers m'' = Inl Undefined_behaviour)"
    using stop_started [of m'] list_all2_lengthD [OF all] by (auto simp: m')
  ultimately show ?thesis by blast
qed

lemma no_factories_undefined:
  assumes "lst_socket_factories l = []"
  shows "handler_addListener None (config_of ops tag l) h = Inl Undefined_behaviour"
  using assms by (simp add: handler_addListener_def listener_details_def config_of_def)

lemma start_undefined:
  assumes "mg_reachable ops cfg m" and "mg_workers m \<noteq> []" and "active_listeners m \<noteq> []"
    and "list_all (\<lambda>w. wk_posts w = []) (mg_workers m)"
  shows "startWorkers (config_of ops tag) m = Inl Undefined_behaviour"
proof -
  obtain l ls where l: "active_listeners m = l # ls" using assms(3) by (cases "active_listeners m") auto
  obtain w ws where w: "mg_workers m = w # ws" using assms(2) by (cases "mg_workers m") auto
  have "lst_socket_factories l = []" using mg_reachable_inv [OF assms(1)] l by (simp add: mg_inv_def)
  then have "handler_add_all (map (config_of ops tag) (active_listeners m)) h = Inl Undefined_behaviour" for h
    by (simp add: l no_factories_undefined)
  then have "worker_start (w\<lparr>wk_posts := wk_posts w @ adds (map (config_of ops tag) (active_listeners m))\<rparr>)
      = Inl Undefined_behaviour"
    using assms(4) w by (cases "wk_handler w") (simp_all add: worker_start_def run_adds, simp add: adds_def l)
  then show ?thesis by (simp add: startWorkers_def Let_def add_all_to_workers_posts w)
qed

text \<open>\<open>Server::initialize\<close> starts the workers with the listener it has just added.\<close>

lemma initialize_undefined: "server_initialize flag ops tag = Inl Undefined_behaviour"
proof -
  let ?m0 = "ListenerManagerImpl_new server_concurrency :: 'a manager"
  have m0: "active_listeners ?m0 = []" "warming_listeners ?m0 = []" "\<not> mg_workers_started ?m0"
    "mg_workers ?m0 = [createWorker 0]"
    by (simp_all add: ListenerManagerImpl_new_def server_concurrency_def)
  obtain l where add: "addOrUpdateListener flag ops [] False ?m0 = Inr (True, ?m0\<lparr>active_listeners := [l]\<rparr>)"
    using m0 by (simp add: addOrUpdateListener_def addOrUpdateListenerInternal_def Let_def)
  then have "mg_reachable ops (config_of ops tag) (?m0\<lparr>active_listeners := [l]\<rparr>)"
    using mg_add [OF mg_new] by (simp add: addOrUpdateListener_def)
  from start_undefined [OF this]
  have "startWorkers (config_of ops tag) (?m0\<lparr>active_listeners := [l]\<rparr>) = Inl Undefined_behaviour"
    using m0 by (simp add: createWorker_def)
  then show ?thesis
    by (simp add: server_initialize_def add)
qed

text \<open>Property C30. The listeners the manager makes have no address and no socket factory, so the workers'
  \<open>listenSocketFactories()[0]\<close> is out of bounds: no reachable manager that has a worker and an active listener can
  start its workers, and \<open>Server::initialize\<close> is undefined.\<close>

theorem server_start_is_undefined:
  assumes "mg_reachable ops cfg m" and "mg_workers m \<noteq> []" and "active_listeners m \<noteq> []"
    and "list_all (\<lambda>w. wk_posts w = []) (mg_workers m)"
  shows "startWorkers (config_of ops tag) m = Inl Undefined_behaviour
    \<and> server_initialize flag ops tag = Inl Undefined_behaviour"
proof
  show "startWorkers (config_of ops tag) m = Inl Undefined_behaviour"
    by (rule start_undefined [OF assms])
  show "server_initialize flag ops tag = Inl Undefined_behaviour" by (rule initialize_undefined)
qed

section \<open>Witnesses\<close>

definition any4_80 :: address where
  "any4_80 = Ipv4Address \<lparr>v4_sockaddr = \<lparr>sin_family = AF_INET, sin_port = 20480, sin_addr = 0\<rparr>,
     v4_friendly_address = ''0.0.0.0'', v4_friendly_name = ''0.0.0.0:80''\<rparr>"

definition any6_80 :: address where
  "any6_80 = Ipv6Address \<lparr>v6_sockaddr = \<lparr>sin6_family = AF_INET6, sin6_port = 20480, sin6_addr = 0, sin6_scope_id = 0\<rparr>,
     v6_v6only = False, v6_friendly_address = ''::'', v6_friendly_name = ''[::]:80''\<rparr>"

definition cfg4 :: listener_config where
  "cfg4 = \<lparr>cfg_internal = False, cfg_factories = [(any4_80, Stream)], cfg_tag = 4\<rparr>"

definition cfg6 :: listener_config where
  "cfg6 = \<lparr>cfg_internal = False, cfg_factories = [(any6_80, Stream)], cfg_tag = 6\<rparr>"

lemma samples_accepted:
  "\<not> isl (handler_add_all [cfg6, cfg4, cfg6] (ConnectionHandlerImpl_new None))"
  by code_simp

theorem tcp_lookup_prefers_own_listener_witness:
  "\<exists>h. handler_add_all [cfg6, cfg4, cfg6] (ConnectionHandlerImpl_new None) = Inr h
    \<and> tcp_listener_map_by_address h ''0.0.0.0:80'' = Some \<lparr>pa_address = any4_80, pa_listener = Active_tcp\<rparr>"
proof -
  obtain h where h: "handler_add_all [cfg6, cfg4, cfg6] (ConnectionHandlerImpl_new None) = Inr h"
    using samples_accepted by (metis isl_def sum.exhaust_sel)
  have "resolves (concat (map tcp_details [cfg6, cfg4, cfg6])) (tcp_listener_map_by_address h) ''0.0.0.0:80''"
    using tcp_lookup_prefers_own_listener [OF h]
    by (simp add: tcp_details_def cfg4_def cfg6_def any4_80_def any6_80_def)
  then have "tcp_listener_map_by_address h ''0.0.0.0:80'' = Some \<lparr>pa_address = any4_80, pa_listener = Active_tcp\<rparr>"
    by (simp add: resolves_def last_named_def tcp_details_def cfg4_def cfg6_def any4_80_def any6_80_def)
  then show ?thesis using h by blast
qed

definition two_addresses :: "address list \<Rightarrow> address listener" where
  "two_addresses as = (ListenerImpl_new [] ''l'' False False)\<lparr>lst_addresses := as\<rparr>"

theorem hasCompatibleAddress_multiset_witness:
  "hasCompatibleAddress (two_addresses [any4_80, any6_80, any4_80]) (two_addresses [any4_80, any4_80, any6_80])
    \<and> \<not> hasCompatibleAddress (two_addresses [any4_80, any6_80, any6_80]) (two_addresses [any4_80, any4_80, any6_80])"
proof -
  have ip: "is_ip any4_80" "is_ip any6_80" by (simp_all add: is_ip_def any4_80_def any6_80_def)
  have key: "address_key any4_80 \<noteq> address_key any6_80" by (simp add: any4_80_def any6_80_def)
  show ?thesis
    using hasCompatibleAddress_multiset [of "two_addresses [any4_80, any6_80, any4_80]" "two_addresses [any4_80, any4_80, any6_80]"]
      hasCompatibleAddress_multiset [of "two_addresses [any4_80, any6_80, any6_80]" "two_addresses [any4_80, any4_80, any6_80]"]
    by (simp add: two_addresses_def ListenerImpl_new_def ip key key [symmetric])
qed

definition pair_ops :: "(address \<times> socket_type) factory_ops" where
  "pair_ops = \<lparr>ff_create = (\<lambda>a t n b m. (a, t)), ff_clone = id, ff_localAddress = fst, ff_socketType = snd\<rparr>"

definition one_listener :: "(address \<times> socket_type) manager" where
  "one_listener = (ListenerManagerImpl_new 2)\<lparr>active_listeners :=
     [(ListenerImpl_new [] ''l'' False False)\<lparr>lst_socket_factories := [(any4_80, Stream)]\<rparr>]\<rparr>"

lemma one_listener_starts: "\<not> isl (startWorkers (config_of pair_ops 1) one_listener)"
  by code_simp

theorem startWorkers_calls_back_once_witness:
  "\<exists>m'. startWorkers (config_of pair_ops 1) one_listener = Inr m'
    \<and> callback_calls ((run_completion ^^ 1) m') = 0 \<and> callback_calls ((run_completion ^^ 2) m') = 1"
proof -
  obtain m' where m': "startWorkers (config_of pair_ops 1) one_listener = Inr m'"
    using one_listener_starts by (metis isl_def sum.exhaust_sel)
  have m: "list_all fresh_worker (mg_workers one_listener)" "completions one_listener = 0"
    "length (mg_workers one_listener) * length (active_listeners one_listener) = 2"
    "callback_calls one_listener = 0"
    by (simp_all add: one_listener_def ListenerManagerImpl_new_def createWorker_def fresh_worker_def numeral_2_eq_2)
  have "\<forall>k\<le>2. callback_calls ((run_completion ^^ k) m') = (if 0 < k \<and> k = 2 then 1 else 0)"
    using startWorkers_calls_back_once [OF m' m(1,2) m(3) [symmetric]] m(4) by simp
  from this [rule_format, of 1] this [rule_format, of 2] m' show ?thesis by (intro exI [of _ m']) simp
qed

lemma fresh_manager:
  "\<exists>m. mg_reachable pair_ops (config_of pair_ops 1) m \<and> active_listeners m \<noteq> [] \<and> mg_workers m = [createWorker 0]"
proof -
  let ?m0 = "ListenerManagerImpl_new 1 :: (address \<times> socket_type) manager"
  obtain l where "addOrUpdateListenerInternal False pair_ops [] False ''a'' ?m0 = Inr (True, ?m0\<lparr>active_listeners := [l]\<rparr>)"
    by (simp add: addOrUpdateListenerInternal_def Let_def ListenerManagerImpl_new_def)
  then have "mg_reachable pair_ops (config_of pair_ops 1) (?m0\<lparr>active_listeners := [l]\<rparr>)"
    by (rule mg_add [OF mg_new])
  then show ?thesis by (intro exI conjI) (auto simp: ListenerManagerImpl_new_def)
qed

theorem listener_names_unique_witness:
  "\<exists>m. mg_reachable pair_ops (config_of pair_ops 1) m \<and> active_listeners m \<noteq> []
    \<and> distinct (map lst_name (active_listeners m))"
  using fresh_manager listener_names_unique by blast

theorem server_start_is_undefined_witness:
  "\<exists>m. mg_reachable pair_ops (config_of pair_ops 1) m \<and> startWorkers (config_of pair_ops 1) m = Inl Undefined_behaviour"
proof -
  obtain m where m: "mg_reachable pair_ops (config_of pair_ops 1) m" "active_listeners m \<noteq> []"
    "mg_workers m = [createWorker 0]"
    using fresh_manager by blast
  have "mg_workers m \<noteq> []" "list_all (\<lambda>w. wk_posts w = []) (mg_workers m)"
    using m(3) by (simp_all add: createWorker_def)
  then show ?thesis using server_start_is_undefined [OF m(1) _ m(2)] m(1) by blast
qed

end
