(* ===== verification/AtomicPtr.thy ===== *)
theory AtomicPtr
  imports Prelude
begin

text \<open>
  \<open>Thread::AtomicPtrArray\<close> (\<open>common/common/ThreadBase.h\<close>): \<open>get\<close> with its two checks, among threads, as a step
  relation: one step per atomic load or store, per locking and unlocking, and for the call of \<open>make_object\<close>,
  which returns a fresh object or null (\<open>None\<close>). The array has \<open>sz\<close> slots and one mutex. \<open>made\<close> records what
  \<open>make_object\<close> returned for each slot, \<open>got\<close> what the calls of \<open>get\<close> returned.

  Also the registry of main threads of \<open>ThreadBase.cpp\<close>. A thread is its identifier; the one that equals the
  process identifier is the test thread.
\<close>

section \<open>\<open>get\<close>, step by step\<close>

type_synonym thread = nat

datatype get_pc =
    Outside
  | First_check nat
  | Lock_wait nat
  | Second_check nat
  | Make_object nat
  | Store_ptr nat "nat option"
  | Unlock nat
  | Last_load nat

record ptr_array =
  slots :: "nat \<Rightarrow> nat option"
  mutex :: "thread option"
  get_at :: "thread \<Rightarrow> get_pc"
  made :: "(nat \<times> nat option) list"
  got :: "(nat \<times> nat option) list"

definition ptr_array_new :: ptr_array where
  "ptr_array_new = \<lparr>slots = (\<lambda>_. None), mutex = None, get_at = (\<lambda>_. Outside), made = [], got = []\<rparr>"

definition goto :: "thread \<Rightarrow> get_pc \<Rightarrow> ptr_array \<Rightarrow> ptr_array" where
  "goto t p a = a\<lparr>get_at := (get_at a)(t := p)\<rparr>"

inductive get_step :: "nat \<Rightarrow> ptr_array \<Rightarrow> ptr_array \<Rightarrow> bool" for sz where
  get_call: "get_at a t = Outside \<Longrightarrow> i < sz \<Longrightarrow> get_step sz a (goto t (First_check i) a)"
| get_first: "get_at a t = First_check i \<Longrightarrow>
    get_step sz a (goto t (if slots a i = None then Lock_wait i else Last_load i) a)"
| get_lock: "get_at a t = Lock_wait i \<Longrightarrow> mutex a = None \<Longrightarrow>
    get_step sz a (goto t (Second_check i) (a\<lparr>mutex := Some t\<rparr>))"
| get_second: "get_at a t = Second_check i \<Longrightarrow>
    get_step sz a (goto t (if slots a i = None then Make_object i else Unlock i) a)"
| get_make: "get_at a t = Make_object i \<Longrightarrow> (\<forall>q. p = Some q \<longrightarrow> (\<forall>j. (j, Some q) \<notin> set (made a))) \<Longrightarrow>
    get_step sz a (goto t (Store_ptr i p) (a\<lparr>made := made a @ [(i, p)]\<rparr>))"
| get_store: "get_at a t = Store_ptr i p \<Longrightarrow>
    get_step sz a (goto t (Unlock i) (a\<lparr>slots := (slots a)(i := p)\<rparr>))"
| get_unlock: "get_at a t = Unlock i \<Longrightarrow>
    get_step sz a (goto t (Last_load i) (a\<lparr>mutex := None\<rparr>))"
| get_return: "get_at a t = Last_load i \<Longrightarrow>
    get_step sz a (goto t Outside (a\<lparr>got := got a @ [(i, slots a i)]\<rparr>))"

inductive get_reachable :: "nat \<Rightarrow> ptr_array \<Rightarrow> bool" for sz where
  get_new: "get_reachable sz ptr_array_new"
| get_next: "get_reachable sz a \<Longrightarrow> get_step sz a a' \<Longrightarrow> get_reachable sz a'"

section \<open>The invariant\<close>

fun holds_mutex :: "get_pc \<Rightarrow> bool" where
  "holds_mutex (Second_check i) = True"
| "holds_mutex (Make_object i) = True"
| "holds_mutex (Store_ptr i p) = True"
| "holds_mutex (Unlock i) = True"
| "holds_mutex _ = False"

fun past_check :: "get_pc \<Rightarrow> nat option" where
  "past_check (Make_object i) = Some i"
| "past_check (Store_ptr i p) = Some i"
| "past_check _ = None"

fun settled :: "get_pc \<Rightarrow> nat option" where
  "settled (Unlock i) = Some i"
| "settled (Last_load i) = Some i"
| "settled _ = None"

text \<open>The objects made for a slot, nulls left out.\<close>

definition objects :: "ptr_array \<Rightarrow> nat \<Rightarrow> nat list" where
  "objects a i = List.map_filter (\<lambda>(j, p). if j = i then p else None) (made a)"

fun opt_list :: "'a option \<Rightarrow> 'a list" where
  "opt_list None = []"
| "opt_list (Some x) = [x]"

text \<open>The object that has been made for a slot and not yet stored, by the holder of the mutex.\<close>

fun held_object :: "get_pc \<Rightarrow> nat \<Rightarrow> nat list" where
  "held_object (Store_ptr j p) i = (if j = i then opt_list p else [])"
| "held_object _ i = []"

definition in_flight :: "ptr_array \<Rightarrow> nat \<Rightarrow> nat list" where
  "in_flight a i = (case mutex a of None \<Rightarrow> [] | Some h \<Rightarrow> held_object (get_at a h) i)"

definition get_inv :: "ptr_array \<Rightarrow> bool" where
  "get_inv a \<longleftrightarrow>
     (\<forall>t. holds_mutex (get_at a t) \<longrightarrow> mutex a = Some t)
     \<and> (\<forall>t i. past_check (get_at a t) = Some i \<longrightarrow> slots a i = None)
     \<and> (\<forall>i. objects a i = opt_list (slots a i) @ in_flight a i)
     \<and> (\<forall>t i. settled (get_at a t) = Some i \<longrightarrow> slots a i \<noteq> None \<or> (i, None) \<in> set (made a))
     \<and> (\<forall>t i p. get_at a t = Store_ptr i p \<longrightarrow> (i, p) \<in> set (made a))
     \<and> (\<forall>i p. (i, p) \<in> set (got a) \<longrightarrow> (case p of None \<Rightarrow> (i, None) \<in> set (made a) | Some q \<Rightarrow> slots a i = Some q))"

lemma get_invD:
  assumes "get_inv a"
  shows "holds_mutex (get_at a t) \<Longrightarrow> mutex a = Some t"
    and "past_check (get_at a t) = Some i \<Longrightarrow> slots a i = None"
    and "objects a i = opt_list (slots a i) @ in_flight a i"
    and "settled (get_at a t) = Some i \<Longrightarrow> slots a i \<noteq> None \<or> (i, None) \<in> set (made a)"
    and "get_at a t = Store_ptr i p \<Longrightarrow> (i, p) \<in> set (made a)"
    and "(i, None) \<in> set (got a) \<Longrightarrow> (i, None) \<in> set (made a)"
    and "(i, Some q) \<in> set (got a) \<Longrightarrow> slots a i = Some q"
  using assms by (fastforce simp: get_inv_def)+

lemma goto_simps [simp]:
  "slots (goto t pc' a) = slots a" "mutex (goto t pc' a) = mutex a" "made (goto t pc' a) = made a"
  "got (goto t pc' a) = got a" "get_at (goto t pc' a) = (get_at a)(t := pc')"
  by (simp_all add: goto_def)

lemma objects_simps [simp]:
  "objects (goto t pc' a) i = objects a i"
  "objects (a\<lparr>mutex := m\<rparr>) i = objects a i"
  "objects (a\<lparr>slots := s\<rparr>) i = objects a i"
  "objects (a\<lparr>got := g\<rparr>) i = objects a i"
  "objects (a\<lparr>made := made a @ [(j, p)]\<rparr>) i = objects a i @ (if j = i then opt_list p else [])"
  by (cases p; auto simp: objects_def map_filter_def goto_def)+

text \<open>A step of a thread that neither takes nor gives up the mutex, nor makes or stores an object.\<close>

lemma get_inv_goto:
  assumes inv: "get_inv a" and old: "held_object (get_at a t) = (\<lambda>_. [])" and new: "held_object pc' = (\<lambda>_. [])"
    and "holds_mutex pc' \<Longrightarrow> mutex a = Some t"
    and "\<And>i. past_check pc' = Some i \<Longrightarrow> slots a i = None"
    and "\<And>i. settled pc' = Some i \<Longrightarrow> slots a i \<noteq> None \<or> (i, None) \<in> set (made a)"
    and "\<And>i p. pc' \<noteq> Store_ptr i p"
  shows "get_inv (goto t pc' a)"
proof -
  have "in_flight (goto t pc' a) i = in_flight a i" for i
    using old new by (auto simp: in_flight_def split: option.splits)
  then show ?thesis
    using assms get_invD [OF inv] unfolding get_inv_def by (auto split: option.splits)
qed

lemma get_inv_got:
  assumes inv: "get_inv a" and at: "get_at a t = Last_load i"
  shows "get_inv (goto t Outside (a\<lparr>got := got a @ [(i, slots a i)]\<rparr>))"
proof -
  have "get_inv (a\<lparr>got := got a @ [(i, slots a i)]\<rparr>)"
    using inv get_invD(4) [OF inv, of t i] at
    unfolding get_inv_def in_flight_def by (auto split: option.splits)
  then show ?thesis by (rule get_inv_goto) (simp_all add: at fun_eq_iff)
qed

lemma get_inv_lock:
  assumes inv: "get_inv a" and at: "get_at a t = Lock_wait i" and free: "mutex a = None"
  shows "get_inv (goto t (Second_check i) (a\<lparr>mutex := Some t\<rparr>))"
proof -
  have nobody: "\<not> holds_mutex (get_at a u)" for u using get_invD(1) [OF inv, of u] free by auto
  have "in_flight (goto t (Second_check i) (a\<lparr>mutex := Some t\<rparr>)) j = in_flight a j" for j
    by (simp add: in_flight_def free)
  then show ?thesis
    using inv nobody unfolding get_inv_def by (auto split: option.splits)
qed

text \<open>No other thread is past the first check and holds the mutex.\<close>

lemma get_inv_alone:
  assumes "get_inv a" and "holds_mutex (get_at a t)" and "u \<noteq> t"
  shows "\<not> holds_mutex (get_at a u)" and "past_check (get_at a u) = None" and "get_at a u \<noteq> Store_ptr i p"
proof -
  show n: "\<not> holds_mutex (get_at a u)"
    using get_invD(1) [OF assms(1), of t] get_invD(1) [OF assms(1), of u] assms(2,3) by auto
  then show "past_check (get_at a u) = None" and "get_at a u \<noteq> Store_ptr i p"
    by (cases "get_at a u"; auto)+
qed

lemma get_inv_make:
  assumes inv: "get_inv a" and at: "get_at a t = Make_object i"
  shows "get_inv (goto t (Store_ptr i p) (a\<lparr>made := made a @ [(i, p)]\<rparr>))"
proof -
  have m: "mutex a = Some t" and none: "slots a i = None"
    using get_invD(1,2) [OF inv, of t] at by auto
  have fl: "in_flight a j = []" for j by (simp add: in_flight_def m at)
  have fl': "in_flight (goto t (Store_ptr i p) (a\<lparr>made := made a @ [(i, p)]\<rparr>)) j = (if i = j then opt_list p else [])" for j
    by (simp add: in_flight_def m)
  have obj: "objects a j = opt_list (slots a j)" for j using get_invD(3) [OF inv, of j] fl by simp
  show ?thesis
    unfolding get_inv_def
  proof (intro conjI allI impI)
    fix j
    show "objects (goto t (Store_ptr i p) (a\<lparr>made := made a @ [(i, p)]\<rparr>)) j
        = opt_list (slots (goto t (Store_ptr i p) (a\<lparr>made := made a @ [(i, p)]\<rparr>)) j)
          @ in_flight (goto t (Store_ptr i p) (a\<lparr>made := made a @ [(i, p)]\<rparr>)) j"
      by (simp add: fl' obj)
  qed (use inv none m in \<open>auto simp: get_inv_def split: if_splits option.splits\<close>)
qed

lemma get_inv_store:
  assumes inv: "get_inv a" and at: "get_at a t = Store_ptr i p"
  shows "get_inv (goto t (Unlock i) (a\<lparr>slots := (slots a)(i := p)\<rparr>))"
proof -
  have m: "mutex a = Some t" and none: "slots a i = None" and mk: "(i, p) \<in> set (made a)"
    using get_invD(1,2,5) [OF inv, of t] at by auto
  have fl: "in_flight a j = (if i = j then opt_list p else [])" for j by (simp add: in_flight_def m at)
  have fl': "in_flight (goto t (Unlock i) (a\<lparr>slots := (slots a)(i := p)\<rparr>)) j = []" for j
    by (simp add: in_flight_def m)
  have obj: "objects a j = opt_list (slots a j) @ (if i = j then opt_list p else [])" for j
    using get_invD(3) [OF inv, of j] fl by simp
  have others: "past_check (get_at a u) = None" if "u \<noteq> t" for u
    using get_inv_alone [OF inv _ that] at by simp
  show ?thesis
    unfolding get_inv_def
  proof (intro conjI allI impI)
    fix j
    show "objects (goto t (Unlock i) (a\<lparr>slots := (slots a)(i := p)\<rparr>)) j
        = opt_list (slots (goto t (Unlock i) (a\<lparr>slots := (slots a)(i := p)\<rparr>)) j)
          @ in_flight (goto t (Unlock i) (a\<lparr>slots := (slots a)(i := p)\<rparr>)) j"
      by (simp add: fl' obj none)
  next
    fix u j
    assume "past_check (get_at (goto t (Unlock i) (a\<lparr>slots := (slots a)(i := p)\<rparr>)) u) = Some j"
    then show "slots (goto t (Unlock i) (a\<lparr>slots := (slots a)(i := p)\<rparr>)) j = None"
      using others [of u] by (simp split: if_splits)
  next
    fix u j
    assume "settled (get_at (goto t (Unlock i) (a\<lparr>slots := (slots a)(i := p)\<rparr>)) u) = Some j"
    then show "slots (goto t (Unlock i) (a\<lparr>slots := (slots a)(i := p)\<rparr>)) j \<noteq> None
        \<or> (j, None) \<in> set (made (goto t (Unlock i) (a\<lparr>slots := (slots a)(i := p)\<rparr>)))"
      using get_invD(4) [OF inv, of u j] mk by (cases p) (auto split: if_splits)
  next
    fix j q
    assume "(j, q) \<in> set (got (goto t (Unlock i) (a\<lparr>slots := (slots a)(i := p)\<rparr>)))"
    then show "case q of None \<Rightarrow> (j, None) \<in> set (made (goto t (Unlock i) (a\<lparr>slots := (slots a)(i := p)\<rparr>)))
        | Some q \<Rightarrow> slots (goto t (Unlock i) (a\<lparr>slots := (slots a)(i := p)\<rparr>)) j = Some q"
      using get_invD(6,7) [OF inv] none by (fastforce split: option.splits)
  qed (use get_invD(1,5) [OF inv] m in \<open>auto split: if_splits\<close>)
qed

lemma get_inv_unlock:
  assumes inv: "get_inv a" and at: "get_at a t = Unlock i"
  shows "get_inv (goto t (Last_load i) (a\<lparr>mutex := None\<rparr>))"
proof -
  have m: "mutex a = Some t" using get_invD(1) [OF inv, of t] at by simp
  have others: "\<not> holds_mutex (get_at a u)" if "u \<noteq> t" for u
    using get_inv_alone [OF inv _ that] at by simp
  have fl: "in_flight a j = []" for j by (simp add: in_flight_def m at)
  have fl': "in_flight (goto t (Last_load i) (a\<lparr>mutex := None\<rparr>)) j = []" for j by (simp add: in_flight_def)
  have st: "slots a i \<noteq> None \<or> (i, None) \<in> set (made a)" using get_invD(4) [OF inv, of t i] at by simp
  show ?thesis
    unfolding get_inv_def
  proof (intro conjI allI impI)
    fix j
    show "objects (goto t (Last_load i) (a\<lparr>mutex := None\<rparr>)) j
        = opt_list (slots (goto t (Last_load i) (a\<lparr>mutex := None\<rparr>)) j)
          @ in_flight (goto t (Last_load i) (a\<lparr>mutex := None\<rparr>)) j"
      using get_invD(3) [OF inv, of j] by (simp add: fl fl')
  next
    fix u assume "holds_mutex (get_at (goto t (Last_load i) (a\<lparr>mutex := None\<rparr>)) u)"
    then show "mutex (goto t (Last_load i) (a\<lparr>mutex := None\<rparr>)) = Some u"
      using others [of u] by (simp split: if_splits)
  qed (use inv st in \<open>auto simp: get_inv_def split: if_splits option.splits\<close>)
qed

lemma get_step_inv:
  assumes "get_step sz a a'" and inv: "get_inv a"
  shows "get_inv a'"
  using assms(1)
proof cases
  case (get_call t i)
  show ?thesis unfolding get_call by (rule get_inv_goto [OF inv]) (simp_all add: get_call fun_eq_iff)
next
  case (get_first t i)
  show ?thesis unfolding get_first
    by (rule get_inv_goto [OF inv]) (auto simp: get_first fun_eq_iff split: if_splits)
next
  case (get_lock t i)
  show ?thesis unfolding get_lock by (rule get_inv_lock [OF inv get_lock(2,3)])
next
  case (get_second t i)
  have "mutex a = Some t" using get_invD(1) [OF inv, of t] get_second by simp
  then show ?thesis unfolding get_second
    by (intro get_inv_goto [OF inv]) (auto simp: get_second fun_eq_iff split: if_splits)
next
  case (get_make t i p)
  show ?thesis unfolding get_make by (rule get_inv_make [OF inv get_make(2)])
next
  case (get_store t i p)
  show ?thesis unfolding get_store by (rule get_inv_store [OF inv get_store(2)])
next
  case (get_unlock t i)
  show ?thesis unfolding get_unlock by (rule get_inv_unlock [OF inv get_unlock(2)])
next
  case (get_return t i)
  show ?thesis unfolding get_return by (rule get_inv_got [OF inv get_return(2)])
qed

lemma get_reachable_inv: "get_reachable sz a \<Longrightarrow> get_inv a"
proof (induction rule: get_reachable.induct)
  case get_new
  show ?case by (simp add: get_inv_def ptr_array_new_def objects_def in_flight_def map_filter_def)
qed (rule get_step_inv)

section \<open>The destructor\<close>

datatype alloc_mode = DoNotDelete | DeleteOnDestruct

text \<open>The objects \<open>~AtomicPtrArray\<close> deletes, in order.\<close>

definition destroy_array :: "alloc_mode \<Rightarrow> nat \<Rightarrow> ptr_array \<Rightarrow> nat list" where
  "destroy_array mode sz a = (if mode = DeleteOnDestruct then List.map_filter (slots a) [0..<sz] else [])"

lemma get_reachable_made:
  "get_reachable sz a \<Longrightarrow> (i, Some q) \<in> set (made a) \<Longrightarrow> (j, Some q) \<in> set (made a) \<Longrightarrow> i = j"
proof (induction rule: get_reachable.induct)
  case (get_next a a')
  from get_next.hyps(2) show ?case
    by cases (use get_next in auto)
qed (simp add: ptr_array_new_def)

lemma objects_made: "q \<in> set (objects a i) \<longleftrightarrow> (i, Some q) \<in> set (made a)"
  by (force simp: objects_def map_filter_def split: if_splits)

text \<open>When nobody is inside \<open>get\<close>, the destructor deletes every object that was made for a slot, each once.\<close>

lemma destroy_array_objects:
  assumes "get_reachable sz a" and "\<forall>t. get_at a t = Outside"
  shows "destroy_array DeleteOnDestruct sz a = concat (map (objects a) [0..<sz])"
    and "distinct (destroy_array DeleteOnDestruct sz a)"
proof -
  have "in_flight a i = []" for i using assms(2) by (simp add: in_flight_def split: option.splits)
  then have obj: "objects a i = opt_list (slots a i)" for i
    using get_invD(3) [OF get_reachable_inv [OF assms(1)], of i] by simp
  have "List.map_filter f xs = concat (map (\<lambda>i. opt_list (f i)) xs)" for f :: "nat \<Rightarrow> nat option" and xs
  proof (induction xs)
    case (Cons x xs)
    then show ?case by (cases "f x") (simp_all add: map_filter_def)
  qed (simp add: map_filter_def)
  then show "destroy_array DeleteOnDestruct sz a = concat (map (objects a) [0..<sz])"
    using ext [of "objects a", OF obj] by (simp add: destroy_array_def)
  have mk: "slots a i = Some q \<Longrightarrow> (i, Some q) \<in> set (made a)" for i q
    unfolding objects_made [symmetric] obj by simp
  have "inj_on (\<lambda>i. the (slots a i)) {i. slots a i \<noteq> None}"
  proof (rule inj_onI)
    fix i j
    assume "i \<in> {i. slots a i \<noteq> None}" and "j \<in> {i. slots a i \<noteq> None}" and "the (slots a i) = the (slots a j)"
    then obtain q where "slots a i = Some q" "slots a j = Some q" by auto
    then show "i = j" by (intro get_reachable_made [OF assms(1) mk mk])
  qed
  then show "distinct (destroy_array DeleteOnDestruct sz a)"
    by (auto simp: destroy_array_def map_filter_def distinct_map comp_def elim!: inj_on_subset)
qed

section \<open>Main threads\<close>

text \<open>\<open>ThreadIds\<close>: how often each thread has been registered as a main thread.\<close>

type_synonym thread_ids = "thread \<rightharpoonup> u32"

definition inMainThread :: "thread \<Rightarrow> thread_ids \<Rightarrow> bool" where
  "inMainThread t ids = (ids t \<noteq> None)"

definition isMainThreadActive :: "thread_ids \<Rightarrow> bool" where
  "isMainThreadActive ids = (ids \<noteq> Map.empty)"

definition registerMainThread :: "thread \<Rightarrow> thread_ids \<Rightarrow> thread_ids" where
  "registerMainThread t ids =
     (let ids1 = (if ids t = None then ids(t \<mapsto> 0) else ids) in ids1(t := map_option (\<lambda>n. n + 1) (ids1 t)))"

definition releaseMainThread :: "thread \<Rightarrow> thread_ids \<Rightarrow> thread_ids" where
  "releaseMainThread t ids =
     (case ids t of
        None \<Rightarrow> ids
      | Some n \<Rightarrow> if n - 1 = 0 then ids(t := None) else ids(t \<mapsto> n - 1))"

text \<open>How many \<open>SkipAsserts\<close> objects there are.\<close>

definition incSkipAsserts :: "u32 \<Rightarrow> u32" where "incSkipAsserts n = n + 1"

definition decSkipAsserts :: "u32 \<Rightarrow> u32" where "decSkipAsserts n = n - 1"

definition skipAsserts :: "u32 \<Rightarrow> bool" where "skipAsserts n = (0 < n)"

definition isMainOrTestThread :: "thread \<Rightarrow> thread \<Rightarrow> thread_ids \<Rightarrow> bool" where
  "isMainOrTestThread pid t ids = (inMainThread t ids \<or> pid = t)"

text \<open>Nested registrations: as long as the counter does not wrap, a release undoes a registration.\<close>

lemma release_register:
  assumes "ids t \<noteq> Some 0" and "ids t \<noteq> Some (- 1)"
  shows "releaseMainThread t (registerMainThread t ids) = ids"
  using assms by (cases "ids t") (auto simp: releaseMainThread_def registerMainThread_def Let_def add_eq_0_iff)

end
