(* ===== verification/Support.thy ===== *)
theory Support
  imports Prelude
begin

text \<open>
  \<open>Random::RandomGeneratorImpl\<close> (\<open>common/common/RandomGeneratorImpl.cpp\<close>) and the counters of
  \<open>ENVOY_BUG\<close> (\<open>common/common/Assert.cpp\<close>). OpenSSL's \<open>RAND_bytes\<close> is a parameter: what its \<open>k\<close>-th call in
  a thread writes into the buffer, \<open>None\<close> when it fails and writes nothing. Its result is not looked at (the
  assert is commented out).
\<close>

section \<open>Random numbers\<close>

definition prefetch :: nat where "prefetch = 256"

record random_state =
  rs_buffered :: "u64 list"
  rs_idx :: nat
  rs_fills :: nat

definition random_state_new :: random_state where
  "random_state_new = \<lparr>rs_buffered = replicate prefetch 0, rs_idx = prefetch, rs_fills = 0\<rparr>"

definition random_next :: "(nat \<Rightarrow> u64 list option) \<Rightarrow> random_state \<Rightarrow> u64 \<times> random_state" where
  "random_next rand_bytes s =
     (let s1 = (if rs_idx s \<ge> prefetch
                then \<lparr>rs_buffered = (case rand_bytes (rs_fills s) of None \<Rightarrow> rs_buffered s | Some b \<Rightarrow> b),
                      rs_idx = 0, rs_fills = Suc (rs_fills s)\<rparr>
                else s)
      in (rs_buffered s1 ! rs_idx s1, s1\<lparr>rs_idx := rs_idx s1 + 1\<rparr>))"

text \<open>The buffer after each fill: a failed one leaves the last.\<close>

fun random_block :: "(nat \<Rightarrow> u64 list option) \<Rightarrow> nat \<Rightarrow> u64 list" where
  "random_block rand_bytes 0 = (case rand_bytes 0 of None \<Rightarrow> replicate prefetch 0 | Some b \<Rightarrow> b)"
| "random_block rand_bytes (Suc k) = (case rand_bytes (Suc k) of None \<Rightarrow> random_block rand_bytes k | Some b \<Rightarrow> b)"

lemma random_after:
  "((\<lambda>s. snd (random_next rand_bytes s)) ^^ n) random_state_new =
     (if n = 0 then random_state_new
      else \<lparr>rs_buffered = random_block rand_bytes ((n - 1) div prefetch), rs_idx = (n - 1) mod prefetch + 1,
            rs_fills = Suc ((n - 1) div prefetch)\<rparr>)"
proof (induction n)
  case (Suc n)
  have pos: "0 < prefetch" by (simp add: prefetch_def)
  show ?case
  proof (cases n)
    case 0
    then show ?thesis using pos by (simp add: random_next_def random_state_new_def Let_def split: option.splits)
  next
    case (Suc m)
    have s: "((\<lambda>s. snd (random_next rand_bytes s)) ^^ n) random_state_new =
        \<lparr>rs_buffered = random_block rand_bytes (m div prefetch), rs_idx = m mod prefetch + 1, rs_fills = Suc (m div prefetch)\<rparr>"
      using Suc.IH Suc by simp
    show ?thesis
    proof (cases "Suc (m mod prefetch) = prefetch")
      case True
      then have "Suc m div prefetch = Suc (m div prefetch)" "Suc m mod prefetch = 0"
        by (simp_all add: mod_Suc div_Suc)
      then show ?thesis using s Suc True by (simp add: random_next_def Let_def split: option.splits)
    next
      case False
      then have "Suc m div prefetch = m div prefetch" "Suc m mod prefetch = Suc (m mod prefetch)"
        by (simp_all add: mod_Suc div_Suc)
      moreover have "m mod prefetch < prefetch" using pos by simp
      ultimately show ?thesis using s Suc False by (simp add: random_next_def Let_def)
    qed
  qed
qed simp

lemma random_nth:
  "fst (random_next rand_bytes (((\<lambda>s. snd (random_next rand_bytes s)) ^^ n) random_state_new))
     = random_block rand_bytes (n div prefetch) ! (n mod prefetch)"
proof (cases n)
  case 0
  then show ?thesis
    by (simp add: random_next_def random_state_new_def prefetch_def Let_def split: option.splits)
next
  case (Suc m)
  have pos: "0 < prefetch" by (simp add: prefetch_def)
  show ?thesis
  proof (cases "Suc (m mod prefetch) = prefetch")
    case True
    then have "n div prefetch = Suc (m div prefetch)" "n mod prefetch = 0"
      by (simp_all add: Suc mod_Suc div_Suc)
    then show ?thesis using True by (simp only: random_after) (simp add: Suc random_next_def Let_def split: option.splits)
  next
    case False
    moreover have "m mod prefetch < prefetch" using pos by simp
    moreover have "n div prefetch = m div prefetch" "n mod prefetch = Suc (m mod prefetch)"
      using False by (simp_all add: Suc mod_Suc div_Suc)
    ultimately show ?thesis by (simp only: random_after) (simp add: Suc random_next_def Let_def)
  qed
qed

section \<open>UUIDs\<close>

definition UUID_LENGTH :: nat where "UUID_LENGTH = 36"

definition hex_digits :: string where "hex_digits = ''0123456789abcdef''"

text \<open>The version and the variant, and the loops that write the digits of the bytes \<open>is\<close> at \<open>2 * i + off\<close>.\<close>

definition stamp :: "byte list \<Rightarrow> byte list" where
  "stamp rand = (let r1 = rand[6 := (rand ! 6 AND 0x0F) OR 0x40] in r1[8 := (r1 ! 8 AND 0x3F) OR 0x80])"

fun hex_loop :: "nat list \<Rightarrow> nat \<Rightarrow> byte list \<Rightarrow> string \<Rightarrow> string" where
  "hex_loop [] off rand uuid = uuid"
| "hex_loop (i # is) off rand uuid =
     (let d = rand ! i in
      hex_loop is off rand
        (uuid[2 * i + off := hex_digits ! unat (drop_bit 4 d), 2 * i + off + 1 := hex_digits ! unat (d AND 0x0F)]))"

definition uuid_format :: "byte list \<Rightarrow> string \<Rightarrow> string" where
  "uuid_format rand uuid0 =
     (let uuid1 = (hex_loop [0, 1, 2, 3] 0 rand uuid0)[8 := CHR ''-''];
          uuid2 = (hex_loop [4, 5] 1 rand uuid1)[13 := CHR ''-''];
          uuid3 = (hex_loop [6, 7] 2 rand uuid2)[18 := CHR ''-''];
          uuid4 = (hex_loop [8, 9] 3 rand uuid3)[23 := CHR ''-'']
      in hex_loop [10, 11, 12, 13, 14, 15] 4 rand uuid4)"

record uuid_state =
  us_buffered :: "byte list"
  us_idx :: nat
  us_fills :: nat

definition uuid_state_new :: uuid_state where
  "uuid_state_new = \<lparr>us_buffered = replicate 2048 0, us_idx = 2048, us_fills = 0\<rparr>"

text \<open>\<open>uuid()\<close>; the array on the stack starts as \<open>uuid0\<close>, the stamps are written into the buffer.\<close>

definition uuid_next :: "(nat \<Rightarrow> byte list option) \<Rightarrow> string \<Rightarrow> uuid_state \<Rightarrow> string \<times> uuid_state" where
  "uuid_next rand_bytes uuid0 s =
     (let s1 = (if us_idx s + 16 > 2048
                then \<lparr>us_buffered = (case rand_bytes (us_fills s) of None \<Rightarrow> us_buffered s | Some b \<Rightarrow> b),
                      us_idx = 0, us_fills = Suc (us_fills s)\<rparr>
                else s);
          rand = stamp (take 16 (drop (us_idx s1) (us_buffered s1)))
      in (uuid_format rand uuid0,
          s1\<lparr>us_buffered := blit (us_idx s1) rand (us_buffered s1), us_idx := us_idx s1 + 16\<rparr>))"

definition hex_byte :: "byte \<Rightarrow> string" where
  "hex_byte d = [hex_digits ! unat (drop_bit 4 d), hex_digits ! unat (d AND 0x0F)]"

definition hex_bytes :: "byte list \<Rightarrow> string" where
  "hex_bytes bs = concat (map hex_byte bs)"

lemma list16: "length xs = 16 \<Longrightarrow> \<exists>a b c d e f g h i j k l m n q r. xs = [a, b, c, d, e, f, g, h, i, j, k, l, m, n, q, r]"
  by (auto simp: numeral_eq_Suc length_Suc_conv)

lemma uuid_format_eq:
  assumes "length rand = 16" and "length uuid0 = UUID_LENGTH"
  shows "uuid_format rand uuid0 =
    hex_bytes (take 4 rand) @ ''-'' @ hex_bytes (take 2 (drop 4 rand)) @ ''-'' @ hex_bytes (take 2 (drop 6 rand))
    @ ''-'' @ hex_bytes (take 2 (drop 8 rand)) @ ''-'' @ hex_bytes (drop 10 rand)"
proof -
  obtain u where u: "uuid0 = u" by simp
  have "\<exists>a b c d e f g h i j k l m n q r s t v w x y z aa ab ac ad ae af ag ah ai aj ak al am.
      uuid0 = [a, b, c, d, e, f, g, h, i, j, k, l, m, n, q, r, s, t, v, w, x, y, z, aa, ab, ac, ad, ae, af, ag, ah,
        ai, aj, ak, al, am]"
    using assms(2) unfolding UUID_LENGTH_def by (auto simp: numeral_eq_Suc length_Suc_conv)
  then show ?thesis
    using list16 [OF assms(1)] by (elim exE) (simp add: uuid_format_def hex_bytes_def hex_byte_def)
qed

lemma length_hex_bytes: "length (hex_bytes bs) = 2 * length bs"
  by (induction bs) (simp_all add: hex_bytes_def hex_byte_def)

lemma byte_halves: "drop_bit 4 d = drop_bit 4 e \<Longrightarrow> d AND 0x0F = e AND (0x0F :: byte) \<Longrightarrow> d = e"
proof (rule bit_word_eqI)
  fix n
  assume hi: "drop_bit 4 d = drop_bit 4 e" and lo: "d AND 0x0F = e AND (0x0F :: byte)"
  have m: "(0x0F :: byte) = mask 4" by (simp add: mask_eq_exp_minus_1)
  assume "n < LENGTH(8)"
  show "bit d n = bit e n"
  proof (cases "n < 4")
    case True
    then show ?thesis
      using arg_cong [where f = "\<lambda>w. bit w n", OF lo] \<open>n < LENGTH(8)\<close> unfolding m by (simp add: bit_simps)
  next
    case False
    then show ?thesis
      using arg_cong [where f = "\<lambda>w. bit w (n - 4)", OF hi] by (simp add: bit_simps)
  qed
qed

lemma hex_digit_inj:
  assumes "hex_digits ! i = hex_digits ! j" and "i < 16" and "j < 16"
  shows "i = j"
proof -
  have "distinct hex_digits" "length hex_digits = 16" by (simp_all add: hex_digits_def)
  then show ?thesis using assms nth_eq_iff_index_eq by metis
qed

lemma halves_less: "unat (drop_bit 4 (d :: byte)) < 16" "unat ((d :: byte) AND 0x0F) < 16"
proof -
  have "unat d < 256" using unat_less_two_power [of d] by simp
  then show "unat (drop_bit 4 d) < 16" by (simp add: drop_bit_eq_div unat_div)
  have m: "(0x0F :: byte) = mask 4" by (simp add: mask_eq_exp_minus_1)
  show "unat (d AND 0x0F) < 16"
    unfolding m take_bit_eq_mask [symmetric] by (simp add: unsigned_take_bit_eq take_bit_eq_mod unat_mod)
qed

lemma hex_byte_inj: "hex_byte d = hex_byte e \<longleftrightarrow> d = e"
proof
  assume h: "hex_byte d = hex_byte e"
  then have "unat (drop_bit 4 d) = unat (drop_bit 4 e)" "unat (d AND 0x0F) = unat (e AND 0x0F)"
    using hex_digit_inj [OF _ halves_less(1) halves_less(1)] hex_digit_inj [OF _ halves_less(2) halves_less(2)]
    unfolding hex_byte_def by blast+
  then show "d = e" unfolding word_unat_eq_iff [symmetric] by (rule byte_halves)
qed simp

lemma hex_bytes_inj: "hex_bytes as = hex_bytes bs \<longleftrightarrow> as = bs"
proof (induction as arbitrary: bs)
  case Nil
  then show ?case by (cases bs) (simp_all add: hex_bytes_def hex_byte_def)
next
  case (Cons a as)
  show ?case
  proof (cases bs)
    case Nil
    then show ?thesis by (simp add: hex_bytes_def hex_byte_def)
  next
    case (Cons b bs')
    have "hex_bytes (a # as) = hex_bytes bs \<longleftrightarrow> hex_byte a = hex_byte b \<and> hex_bytes as = hex_bytes bs'"
      by (auto simp: Cons hex_bytes_def hex_byte_def)
    then show ?thesis using Cons.IH by (simp add: Cons hex_byte_inj)
  qed
qed

text \<open>Byte 6 of a stamped block starts with the digit 4, byte 8 with one of 8, 9, a and b.\<close>

lemma stamp_version: "drop_bit 4 ((d AND 0x0F) OR (0x40 :: byte)) = 4"
proof -
  have m: "(0x0F :: byte) = mask 4" "(0x40 :: byte) = push_bit 6 1" "(4 :: byte) = push_bit 2 1"
    by (simp_all add: mask_eq_exp_minus_1)
  show ?thesis unfolding m by (rule bit_word_eqI) (auto simp: bit_simps)
qed

lemma stamp_variant: "unat (drop_bit 4 ((d AND 0x3F) OR (0x80 :: byte))) \<in> {8, 9, 10, 11}"
proof -
  have m: "(0x3F :: byte) = mask 6" "(0x80 :: byte) = push_bit 7 1" "(8 :: byte) = push_bit 3 1"
    by (simp_all add: mask_eq_exp_minus_1)
  have "drop_bit 4 ((d AND 0x3F) OR 0x80) = take_bit 2 (drop_bit 4 d) OR 8"
    unfolding m by (rule bit_word_eqI) (auto simp: bit_simps)
  moreover have "unat (take_bit 2 (drop_bit 4 d)) < 4"
    by (simp add: unsigned_take_bit_eq take_bit_eq_mod unat_mod)
  then have "unat (take_bit 2 (drop_bit 4 d)) \<in> {0, 1, 2, 3}" by auto
  then have "take_bit 2 (drop_bit 4 d) \<in> {0, 1, 2, 3}" by (simp add: word_unat_eq_iff)
  ultimately show ?thesis by auto
qed

lemma length_stamp [simp]: "length (stamp rand) = length rand"
  by (simp add: stamp_def Let_def)

lemma stamp_stamp:
  assumes "length rand = 16"
  shows "stamp (stamp rand) = stamp rand"
proof -
  have "((d AND 0x0F) OR 0x40) AND 0x0F OR 0x40 = (d AND 0x0F) OR (0x40 :: byte)"
    and "((d AND 0x3F) OR 0x80) AND 0x3F OR 0x80 = (d AND 0x3F) OR (0x80 :: byte)" for d
    by (rule bit_word_eqI; auto simp: bit_simps)+
  then show ?thesis using list16 [OF assms] by (elim exE) (simp add: stamp_def Let_def)
qed

section \<open>Bug counters\<close>

type_synonym bug_counters = "string \<rightharpoonup> u64"

text \<open>\<open>EnvoyBugState::inc\<close> and \<open>shouldLogAndInvoke\<close>.\<close>

definition bug_inc :: "string \<Rightarrow> bug_counters \<Rightarrow> u64 \<times> bug_counters" where
  "bug_inc name cs =
     (let n = (case cs name of None \<Rightarrow> 0 | Some n \<Rightarrow> n) + 1 in (n, cs(name \<mapsto> n)))"

definition bug_clear :: "bug_counters \<Rightarrow> bug_counters" where
  "bug_clear cs = Map.empty"

definition shouldLogAndInvoke :: "string \<Rightarrow> bug_counters \<Rightarrow> bool \<times> bug_counters" where
  "shouldLogAndInvoke name cs =
     (let (counter_value, cs1) = bug_inc name cs in (counter_value AND (counter_value - 1) = 0, cs1))"

text \<open>A chain of registered actions, the last registered first: each is run on a failure, in that order.\<close>

fun invoke_chain :: "('a \<Rightarrow> 's \<Rightarrow> 's) \<Rightarrow> 'a list \<Rightarrow> 's \<Rightarrow> 's" where
  "invoke_chain act [] s = s"
| "invoke_chain act (a # as) s = invoke_chain act as (act a s)"

definition register_action :: "'a \<Rightarrow> 'a list \<Rightarrow> 'a list" where
  "register_action a as = a # as"

text \<open>Registering an action on bugs also clears the counters.\<close>

definition register_bug_action :: "'a \<Rightarrow> 'a list \<times> bug_counters \<Rightarrow> 'a list \<times> bug_counters" where
  "register_bug_action a = (\<lambda>(as, cs). (register_action a as, bug_clear cs))"

text \<open>The destructor of a registration asserts that it is the last one.\<close>

definition unregister_action :: "'a \<Rightarrow> 'a list \<Rightarrow> 'a list result" where
  "unregister_action a as = assert_then (as \<noteq> [] \<and> hd as = a) (Inr (tl as))"

definition unregister_bug_action :: "'a \<Rightarrow> 'a list \<times> bug_counters \<Rightarrow> ('a list \<times> bug_counters) result" where
  "unregister_bug_action a = (\<lambda>(as, cs).
     assert_then (as \<noteq> [] \<and> hd as = a) (Inr (tl as, cs)))"

definition invoke_bug_action :: "('a \<Rightarrow> 's \<Rightarrow> 's) \<Rightarrow> 'a list \<times> bug_counters \<Rightarrow> 's \<Rightarrow> 's" where
  "invoke_bug_action act = (\<lambda>(as, cs) s. if as \<noteq> [] then invoke_chain act as s else s)"

text \<open>A registration that comes and goes leaves the actions as they were, but the counters cleared.\<close>

lemma bug_registration_scope:
  "unregister_bug_action a (register_bug_action a (as, cs)) = Inr (as, Map.empty)"
  "invoke_bug_action act (register_bug_action a (as, cs)) s = invoke_chain act as (act a s)"
  by (simp_all add: unregister_bug_action_def register_bug_action_def register_action_def bug_clear_def
      invoke_bug_action_def)

lemma unregister_register: "unregister_action a (register_action a as) = Inr as"
  by (simp add: unregister_action_def register_action_def)

lemma and_pred_even: "(2 * m) AND (2 * m - 1) = 2 * (m AND (m - 1))" if "0 < m" for m :: nat
  using that and_rec [of "2 * m" "2 * m - 1"] by (cases m) simp_all

lemma and_pred_power: "0 < n \<Longrightarrow> n AND (n - 1) = 0 \<longleftrightarrow> (\<exists>k. n = 2 ^ k)" for n :: nat
proof (induction n rule: less_induct)
  case (less n)
  show ?case
  proof (cases "even n")
    case True
    then obtain m where m: "n = 2 * m" by auto
    then have pos: "0 < m" "m < n" using less.prems by auto
    have "n AND (n - 1) = 0 \<longleftrightarrow> m AND (m - 1) = 0" using and_pred_even [OF pos(1)] by (simp add: m)
    also have "\<dots> \<longleftrightarrow> (\<exists>k. m = 2 ^ k)" by (rule less.IH [OF pos(2,1)])
    also have "\<dots> \<longleftrightarrow> (\<exists>k. n = 2 ^ k)"
    proof
      assume "\<exists>k. n = 2 ^ k"
      then obtain k where k: "2 * m = 2 ^ k" using m by auto
      then show "\<exists>k. m = 2 ^ k" using m True less.prems by (cases k) auto
    qed (auto simp: m intro: exI [of _ "Suc k" for k])
    finally show ?thesis .
  next
    case False
    then obtain m where m: "n = 2 * m + 1" by (elim oddE)
    have "n AND (n - 1) = 2 * m" using and_rec [of n "n - 1"] by (simp add: m)
    moreover have "(\<exists>k. n = 2 ^ k) \<longleftrightarrow> m = 0"
    proof
      assume "\<exists>k. n = 2 ^ k"
      then obtain k where k: "n = 2 ^ k" by auto
      then have "k = 0" using False by (cases k) auto
      then show "m = 0" using k m by simp
    qed (simp add: m exI [of _ 0])
    ultimately show ?thesis by simp
  qed
qed

end
