(* ===== verification/Lifecycle.thy ===== *)
theory Lifecycle
  imports Prelude
begin

text \<open>
  The lifecycle callbacks of \<open>Server\<close> (\<open>server/Server.cpp\<close>) with the \<open>Cleanup\<close> they share
  (\<open>common/common/Cleanup.h\<close>), and the list elements of \<open>Cleanup.h\<close> that erase themselves.

  \<open>notifyCallbacksForStage\<close> puts the posting of the completion callback into a \<open>Cleanup\<close> behind a
  \<open>shared_ptr\<close>; every completable callback is given a function that holds a copy of the pointer. What a callback
  does with its function (copying it, dropping copies, now or after the call) is a list of \<open>guard_op\<close>s.
\<close>

section \<open>Cleanup\<close>

text \<open>The function of a \<open>Cleanup\<close> is the list of the actions it runs.\<close>

record 'a cleanup =
  cl_f :: "'a list"
  cl_cancelled :: bool

definition cleanup_new :: "'a list \<Rightarrow> 'a cleanup" where
  "cleanup_new f = \<lparr>cl_f = f, cl_cancelled = False\<rparr>"

definition cleanup_cancel :: "'a cleanup \<Rightarrow> 'a cleanup" where
  "cleanup_cancel c = c\<lparr>cl_cancelled := True, cl_f := []\<rparr>"

definition cleanup_destroy :: "'a cleanup \<Rightarrow> 'a list" where
  "cleanup_destroy c = cl_f c"

section \<open>The shared guard\<close>

datatype guard_op = Copy_guard | Drop_guard

record 'a guard =
  guard_refs :: nat
  guard_cleanup :: "'a cleanup"
  guard_ran :: "'a list"

text \<open>Copying or dropping a pointer that no longer exists is undefined.\<close>

definition guard_step :: "guard_op \<Rightarrow> 'a guard \<Rightarrow> 'a guard result" where
  "guard_step op g =
     (if guard_refs g = 0 then Inl Undefined_behaviour
      else case op of
        Copy_guard \<Rightarrow> Inr (g\<lparr>guard_refs := guard_refs g + 1\<rparr>)
      | Drop_guard \<Rightarrow>
          let g1 = g\<lparr>guard_refs := guard_refs g - 1\<rparr>
          in Inr (if guard_refs g1 = 0 then g1\<lparr>guard_ran := guard_ran g1 @ cleanup_destroy (guard_cleanup g1)\<rparr> else g1))"

fun guard_steps :: "guard_op list \<Rightarrow> 'a guard \<Rightarrow> 'a guard result" where
  "guard_steps [] g = Inr g"
| "guard_steps (op # ops) g = res_bind (guard_step op g) (guard_steps ops)"

definition guard_new :: "'a cleanup \<Rightarrow> 'a guard" where
  "guard_new c = \<lparr>guard_refs = 1, guard_cleanup = c, guard_ran = []\<rparr>"

text \<open>Until the last pointer is dropped nothing runs; then the cleanup runs, once.\<close>

lemma guard_steps_ran:
  assumes "guard_steps ops g = Inr g'" and "guard_ran g = (if guard_refs g = 0 then cl_f (guard_cleanup g) else [])"
  shows "guard_ran g' = (if guard_refs g' = 0 then cl_f (guard_cleanup g) else []) \<and> guard_cleanup g' = guard_cleanup g"
  using assms
proof (induction ops arbitrary: g)
  case (Cons op ops)
  from Cons.prems(1) obtain g1 where g1: "guard_step op g = Inr g1" "guard_steps ops g1 = Inr g'"
    by (auto simp: res_bind_Inr_iff)
  have "guard_ran g1 = (if guard_refs g1 = 0 then cl_f (guard_cleanup g1) else []) \<and> guard_cleanup g1 = guard_cleanup g"
    using g1(1) Cons.prems(2)
    by (auto simp: guard_step_def cleanup_destroy_def Let_def split: if_splits guard_op.splits)
  then show ?case using Cons.IH [OF g1(2)] by simp
qed simp

text \<open>How the number of pointers moves.\<close>

fun drops :: "guard_op list \<Rightarrow> nat" where
  "drops [] = 0"
| "drops (Drop_guard # ops) = Suc (drops ops)"
| "drops (Copy_guard # ops) = drops ops"

lemma guard_steps_append: "guard_steps (xs @ ys) g = res_bind (guard_steps xs g) (guard_steps ys)"
  by (induction xs arbitrary: g) (auto simp: res_bind_def split: sum.splits)

lemma guard_steps_refs:
  "guard_steps ops g = Inr g' \<Longrightarrow> guard_refs g' + drops ops = guard_refs g + (length ops - drops ops)
    \<and> drops ops \<le> length ops"
proof (induction ops arbitrary: g)
  case (Cons op ops)
  then show ?case
    by (cases op) (fastforce simp: res_bind_Inr_iff guard_step_def Let_def split: if_splits)+
qed simp

text \<open>A callback drops only copies it holds: at no point more of them than it has made.\<close>

definition own_copies_only :: "guard_op list \<Rightarrow> bool" where
  "own_copies_only ops \<longleftrightarrow> (\<forall>k \<le> length ops. 2 * drops (take k ops) \<le> k)"

lemma drops_append [simp]: "drops (xs @ ys) = drops xs + drops ys"
  by (induction xs rule: drops.induct) simp_all

lemma own_copies_append:
  assumes "own_copies_only xs" and "own_copies_only ys"
  shows "own_copies_only (xs @ ys)"
  unfolding own_copies_only_def
proof (intro allI impI)
  fix k assume k: "k \<le> length (xs @ ys)"
  have "2 * drops (take k xs) \<le> min k (length xs)"
    using assms(1) by (cases "k \<le> length xs") (auto simp: own_copies_only_def min_def)
  moreover have "2 * drops (take (k - length xs) ys) \<le> k - length xs"
    using assms(2) k by (simp add: own_copies_only_def)
  ultimately show "2 * drops (take k (xs @ ys)) \<le> k" by (simp add: min_def split: if_splits)
qed

lemma own_copies_block:
  assumes "own_copies_only xs"
  shows "own_copies_only (Copy_guard # xs @ [Drop_guard])"
  unfolding own_copies_only_def
proof (intro allI impI)
  fix k assume k: "k \<le> length (Copy_guard # xs @ [Drop_guard])"
  have all: "2 * drops xs \<le> length xs" using assms by (auto simp: own_copies_only_def)
  show "2 * drops (take k (Copy_guard # xs @ [Drop_guard])) \<le> k"
  proof (cases k)
    case (Suc j)
    show ?thesis
    proof (cases "j \<le> length xs")
      case True
      then have "2 * drops (take j xs) \<le> j" using assms by (simp add: own_copies_only_def)
      then show ?thesis using True by (simp add: Suc)
    next
      case False
      then have "j = Suc (length xs)" using k Suc by simp
      then show ?thesis using all by (simp add: Suc)
    qed
  qed simp
qed

lemma guard_steps_total:
  "\<forall>k < length ops. 2 * drops (take k ops) < guard_refs g + k \<Longrightarrow> \<exists>g'. guard_steps ops g = Inr g'"
proof (induction ops arbitrary: g)
  case (Cons op ops)
  have pos: "0 < guard_refs g" using Cons.prems by force
  then obtain g1 where g1: "guard_step op g = Inr g1"
    and refs: "guard_refs g1 = (if op = Copy_guard then guard_refs g + 1 else guard_refs g - 1)"
    by (cases op) (auto simp: guard_step_def Let_def)
  have "2 * drops (take k ops) < guard_refs g1 + k" if "k < length ops" for k
    using Cons.prems [rule_format, of "Suc k"] that pos by (cases op) (simp_all add: refs)
  then show ?case using Cons.IH [of g1] g1 by simp
qed simp

section \<open>Lifecycle callbacks\<close>

datatype stage = Startup | PostInit | ShutdownExit

datatype 'cb lifecycle_event =
    Ran_callback 'cb
  | Ran_with_completion 'cb
  | Posted_completion

text \<open>The lists of callbacks of \<open>Server\<close>; \<open>hold cb\<close> is what a completable callback does with its function.\<close>

record 'cb lifecycle =
  stage_callbacks :: "stage \<rightharpoonup> 'cb list"
  stage_completable_callbacks :: "stage \<rightharpoonup> 'cb list"
  server_workers_started :: bool

definition lifecycle_new :: "'cb lifecycle" where
  "lifecycle_new = \<lparr>stage_callbacks = Map.empty, stage_completable_callbacks = Map.empty, server_workers_started = False\<rparr>"

text \<open>Both overloads of \<open>registerCallback\<close> return a null handle; their bodies are commented out.\<close>

definition registerCallback :: "stage \<Rightarrow> 'cb \<Rightarrow> 'cb lifecycle \<Rightarrow> nat option \<times> 'cb lifecycle" where
  "registerCallback st cb l = (None, l)"

definition registerCallbackWithCompletion :: "stage \<Rightarrow> 'cb \<Rightarrow> 'cb lifecycle \<Rightarrow> nat option \<times> 'cb lifecycle" where
  "registerCallbackWithCompletion st cb l = (None, l)"

text \<open>\<open>callback([cb_guard] {})\<close>: the function is made, the callback runs, the function goes.\<close>

fun run_completable :: "('cb \<Rightarrow> guard_op list) \<Rightarrow> 'cb list \<Rightarrow> 'cb lifecycle_event list \<times> 'cb lifecycle_event guard \<Rightarrow>
    ('cb lifecycle_event list \<times> 'cb lifecycle_event guard) result" where
  "run_completable hold [] s = Inr s"
| "run_completable hold (cb # cbs) s =
     (case s of (log, g) \<Rightarrow>
       res_bind (guard_steps (Copy_guard # hold cb @ [Drop_guard]) g)
         (\<lambda>g1. run_completable hold cbs (log @ [Ran_with_completion cb], g1)))"

definition notifyCallbacksForStage ::
  "('cb \<Rightarrow> guard_op list) \<Rightarrow> stage \<Rightarrow> 'cb lifecycle \<Rightarrow> ('cb lifecycle_event list \<times> 'cb lifecycle_event guard) result" where
  "notifyCallbacksForStage hold st l =
     (let log = (case stage_callbacks l st of None \<Rightarrow> [] | Some cbs \<Rightarrow> map Ran_callback cbs);
          g = guard_new (cleanup_new [Posted_completion])
      in res_bind
           (if server_workers_started l
            then (case stage_completable_callbacks l st of None \<Rightarrow> Inr (log, g) | Some cbs \<Rightarrow> run_completable hold cbs (log, g))
            else Inr (log, g))
           (\<lambda>(log, g). res_bind (guard_step Drop_guard g) (\<lambda>g. Inr (log, g))))"

text \<open>The operations of the callbacks on the guard, in order.\<close>

abbreviation holds :: "('cb \<Rightarrow> guard_op list) \<Rightarrow> 'cb list \<Rightarrow> guard_op list" where
  "holds hold cbs \<equiv> concat (map (\<lambda>cb. Copy_guard # hold cb @ [Drop_guard]) cbs)"

lemma run_completable_Inr:
  "run_completable hold cbs (log, g) = Inr (log', g') \<longleftrightarrow>
     log' = log @ map Ran_with_completion cbs \<and> guard_steps (holds hold cbs) g = Inr g'"
proof (induction cbs arbitrary: log g)
  case (Cons cb cbs)
  have "guard_steps (holds hold (cb # cbs)) g
      = res_bind (guard_steps (Copy_guard # hold cb @ [Drop_guard]) g) (guard_steps (holds hold cbs))"
    using guard_steps_append [of "Copy_guard # hold cb @ [Drop_guard]" "holds hold cbs" g] by simp
  then show ?case
    using Cons.IH by (auto simp: res_bind_Inr_iff simp del: guard_steps.simps)
qed auto

definition plain_callbacks :: "stage \<Rightarrow> 'cb lifecycle \<Rightarrow> 'cb list" where
  "plain_callbacks st l = (case stage_callbacks l st of None \<Rightarrow> [] | Some cbs \<Rightarrow> cbs)"

definition completable_callbacks :: "stage \<Rightarrow> 'cb lifecycle \<Rightarrow> 'cb list" where
  "completable_callbacks st l =
     (if server_workers_started l then (case stage_completable_callbacks l st of None \<Rightarrow> [] | Some cbs \<Rightarrow> cbs) else [])"

definition all_callbacks :: "stage \<Rightarrow> 'cb lifecycle \<Rightarrow> 'cb lifecycle_event list" where
  "all_callbacks st l = map Ran_callback (plain_callbacks st l) @ map Ran_with_completion (completable_callbacks st l)"

lemma notify_eq:
  "notifyCallbacksForStage hold st l =
     res_bind (run_completable hold (completable_callbacks st l)
         (map Ran_callback (plain_callbacks st l), guard_new (cleanup_new [Posted_completion])))
       (\<lambda>(log, g). res_bind (guard_step Drop_guard g) (\<lambda>g. Inr (log, g)))"
  by (simp add: notifyCallbacksForStage_def plain_callbacks_def completable_callbacks_def split: option.splits)

lemma notify_Inr:
  assumes "notifyCallbacksForStage hold st l = Inr (log, g)"
  shows "log = all_callbacks st l"
    and "\<exists>ops. guard_steps ops (guard_new (cleanup_new [Posted_completion])) = Inr g"
proof -
  let ?g = "guard_new (cleanup_new [Posted_completion])" and ?cbs = "completable_callbacks st l"
  obtain g1 where log: "log = all_callbacks st l" and g1: "guard_steps (holds hold ?cbs) ?g = Inr g1"
    and g: "guard_step Drop_guard g1 = Inr g"
    using assms by (auto simp: notify_eq res_bind_Inr_iff run_completable_Inr all_callbacks_def)
  show "log = all_callbacks st l" by (rule log)
  have "guard_steps (holds hold ?cbs @ [Drop_guard]) ?g = Inr g"
    using g1 g by (simp add: guard_steps_append res_bind_def)
  then show "\<exists>ops. guard_steps ops ?g = Inr g" by blast
qed

text \<open>It returns when the callbacks drop only what they hold.\<close>

lemma notify_returns:
  assumes "\<forall>cb. own_copies_only (hold cb)"
  shows "\<exists>g. notifyCallbacksForStage hold st l = Inr (all_callbacks st l, g)"
proof -
  let ?g = "guard_new (cleanup_new [Posted_completion])" and ?ops = "holds hold (completable_callbacks st l)"
  have own: "own_copies_only (holds hold cbs)" for cbs
  proof (induction cbs)
    case (Cons cb cbs)
    have "own_copies_only ((Copy_guard # hold cb @ [Drop_guard]) @ holds hold cbs)"
      by (rule own_copies_append [OF own_copies_block [OF assms [rule_format]] Cons.IH])
    then show ?case by simp
  qed (simp add: own_copies_only_def)
  have "\<exists>g. guard_steps (?ops @ [Drop_guard]) ?g = Inr g"
  proof (rule guard_steps_total, intro allI impI)
    fix k assume "k < length (?ops @ [Drop_guard])"
    then have "2 * drops (take k ?ops) \<le> k" using own [of "completable_callbacks st l"]
      by (simp add: own_copies_only_def del: length_concat)
    then show "2 * drops (take k (?ops @ [Drop_guard])) < guard_refs ?g + k"
      using \<open>k < length (?ops @ [Drop_guard])\<close> by (simp add: guard_new_def del: length_concat)
  qed
  then show ?thesis
    by (fastforce simp: notify_eq guard_steps_append res_bind_Inr_iff run_completable_Inr all_callbacks_def)
qed

section \<open>Elements that erase themselves\<close>

text \<open>A \<open>std::list\<close> is the list of its nodes; a node is known by its identity, as by an iterator.\<close>

type_synonym 'v nodes = "(nat \<times> 'v) list"

record raii_element =
  raii_it :: nat
  raii_cancelled :: bool

definition raii_list_new :: "nat \<Rightarrow> 'v \<Rightarrow> 'v nodes \<Rightarrow> raii_element \<times> 'v nodes" where
  "raii_list_new it v xs = (\<lparr>raii_it = it, raii_cancelled = False\<rparr>, (it, v) # xs)"

definition erase_node :: "nat \<Rightarrow> 'v nodes \<Rightarrow> 'v nodes result" where
  "erase_node it xs = (if it \<in> set (map fst xs) then Inr (filter (\<lambda>x. fst x \<noteq> it) xs) else Inl Undefined_behaviour)"

definition raii_cancel :: "raii_element \<Rightarrow> raii_element" where
  "raii_cancel e = e\<lparr>raii_cancelled := True\<rparr>"

definition raii_list_erase :: "raii_element \<Rightarrow> 'v nodes \<Rightarrow> (raii_element \<times> 'v nodes) result" where
  "raii_list_erase e xs = res_bind (erase_node (raii_it e) xs) (\<lambda>ys. Inr (e\<lparr>raii_cancelled := True\<rparr>, ys))"

definition raii_list_destroy :: "raii_element \<Rightarrow> 'v nodes \<Rightarrow> 'v nodes result" where
  "raii_list_destroy e xs =
     (if raii_cancelled e then Inr xs else res_bind (raii_list_erase e xs) (\<lambda>(e, ys). Inr ys))"

record 'k raii_map_element =
  rme_key :: 'k
  rme_it :: nat
  rme_cancelled :: bool

definition raii_map_new :: "'k \<Rightarrow> nat \<Rightarrow> 'v \<Rightarrow> ('k \<rightharpoonup> 'v nodes) \<Rightarrow> 'k raii_map_element \<times> ('k \<rightharpoonup> 'v nodes)" where
  "raii_map_new k it v m =
     (let m1 = (if m k = None then m(k \<mapsto> []) else m)
      in (\<lparr>rme_key = k, rme_it = it, rme_cancelled = False\<rparr>, m1(k \<mapsto> (it, v) # the (m1 k))))"

definition raii_map_cancel :: "'k raii_map_element \<Rightarrow> 'k raii_map_element" where
  "raii_map_cancel e = e\<lparr>rme_cancelled := True\<rparr>"

definition raii_map_erase :: "'k raii_map_element \<Rightarrow> ('k \<rightharpoonup> 'v nodes) \<Rightarrow> ('k \<rightharpoonup> 'v nodes) result" where
  "raii_map_erase e m =
     (case m (rme_key e) of
        None \<Rightarrow> Inl Assert_failed
      | Some xs \<Rightarrow> res_bind (erase_node (rme_it e) xs)
          (\<lambda>ys. Inr (if ys = [] then m(rme_key e := None) else m(rme_key e \<mapsto> ys))))"

definition raii_map_destroy :: "'k raii_map_element \<Rightarrow> ('k \<rightharpoonup> 'v nodes) \<Rightarrow> ('k \<rightharpoonup> 'v nodes) result" where
  "raii_map_destroy e m = (if rme_cancelled e then Inr m else raii_map_erase e m)"

text \<open>The nodes of a key, none when the key is absent; no key has an empty list.\<close>

definition nodes_at :: "('k \<rightharpoonup> 'v nodes) \<Rightarrow> 'k \<Rightarrow> 'v nodes" where
  "nodes_at m k = (case m k of None \<Rightarrow> [] | Some xs \<Rightarrow> xs)"

definition no_empty :: "('k \<rightharpoonup> 'v nodes) \<Rightarrow> bool" where
  "no_empty m \<longleftrightarrow> (\<forall>k. m k \<noteq> Some [])"

lemma raii_map_new_nodes:
  "nodes_at (snd (raii_map_new k it v m)) j = (if j = k then (it, v) # nodes_at m k else nodes_at m j)"
  "no_empty m \<Longrightarrow> no_empty (snd (raii_map_new k it v m))"
  by (auto simp: raii_map_new_def nodes_at_def no_empty_def Let_def split: option.splits)

text \<open>The end of an element takes out its own node and nothing else, the key with its last node.\<close>

lemma raii_map_destroy_nodes:
  assumes "\<not> rme_cancelled e" and "rme_it e \<in> set (map fst (nodes_at m (rme_key e)))" and "no_empty m"
  obtains m' where "raii_map_destroy e m = Inr m'" and "no_empty m'"
    and "\<And>k. nodes_at m' k = (if k = rme_key e then filter (\<lambda>x. fst x \<noteq> rme_it e) (nodes_at m k) else nodes_at m k)"
proof -
  obtain xs where xs: "m (rme_key e) = Some xs" "rme_it e \<in> set (map fst xs)"
    using assms(2) by (cases "m (rme_key e)") (auto simp: nodes_at_def)
  show ?thesis
    by (rule that [of "let ys = filter (\<lambda>x. fst x \<noteq> rme_it e) xs in if ys = [] then m(rme_key e := None) else m(rme_key e \<mapsto> ys)"])
      (use assms(1,3) xs in \<open>auto simp: raii_map_destroy_def raii_map_erase_def erase_node_def nodes_at_def no_empty_def Let_def split: if_splits\<close>)
qed

end
