(* ===== verification/SocketOptions.thy ===== *)
theory SocketOptions
  imports NetAddress BufferInts
begin

text \<open>
  \<open>SocketOptionImpl\<close> (\<open>common/network/SocketOptionImpl.cpp\<close>), \<open>SocketOptionName\<close> and \<open>appendOptions\<close>
  (\<open>include/network/Socket.h\<close>) and \<open>pushScalarToByteVector\<close> (\<open>common/common/ScalarToByteVector.h\<close>). An
  \<open>int\<close> is its 32 bits. The socket is a parameter: what its \<open>setSocketOption\<close> returns and does.
\<close>

section \<open>Names and options\<close>

type_synonym socket_option_name = "(u32 \<times> u32 \<times> string) option"

definition hasValue :: "socket_option_name \<Rightarrow> bool" where
  "hasValue n = (n \<noteq> None)"

text \<open>\<open>level()\<close> and \<open>option()\<close> throw \<open>bad_optional_access\<close> without a value.\<close>

definition opt_level :: "socket_option_name \<Rightarrow> u32 result" where
  "opt_level n = (case n of None \<Rightarrow> Inl (Envoy_exception ''bad_optional_access'') | Some (l, opt, s) \<Rightarrow> Inr l)"

definition opt_option :: "socket_option_name \<Rightarrow> u32 result" where
  "opt_option n = (case n of None \<Rightarrow> Inl (Envoy_exception ''bad_optional_access'') | Some (l, opt, s) \<Rightarrow> Inr opt)"

datatype socket_state = STATE_PREBIND | STATE_BOUND | STATE_LISTENING

record socket_option =
  in_state :: socket_state
  optname :: socket_option_name
  opt_value :: "byte list"
  opt_socket_type :: "socket_type option"

definition socket_option_of_bytes ::
  "socket_state \<Rightarrow> socket_option_name \<Rightarrow> byte list \<Rightarrow> socket_type option \<Rightarrow> socket_option" where
  "socket_option_of_bytes st n v t = \<lparr>in_state = st, optname = n, opt_value = v, opt_socket_type = t\<rparr>"

definition socket_option_of_int ::
  "socket_state \<Rightarrow> socket_option_name \<Rightarrow> u32 \<Rightarrow> socket_type option \<Rightarrow> socket_option" where
  "socket_option_of_int st n v t = socket_option_of_bytes st n (le_bytes 4 (unat v)) t"

text \<open>\<open>SocketOptionName\<close> compares level, option and name.\<close>

definition option_name_eq :: "socket_option_name \<Rightarrow> socket_option_name \<Rightarrow> bool" where
  "option_name_eq m n = (m = n)"

record option_details =
  det_name :: socket_option_name
  det_value :: "byte list"

definition option_details_eq :: "option_details \<Rightarrow> option_details \<Rightarrow> bool" where
  "option_details_eq a b = (option_name_eq (det_name a) (det_name b) \<and> det_value a = det_value b)"

section \<open>Setting an option\<close>

type_synonym 's socket_set = "'s \<Rightarrow> u32 \<Rightarrow> u32 \<Rightarrow> byte list \<Rightarrow> int \<times> int \<times> 's"

definition SOCKET_ERROR_NOT_SUP :: int where "SOCKET_ERROR_NOT_SUP = 95"

definition setSocketOption ::
  "'s socket_set \<Rightarrow> 's \<Rightarrow> socket_option_name \<Rightarrow> byte list \<Rightarrow> (int \<times> int \<times> 's) result" where
  "setSocketOption set_opt s n v =
     (if \<not> hasValue n then Inr (- 1, SOCKET_ERROR_NOT_SUP, s)
      else res_bind (opt_level n) (\<lambda>l. res_bind (opt_option n) (\<lambda>opt. Inr (set_opt s l opt v))))"

definition setOption ::
  "'s socket_set \<Rightarrow> ('s \<Rightarrow> socket_type) \<Rightarrow> socket_option \<Rightarrow> 's \<Rightarrow> socket_state \<Rightarrow> (bool \<times> 's) result" where
  "setOption set_opt socketType opt s state =
     (if in_state opt = state
      then if \<not> hasValue (optname opt) then Inr (False, s)
           else if opt_socket_type opt \<noteq> None \<and> the (opt_socket_type opt) \<noteq> socketType s then Inr (True, s)
           else res_bind (setSocketOption set_opt s (optname opt) (opt_value opt))
                  (\<lambda>(return_value, err, s1). if return_value \<noteq> 0 then Inr (False, s1) else Inr (True, s1))
      else Inr (True, s))"

definition isSupported :: "socket_option \<Rightarrow> bool" where
  "isSupported opt = hasValue (optname opt)"

definition getOptionDetails :: "socket_option \<Rightarrow> socket_state \<Rightarrow> option_details option" where
  "getOptionDetails opt state =
     (if state \<noteq> in_state opt \<or> \<not> isSupported opt then None
      else Some \<lparr>det_name = optname opt, det_value = opt_value opt\<rparr>)"

definition pushScalarToByteVector :: "u32 \<Rightarrow> byte list \<Rightarrow> byte list" where
  "pushScalarToByteVector v bytes = bytes @ le_bytes 4 (unat v)"

definition opt_hashKey :: "socket_option \<Rightarrow> byte list \<Rightarrow> byte list result" where
  "opt_hashKey opt key =
     (if hasValue (optname opt)
      then res_bind (opt_level (optname opt)) (\<lambda>l. res_bind (opt_option (optname opt)) (\<lambda>n.
             Inr (pushScalarToByteVector n (pushScalarToByteVector l key) @ opt_value opt)))
      else Inr key)"

text \<open>\<open>appendOptions\<close> on the two vectors.\<close>

definition appendOptions :: "'o list \<Rightarrow> 'o list \<Rightarrow> 'o list" where
  "appendOptions dst src = dst @ src"

section \<open>What the options do\<close>

text \<open>No call throws: the name is only read where it has a value.\<close>

lemma setOption_cases:
  "setOption set_opt ty opt s state =
     Inr (if in_state opt \<noteq> state then (True, s)
          else case optname opt of
            None \<Rightarrow> (False, s)
          | Some (l, n, nm) \<Rightarrow>
              if opt_socket_type opt \<in> {None, Some (ty s)}
              then (case set_opt s l n (opt_value opt) of (rv, err, s1) \<Rightarrow> (rv = 0, s1))
              else (True, s))"
  by (cases "opt_socket_type opt")
    (auto simp: setOption_def setSocketOption_def hasValue_def opt_level_def opt_option_def
      split: option.splits prod.splits)

text \<open>An option is set only in the state in which it has details.\<close>

lemma setOption_details:
  assumes "setOption set_opt ty opt s state = Inr (r, s1)" and "getOptionDetails opt state = None"
  shows "s1 = s \<and> (r \<longleftrightarrow> in_state opt \<noteq> state)"
  using assms
  by (auto simp: setOption_cases getOptionDetails_def isSupported_def hasValue_def split: if_splits option.splits)

text \<open>The hash key keeps what was there and tells options with different names or values apart.\<close>

lemma le_bytes_4_inj: "le_bytes 4 (unat (a :: u32)) = le_bytes 4 (unat b) \<longleftrightarrow> a = b"
proof
  assume "le_bytes 4 (unat a) = le_bytes 4 (unat b)"
  then have "unat a mod 256 ^ 4 = unat b mod 256 ^ 4" by (metis le_value_le_bytes)
  moreover have "unat a < 256 ^ 4" "unat b < 256 ^ 4"
    using unat_less_two_power [of a] unat_less_two_power [of b] by simp_all
  ultimately show "a = b" by (simp add: word_unat_eq_iff)
qed simp

lemma opt_hashKey_separates:
  assumes "opt_hashKey a key = Inr ka" and "opt_hashKey b key = Inr kb" and "isSupported a" and "isSupported b"
  shows "ka = kb \<longleftrightarrow> map_option (\<lambda>(l, n, nm). (l, n)) (optname a) = map_option (\<lambda>(l, n, nm). (l, n)) (optname b)
      \<and> opt_value a = opt_value b"
  using assms
  by (auto simp: opt_hashKey_def isSupported_def hasValue_def opt_level_def opt_option_def pushScalarToByteVector_def
      append_eq_append_conv le_bytes_4_inj split: option.splits)

text \<open>The keys of two lists of options can agree: nothing marks where a value ends.\<close>

lemma opt_hashKey_ambiguous:
  "let long = socket_option_of_bytes STATE_PREBIND (Some (1, 2, [])) (le_bytes 4 3 @ le_bytes 4 4) None;
       short = socket_option_of_bytes STATE_PREBIND (Some (1, 2, [])) [] None;
       other = socket_option_of_bytes STATE_PREBIND (Some (3, 4, [])) [] None
   in opt_hashKey long [] = res_bind (opt_hashKey short []) (opt_hashKey other)"
  by (simp add: Let_def opt_hashKey_def socket_option_of_bytes_def hasValue_def opt_level_def opt_option_def
      pushScalarToByteVector_def)

end
