(* ===== verification/SupportSpec.thy ===== *)
theory SupportSpec
  imports AtomicPtr Support Lifecycle SocketOptions
begin

text \<open>
  What the supporting classes promise: an \<open>AtomicPtrArray\<close> makes one object per slot, the identifiers of
  \<open>RandomGeneratorImpl\<close> are version 4 UUIDs, \<open>ENVOY_BUG\<close> logs at the powers of two, and the completion of a
  lifecycle stage is posted once, when the last callback has let go of it.
\<close>

section \<open>One object per slot\<close>

lemma opt_list_length: "length (opt_list p) \<le> Suc 0"
  by (cases p) simp_all

lemma held_object_past: "held_object p i = [] \<or> past_check p = Some i" "length (held_object p i) \<le> Suc 0"
  by (cases p; simp add: opt_list_length; fail)+

lemma get_inv_objects:
  assumes "get_inv a"
  shows "length (objects a i) \<le> 1" and "slots a i = Some q \<Longrightarrow> objects a i = [q]"
proof -
  have "in_flight a i = []" if "slots a i \<noteq> None"
    using get_invD(2) [OF assms, where i = i] held_object_past(1) [of _ i] that
    by (auto simp: in_flight_def split: option.splits)
  moreover have "length (in_flight a i) \<le> 1"
    by (simp add: in_flight_def held_object_past(2) split: option.splits)
  ultimately show "length (objects a i) \<le> 1" and "slots a i = Some q \<Longrightarrow> objects a i = [q]"
    using get_invD(3) [OF assms, of i] by (cases "slots a i"; simp)+
qed

lemma get_step_keeps_slot:
  assumes "get_step sz a a'" and "get_inv a" and "slots a i = Some q"
  shows "slots a' i = Some q"
  using assms(1)
proof cases
  case (get_store t j p)
  then show ?thesis using get_invD(2) [OF assms(2), of t j] assms(3) by auto
qed (use assms(3) in simp_all)

text \<open>Property C31. However the threads interleave: for each slot of an \<open>AtomicPtrArray\<close> at most one object is ever made and
  every \<open>get\<close> that returns an object returns that one; \<open>get\<close> returns null only if \<open>make_object\<close> has returned null
  for the slot; at most one thread is past the mutex; no step changes a slot once it holds an object; and the
  destructor deletes every object that was made, once.\<close>

theorem AtomicPtr_one_object:
  assumes "get_reachable sz a"
  shows "length (objects a i) \<le> 1
    \<and> (\<forall>q. (i, Some q) \<in> set (got a) \<longrightarrow> objects a i = [q])
    \<and> ((i, None) \<in> set (got a) \<longrightarrow> (i, None) \<in> set (made a))
    \<and> (\<forall>t u. holds_mutex (get_at a t) \<longrightarrow> holds_mutex (get_at a u) \<longrightarrow> t = u)
    \<and> (\<forall>a' q. get_step sz a a' \<longrightarrow> slots a i = Some q \<longrightarrow> slots a' i = Some q)
    \<and> ((\<forall>t. get_at a t = Outside) \<longrightarrow>
         destroy_array DeleteOnDestruct sz a = concat (map (objects a) [0..<sz])
         \<and> distinct (destroy_array DeleteOnDestruct sz a))"
proof -
  note inv = get_reachable_inv [OF assms]
  have "t = u" if "holds_mutex (get_at a t)" "holds_mutex (get_at a u)" for t u
    using get_invD(1) [OF inv, of t] get_invD(1) [OF inv, of u] that by simp
  moreover have "objects a i = [q]" if "(i, Some q) \<in> set (got a)" for q
    using get_inv_objects(2) [OF inv get_invD(7) [OF inv that]] .
  ultimately show ?thesis
    using get_inv_objects(1) [OF inv, of i] get_invD(6) [OF inv, of i] get_step_keeps_slot [OF _ inv]
      destroy_array_objects [OF assms] by blast
qed

text \<open>Two threads race for slot 0: the second finds the object the first has stored.\<close>

lemma AtomicPtr_one_object_witness:
  "\<exists>a. get_reachable 1 a \<and> length (got a) = 2 \<and> (0, Some 7) \<in> set (got a) \<and> objects a 0 = [7]"
proof -
  note step = get_next [of 1]
  let ?new = ptr_array_new
  have "get_reachable 1 ?new" by (rule get_new)
  from step [OF this get_call [of ?new 0 0]]
  obtain a1 where r: "get_reachable 1 a1" and a1: "a1 = goto 0 (First_check 0) ?new"
    by (simp add: ptr_array_new_def)
  from step [OF r get_call [of a1 1 0]]
  obtain a2 where r: "get_reachable 1 a2" and a2: "a2 = goto 1 (First_check 0) a1"
    by (simp add: a1 ptr_array_new_def)
  from step [OF r get_first [of a2 0 0]]
  obtain a3 where r: "get_reachable 1 a3" and a3: "a3 = goto 0 (Lock_wait 0) a2"
    by (simp add: a2 a1 ptr_array_new_def)
  from step [OF r get_first [of a3 1 0]]
  obtain a4 where r: "get_reachable 1 a4" and a4: "a4 = goto 1 (Lock_wait 0) a3"
    by (simp add: a3 a2 a1 ptr_array_new_def)
  note as = a4 a3 a2 a1 ptr_array_new_def
  from step [OF r get_lock [of a4 0 0]]
  obtain a5 where r: "get_reachable 1 a5" and a5: "a5 = goto 0 (Second_check 0) (a4\<lparr>mutex := Some 0\<rparr>)"
    by (simp add: as)
  from step [OF r get_second [of a5 0 0]]
  obtain a6 where r: "get_reachable 1 a6" and a6: "a6 = goto 0 (Make_object 0) a5"
    by (simp add: a5 as)
  from step [OF r get_make [of a6 0 0 "Some 7"]]
  obtain a7 where r: "get_reachable 1 a7" and a7: "a7 = goto 0 (Store_ptr 0 (Some 7)) (a6\<lparr>made := made a6 @ [(0, Some 7)]\<rparr>)"
    by (simp add: a6 a5 as)
  from step [OF r get_store [of a7 0 0 "Some 7"]]
  obtain a8 where r: "get_reachable 1 a8" and a8: "a8 = goto 0 (Unlock 0) (a7\<lparr>slots := (slots a7)(0 := Some 7)\<rparr>)"
    by (simp add: a7)
  from step [OF r get_unlock [of a8 0 0]]
  obtain a9 where r: "get_reachable 1 a9" and a9: "a9 = goto 0 (Last_load 0) (a8\<lparr>mutex := None\<rparr>)"
    by (simp add: a8)
  note as = a9 a8 a7 a6 a5 as
  from step [OF r get_lock [of a9 1 0]]
  obtain b1 where r: "get_reachable 1 b1" and b1: "b1 = goto 1 (Second_check 0) (a9\<lparr>mutex := Some 1\<rparr>)"
    by (simp add: as)
  from step [OF r get_second [of b1 1 0]]
  obtain b2 where r: "get_reachable 1 b2" and b2: "b2 = goto 1 (Unlock 0) b1"
    by (simp add: b1 as)
  from step [OF r get_unlock [of b2 1 0]]
  obtain b3 where r: "get_reachable 1 b3" and b3: "b3 = goto 1 (Last_load 0) (b2\<lparr>mutex := None\<rparr>)"
    by (simp add: b2)
  from step [OF r get_return [of b3 1 0]]
  obtain b4 where r: "get_reachable 1 b4" and b4: "b4 = goto 1 Outside (b3\<lparr>got := got b3 @ [(0, slots b3 0)]\<rparr>)"
    by (simp add: b3)
  from step [OF r get_return [of b4 0 0]]
  obtain b5 where r: "get_reachable 1 b5" and b5: "b5 = goto 0 Outside (b4\<lparr>got := got b4 @ [(0, slots b4 0)]\<rparr>)"
    by (simp add: b4 b3 b2 b1 as)
  have "got b5 = [(0, Some 7), (0, Some 7)]" by (simp add: b5 b4 b3 b2 b1 as)
  then show ?thesis using r AtomicPtr_one_object [OF r, of 0] by auto
qed

section \<open>Version 4 UUIDs\<close>

text \<open>The 16 bytes the next call uses, before the version and the variant are written into them.\<close>

definition uuid_block :: "(nat \<Rightarrow> byte list option) \<Rightarrow> uuid_state \<Rightarrow> byte list" where
  "uuid_block rand_bytes s =
     (if us_idx s + 16 > 2048
      then take 16 (case rand_bytes (us_fills s) of None \<Rightarrow> us_buffered s | Some b \<Rightarrow> b)
      else take 16 (drop (us_idx s) (us_buffered s)))"

definition uuid_ok :: "(nat \<Rightarrow> byte list option) \<Rightarrow> uuid_state \<Rightarrow> bool" where
  "uuid_ok rand_bytes s \<longleftrightarrow> length (us_buffered s) = 2048 \<and> (\<forall>k b. rand_bytes k = Some b \<longrightarrow> length b = 2048)"

lemma uuid_next_block: "fst (uuid_next rand_bytes uuid0 s) = uuid_format (stamp (uuid_block rand_bytes s)) uuid0"
  by (simp add: uuid_next_def uuid_block_def Let_def)

lemma length_uuid_block: "uuid_ok rand_bytes s \<Longrightarrow> length (uuid_block rand_bytes s) = 16"
  by (auto simp: uuid_ok_def uuid_block_def split: option.splits)

lemma uuid_ok_next: "uuid_ok rand_bytes s \<Longrightarrow> uuid_ok rand_bytes (snd (uuid_next rand_bytes uuid0 s))"
  by (auto simp: uuid_ok_def uuid_next_def Let_def length_blit split: option.splits)

lemma hex_digits_set: "i < 16 \<Longrightarrow> hex_digits ! i \<in> set hex_digits"
  by (rule nth_mem) (simp add: hex_digits_def)

lemma hex_byte_set: "set (hex_byte d) \<subseteq> set hex_digits"
  using halves_less [of d] hex_digits_set by (simp add: hex_byte_def)

lemma hex_bytes_set: "set (hex_bytes bs) \<subseteq> set hex_digits"
  using hex_byte_set by (auto simp: hex_bytes_def)

text \<open>The five groups of a UUID give back the bytes.\<close>

lemma uuid_format_inj:
  assumes "length r = 16" and "length r' = 16" and "length u = UUID_LENGTH" and "length u' = UUID_LENGTH"
  shows "uuid_format r u = uuid_format r' u' \<longleftrightarrow> r = r'"
proof -
  note list16 [OF assms(1)] list16 [OF assms(2)]
  then show ?thesis
    unfolding uuid_format_eq [OF assms(1,3)] uuid_format_eq [OF assms(2,4)]
    by (elim exE) (simp add: append_eq_append_conv length_hex_bytes hex_bytes_inj)
qed

text \<open>8-4-4-4-12 hexadecimal digits, the third group starts with the version 4, the fourth with the variant.\<close>

definition uuid4_text :: "string \<Rightarrow> bool" where
  "uuid4_text uuid \<longleftrightarrow>
     (\<exists>a b c d e. uuid = a @ ''-'' @ b @ ''-'' @ c @ ''-'' @ d @ ''-'' @ e
        \<and> map length [a, b, c, d, e] = [8, 4, 4, 4, 12] \<and> set (a @ b @ c @ d @ e) \<subseteq> set hex_digits
        \<and> hd c = CHR ''4'' \<and> hd d \<in> set ''89ab'')"

lemma hex_bytes_hd: "bs \<noteq> [] \<Longrightarrow> hd (hex_bytes bs) = hex_digits ! unat (drop_bit 4 (hd bs))"
  by (cases bs) (simp_all add: hex_bytes_def hex_byte_def)

lemma stamp_nth:
  assumes "length rand = 16"
  shows "hd (drop 6 (stamp rand)) = (rand ! 6 AND 0x0F) OR 0x40"
    and "hd (drop 8 (stamp rand)) = (rand ! 8 AND 0x3F) OR 0x80"
  using list16 [OF assms] by (elim exE; simp add: stamp_def Let_def)+

lemma uuid4_text_format:
  assumes "length rand = 16" and "length uuid0 = UUID_LENGTH"
  shows "uuid4_text (uuid_format (stamp rand) uuid0)"
proof -
  let ?g = "\<lambda>n k. hex_bytes (take n (drop k (stamp rand)))"
  have "hd (?g 2 6) = CHR ''4''"
    using assms(1) by (simp add: hex_bytes_hd stamp_nth stamp_version hex_digits_def)
  moreover have "hd (?g 2 8) = hex_digits ! unat (drop_bit 4 ((rand ! 8 AND 0x3F) OR (0x80 :: byte)))"
    using assms(1) by (simp add: hex_bytes_hd stamp_nth)
  then have "hd (?g 2 8) \<in> set ''89ab''"
    using stamp_variant [of "rand ! 8"] by (auto simp: hex_digits_def)
  ultimately show ?thesis
    using assms hex_bytes_set unfolding uuid4_text_def
    by (intro exI [of _ "?g 4 0"] exI [of _ "?g 2 4"] exI [of _ "?g 2 6"] exI [of _ "?g 2 8"]
        exI [of _ "hex_bytes (drop 10 (stamp rand))"])
      (simp add: uuid_format_eq length_hex_bytes)
qed

text \<open>\<open>uuid()\<close> gives the text of a version 4 UUID, whatever the random bytes, keeps its buffer, and two calls give
  the same text only when their 16 bytes agree after stamping.\<close>

theorem uuid_version4:
  assumes "uuid_ok rand_bytes s" and "length uuid0 = UUID_LENGTH"
  shows "uuid4_text (fst (uuid_next rand_bytes uuid0 s))
      \<and> uuid_ok rand_bytes (snd (uuid_next rand_bytes uuid0 s))
      \<and> (\<forall>rand_bytes' s' uuid0'. uuid_ok rand_bytes' s' \<longrightarrow> length uuid0' = UUID_LENGTH \<longrightarrow>
           (fst (uuid_next rand_bytes uuid0 s) = fst (uuid_next rand_bytes' uuid0' s') \<longleftrightarrow>
            stamp (uuid_block rand_bytes s) = stamp (uuid_block rand_bytes' s')))"
  using assms
  by (simp add: uuid_next_block length_uuid_block uuid4_text_format uuid_ok_next uuid_format_inj)

lemma uuid_version4_witness:
  "uuid4_text (fst (uuid_next (\<lambda>k. Some (replicate 2048 255)) (replicate 36 CHR ''?'') uuid_state_new))
   \<and> fst (uuid_next (\<lambda>k. Some (replicate 2048 255)) (replicate 36 CHR ''?'') uuid_state_new)
       = ''ffffffff-ffff-4fff-bfff-ffffffffffff''"
proof -
  have "uuid_ok (\<lambda>k. Some (replicate 2048 255)) uuid_state_new"
    by (simp add: uuid_ok_def uuid_state_new_def)
  from uuid_version4 [OF this, of "replicate 36 CHR ''?''"]
  have "uuid4_text (fst (uuid_next (\<lambda>k. Some (replicate 2048 255)) (replicate 36 CHR ''?'') uuid_state_new))"
    by (simp add: UUID_LENGTH_def)
  moreover have "uuid_block (\<lambda>k. Some (replicate 2048 255)) uuid_state_new = replicate 16 255"
    by (simp add: uuid_block_def uuid_state_new_def)
  then have "fst (uuid_next (\<lambda>k. Some (replicate 2048 255)) (replicate 36 CHR ''?'') uuid_state_new)
      = ''ffffffff-ffff-4fff-bfff-ffffffffffff''"
    unfolding uuid_next_block by (simp only:) code_simp
  ultimately show ?thesis by simp
qed

section \<open>What ENVOY_BUG logs\<close>

fun log_calls :: "string list \<Rightarrow> bug_counters \<Rightarrow> bug_counters" where
  "log_calls [] cs = cs"
| "log_calls (b # bs) cs = log_calls bs (snd (shouldLogAndInvoke b cs))"

lemma log_calls_counts:
  "(case log_calls bs cs b of None \<Rightarrow> 0 | Some n \<Rightarrow> n) = (case cs b of None \<Rightarrow> 0 | Some n \<Rightarrow> n) + of_nat (count_list bs b)"
proof (induction bs arbitrary: cs)
  case (Cons a bs)
  show ?case
    unfolding log_calls.simps Cons.IH
    by (simp add: shouldLogAndInvoke_def bug_inc_def Let_def split: option.splits)
qed simp

lemma word_and_pred:
  assumes "m + 1 < 2 ^ 64"
  shows "(of_nat (m + 1) :: u64) AND (of_nat (m + 1) - 1) = 0 \<longleftrightarrow> (m + 1) AND m = 0"
proof -
  have "unat (of_nat (m + 1) :: u64) = m + 1" "unat (of_nat m :: u64) = m"
    using assms by (simp_all add: unat_of_nat take_bit_nat_eq_self del: of_nat_add of_nat_Suc)
  then have "unat ((of_nat (m + 1) :: u64) AND of_nat m) = (m + 1) AND m"
    by (simp add: unsigned_and_eq)
  then show ?thesis by (simp add: word_unat_eq_iff)
qed

text \<open>After any calls, for this and other bugs, the next call for a bug logs exactly when its number is a power of
  two (the counters of fewer than \<open>2 ^ 64 - 1\<close> calls do not wrap).\<close>

theorem shouldLogAndInvoke_powers_of_two:
  assumes "length bs < 2 ^ 64 - 1"
  shows "fst (shouldLogAndInvoke b (log_calls bs Map.empty)) \<longleftrightarrow> (\<exists>k. count_list bs b + 1 = 2 ^ k)"
proof -
  let ?n = "count_list bs b + 1"
  have lt: "?n < 2 ^ 64" using assms count_le_length [of bs b] by linarith
  have "fst (shouldLogAndInvoke b (log_calls bs Map.empty)) \<longleftrightarrow> (of_nat ?n :: u64) AND (of_nat ?n - 1) = 0"
    using log_calls_counts [of bs Map.empty b] 
    by (simp add: shouldLogAndInvoke_def bug_inc_def Let_def add.commute)
  also have "\<dots> \<longleftrightarrow> ?n AND (?n - 1) = 0" using word_and_pred [OF lt] by simp
  also have "\<dots> \<longleftrightarrow> (\<exists>k. ?n = 2 ^ k)" by (rule and_pred_power) simp
  finally show ?thesis .
qed

lemma shouldLogAndInvoke_powers_of_two_witness:
  "fst (shouldLogAndInvoke ''a'' (log_calls [''a'', ''b'', ''a'', ''a''] Map.empty))
   \<and> \<not> fst (shouldLogAndInvoke ''b'' (log_calls [''b'', ''a'', ''b''] Map.empty))"
proof
  show "fst (shouldLogAndInvoke ''a'' (log_calls [''a'', ''b'', ''a'', ''a''] Map.empty))"
    by (subst shouldLogAndInvoke_powers_of_two) (simp_all add: exI [of _ 2])
  have "Suc (Suc (Suc 0)) \<noteq> 2 ^ k" for k by (cases k) (simp_all, presburger)
  then show "\<not> fst (shouldLogAndInvoke ''b'' (log_calls [''b'', ''a'', ''b''] Map.empty))"
    by (subst shouldLogAndInvoke_powers_of_two) simp_all
qed

section \<open>Completion of a lifecycle stage\<close>

text \<open>Property C32. \<open>notifyCallbacksForStage\<close> runs every callback of the stage in order, those with a completion only once the
  workers have started; whatever the callbacks do with their completions then (\<open>later\<close>), the completion callback is
  posted exactly when the last of them is dropped, and only once. A server registers no callbacks: whatever is
  registered, nothing runs and the completion is posted at once.\<close>

theorem lifecycle_completion_once:
  assumes "\<forall>cb. own_copies_only (hold cb)"
  shows "(\<exists>g. notifyCallbacksForStage hold st l = Inr (all_callbacks st l, g)
        \<and> (\<forall>later g'. guard_steps later g = Inr g' \<longrightarrow>
             guard_ran g' = (if guard_refs g' = 0 then [Posted_completion] else [])
             \<and> guard_refs g' + drops later = guard_refs g + (length later - drops later)))
      \<and> notifyCallbacksForStage hold st (snd (registerCallback st' cb (snd (registerCallbackWithCompletion st' cb'
            (lifecycle_new\<lparr>server_workers_started := w\<rparr>)))))
          = Inr ([], \<lparr>guard_refs = 0, guard_cleanup = cleanup_new [Posted_completion], guard_ran = [Posted_completion]\<rparr>)"
proof -
  obtain g where g: "notifyCallbacksForStage hold st l = Inr (all_callbacks st l, g)"
    using notify_returns [OF assms] by blast
  obtain ops where ops: "guard_steps ops (guard_new (cleanup_new [Posted_completion])) = Inr g"
    using notify_Inr(2) [OF g] by blast
  have "guard_ran g' = (if guard_refs g' = 0 then [Posted_completion] else [])"
    if "guard_steps later g = Inr g'" for later g'
  proof -
    have "guard_steps (ops @ later) (guard_new (cleanup_new [Posted_completion])) = Inr g'"
      using ops that by (simp add: guard_steps_append)
    from guard_steps_ran [OF this] show ?thesis by (simp add: guard_new_def cleanup_new_def)
  qed
  moreover have "notifyCallbacksForStage hold st (snd (registerCallback st' cb (snd (registerCallbackWithCompletion st' cb'
            (lifecycle_new\<lparr>server_workers_started := w\<rparr>)))))
          = Inr ([], \<lparr>guard_refs = 0, guard_cleanup = cleanup_new [Posted_completion], guard_ran = [Posted_completion]\<rparr>)"
    by (simp add: notify_eq completable_callbacks_def plain_callbacks_def registerCallback_def
        registerCallbackWithCompletion_def lifecycle_new_def guard_new_def guard_step_def cleanup_destroy_def
        cleanup_new_def Let_def)
  ultimately show ?thesis using g guard_steps_refs [of _ g] by blast
qed

text \<open>A callback with completion keeps one copy, which is dropped later: only then the completion is posted.\<close>

lemma lifecycle_completion_once_witness:
  "\<exists>log g g'. notifyCallbacksForStage (\<lambda>cb. [Copy_guard]) ShutdownExit
        \<lparr>stage_callbacks = [ShutdownExit \<mapsto> [''a'', ''b'']], stage_completable_callbacks = [ShutdownExit \<mapsto> [''c'']],
         server_workers_started = True\<rparr> = Inr (log, g)
      \<and> log = [Ran_callback ''a'', Ran_callback ''b'', Ran_with_completion ''c''] \<and> guard_refs g = 1 \<and> guard_ran g = []
      \<and> guard_steps [Drop_guard] g = Inr g' \<and> guard_ran g' = [Posted_completion]"
proof -
  let ?l = "\<lparr>stage_callbacks = [ShutdownExit \<mapsto> [''a'', ''b'']], stage_completable_callbacks = [ShutdownExit \<mapsto> [''c'']],
         server_workers_started = True\<rparr>"
  have "\<forall>cb :: string. own_copies_only [Copy_guard]"
    by (auto simp: own_copies_only_def le_Suc_eq)
  from lifecycle_completion_once [OF this, of ShutdownExit ?l]
  obtain g where n: "notifyCallbacksForStage (\<lambda>cb. [Copy_guard]) ShutdownExit ?l = Inr (all_callbacks ShutdownExit ?l, g)"
    and ran: "\<And>later g'. guard_steps later g = Inr g' \<Longrightarrow>
             guard_ran g' = (if guard_refs g' = 0 then [Posted_completion] else [])"
    by blast
  have g: "guard_refs g = 1"
    using n by (auto simp: notifyCallbacksForStage_def guard_new_def cleanup_new_def guard_step_def)
  obtain g' where g': "guard_steps [Drop_guard] g = Inr g'" "guard_refs g' = 0"
    using g by (simp add: guard_step_def)
  show ?thesis
    using n g g' ran [of "[]" g] ran [OF g'(1)]
    by (intro exI [of _ "all_callbacks ShutdownExit ?l"] exI [of _ g] exI [of _ g'])
      (simp add: all_callbacks_def plain_callbacks_def completable_callbacks_def)
qed

end
