(* ===== verification/Factories.thy ===== *)
theory Factories
  imports Dispatcher
begin

text \<open>
  What a dispatcher makes (\<open>common/event/DispatcherImpl.cpp\<close>, \<open>LibeventScheduler.cpp\<close>, \<open>RealTimeSystem.cpp\<close>): timers,
  schedulable callbacks and file events, and the timer of \<open>Server\<close> that arms itself again (\<open>server/Server.h\<close>). An
  object made is its libevent event; its address, the number \<open>e\<close>, is a parameter.
\<close>

section \<open>Making events\<close>

definition SchedulableCallbackImpl_new :: "'l libevent \<Rightarrow> ev \<Rightarrow> 'l \<Rightarrow> 'l" where
  "SchedulableCallbackImpl_new lib e l = lib_assign lib e 0 l"

definition TimerImpl_new :: "'l libevent \<Rightarrow> ev \<Rightarrow> 'l \<Rightarrow> timer \<times> 'l" where
  "TimerImpl_new lib e l = (\<lparr>tm_event = e, tm_object = None\<rparr>, lib_assign lib e 0 l)"

text \<open>\<open>~ImplBase\<close>.\<close>

definition ImplBase_destroy :: "'l libevent \<Rightarrow> ev \<Rightarrow> 'l \<Rightarrow> 'l" where
  "ImplBase_destroy lib e l = lib_del lib e l"

text \<open>A scheduler makes timers. The one of \<open>RealTimeSystem\<close> passes the call on to the libevent scheduler; \<open>myTime\<close> has
  none (\<open>createScheduler\<close> returns null).\<close>

type_synonym 'l scheduler = "ev \<Rightarrow> 'l \<Rightarrow> timer \<times> 'l"

definition libevent_createTimer :: "'l libevent \<Rightarrow> 'l scheduler" where
  "libevent_createTimer lib e l = TimerImpl_new lib e l"

definition RealTimeSystem_createScheduler :: "'l scheduler \<Rightarrow> 'l scheduler option" where
  "RealTimeSystem_createScheduler base_scheduler = Some (\<lambda>e l. base_scheduler e l)"

definition myTime_createScheduler :: "'l scheduler \<Rightarrow> 'l scheduler option" where
  "myTime_createScheduler base_scheduler = None"

definition createTimerInternal :: "'l scheduler option \<Rightarrow> ev \<Rightarrow> 'l \<Rightarrow> (timer \<times> 'l) result" where
  "createTimerInternal scheduler e l = (case scheduler of None \<Rightarrow> Inl Undefined_behaviour | Some mk \<Rightarrow> Inr (mk e l))"

definition createTimer :: "'l scheduler option \<Rightarrow> ev \<Rightarrow> 'l \<Rightarrow> (timer \<times> 'l) result" where
  "createTimer scheduler e l = createTimerInternal scheduler e l"

text \<open>Nothing sets \<open>scaled_timer_manager_\<close>, a constant null pointer.\<close>

definition createScaledTimer :: "'l scheduler option \<Rightarrow> ev \<Rightarrow> 'l \<Rightarrow> (timer \<times> 'l) result" where
  "createScaledTimer scheduler e l = Inl Undefined_behaviour"

definition createSchedulableCallback :: "'l libevent \<Rightarrow> ev \<Rightarrow> 'l \<Rightarrow> 'l" where
  "createSchedulableCallback lib e l = SchedulableCallbackImpl_new lib e l"

text \<open>The activation callback is made first, then the event itself.\<close>

definition createFileEvent :: "'l libevent \<Rightarrow> ev \<Rightarrow> ev \<Rightarrow> trigger_type \<Rightarrow> u32 \<Rightarrow> 'l \<Rightarrow> file_event \<times> 'l" where
  "createFileEvent lib e act trigger events l =
     FileEventImpl_new lib e act trigger events (createSchedulableCallback lib act l)"

section \<open>The timer of the server\<close>

text \<open>\<open>infinit_loop\<close>: the new timer is made before the old one, if any, is destroyed by the assignment.\<close>

definition infinit_loop ::
  "'l libevent \<Rightarrow> 'l scheduler option \<Rightarrow> ev \<Rightarrow> timer option \<times> 'l \<Rightarrow> (timer option \<times> 'l) result" where
  "infinit_loop lib scheduler e s =
     (let (loop_timer, l) = s in
      res_bind (createTimer scheduler e l) (\<lambda>(t, l1).
        let l2 = (case loop_timer of None \<Rightarrow> l1 | Some old \<Rightarrow> ImplBase_destroy lib (tm_event old) l1);
            (t1, l3) = enableTimer lib 1000 None (t, l2)
        in Inr (Some t1, l3)))"

text \<open>The loop fires the timer, whose callback is \<open>sayHello\<close>: \<open>infinit_loop\<close> again, from the running timer.\<close>

definition loop_tick ::
  "'l libevent \<Rightarrow> 'l scheduler option \<Rightarrow> ev \<Rightarrow> timer option \<times> 'l \<Rightarrow> (timer option \<times> 'l) result" where
  "loop_tick lib scheduler e s =
     (case fst s of
        None \<Rightarrow> Inl Undefined_behaviour
      | Some t \<Rightarrow> infinit_loop lib scheduler e (Some t, lib_fire lib (tm_event t) (snd s)))"

fun loop_ticks :: "'l libevent \<Rightarrow> 'l scheduler option \<Rightarrow> ev list \<Rightarrow> timer option \<times> 'l \<Rightarrow> (timer option \<times> 'l) result" where
  "loop_ticks lib scheduler [] s = Inr s"
| "loop_ticks lib scheduler (e # es) s = res_bind (loop_tick lib scheduler e s) (loop_ticks lib scheduler es)"

section \<open>Lemmas\<close>

lemma made_not_pending:
  assumes "libevent_contract lib"
  shows "\<not> lib_pending lib e (createSchedulableCallback lib e l)"
    and "\<not> timer_enabled lib (TimerImpl_new lib e l)"
    and "act \<noteq> e \<Longrightarrow> lib_pending lib e' (snd (createFileEvent lib e act trigger events l))
        = (e' = e \<or> (e' \<noteq> act \<and> lib_pending lib e' l))"
  using libevent_simps [OF assms]
  by (auto simp: createSchedulableCallback_def SchedulableCallbackImpl_new_def timer_enabled_def TimerImpl_new_def
      createFileEvent_def FileEventImpl_new_def assignEvents_def Let_def)

text \<open>Exactly the last timer is armed, a second from now; the one before it is not.\<close>

definition one_timer :: "'l libevent \<Rightarrow> ev set \<Rightarrow> timer option \<times> 'l \<Rightarrow> bool" where
  "one_timer lib evs s \<longleftrightarrow> (\<exists>t. fst s = Some t \<and> tm_event t \<in> evs \<and> tm_object t = None
     \<and> (\<forall>e \<in> evs. lib_pending lib e (snd s) \<longleftrightarrow> e = tm_event t))"

lemma infinit_loop_one:
  assumes lib: "libevent_contract lib" and "e \<in> evs"
    and "\<forall>e' \<in> evs. lib_pending lib e' l \<longrightarrow> (\<exists>old. loop_timer = Some old \<and> e' = tm_event old)"
    and "\<forall>old. loop_timer = Some old \<longrightarrow> tm_event old \<noteq> e"
  shows "\<exists>s'. infinit_loop lib (RealTimeSystem_createScheduler (libevent_createTimer lib)) e (loop_timer, l) = Inr s'
    \<and> one_timer lib evs s'"
proof (cases loop_timer)
  case None
  then show ?thesis
    using assms libevent_simps [OF lib]
    by (auto simp: infinit_loop_def createTimer_def createTimerInternal_def RealTimeSystem_createScheduler_def
        libevent_createTimer_def TimerImpl_new_def enableTimer_def internalEnableTimer_def one_timer_def)
next
  case (Some old)
  then show ?thesis
    using assms libevent_simps [OF lib]
    by (auto simp: infinit_loop_def createTimer_def createTimerInternal_def RealTimeSystem_createScheduler_def
        libevent_createTimer_def TimerImpl_new_def enableTimer_def internalEnableTimer_def one_timer_def
        ImplBase_destroy_def)
qed

text \<open>However often it ticks, one timer is armed, provided that a new timer is not where the running one is.\<close>

lemma loop_ticks_one:
  assumes lib: "libevent_contract lib"
  shows "one_timer lib evs s \<Longrightarrow> set es \<subseteq> evs \<Longrightarrow> distinct_adj (tm_event (the (fst s)) # es) \<Longrightarrow>
    \<exists>s'. loop_ticks lib (RealTimeSystem_createScheduler (libevent_createTimer lib)) es s = Inr s' \<and> one_timer lib evs s'"
proof (induction es arbitrary: s)
  case (Cons e es)
  let ?sch = "RealTimeSystem_createScheduler (libevent_createTimer lib)"
  obtain t where t: "fst s = Some t" "tm_event t \<in> evs" "\<forall>e \<in> evs. lib_pending lib e (snd s) \<longleftrightarrow> e = tm_event t"
    using Cons.prems(1) by (auto simp: one_timer_def)
  obtain s1 where s1: "infinit_loop lib ?sch e (Some t, lib_fire lib (tm_event t) (snd s)) = Inr s1" "one_timer lib evs s1"
    using infinit_loop_one [OF lib, of e evs "lib_fire lib (tm_event t) (snd s)" "Some t"] t Cons.prems libevent_simps [OF lib]
    by auto
  have "tm_event (the (fst s1)) = e"
    using s1(1) by (auto simp: infinit_loop_def createTimer_def createTimerInternal_def RealTimeSystem_createScheduler_def
        libevent_createTimer_def TimerImpl_new_def enableTimer_def internalEnableTimer_def)
  then have "distinct_adj (tm_event (the (fst s1)) # es)" using Cons.prems(3) by (cases es) simp_all
  from Cons.IH [OF s1(2) _ this] Cons.prems(2) s1(1) show ?case
    by (simp add: loop_tick_def t(1))
qed simp

text \<open>With \<open>myTime\<close> no timer can be made.\<close>

lemma myTime_undefined:
  "infinit_loop lib (myTime_createScheduler base) e s = Inl Undefined_behaviour"
  by (simp add: infinit_loop_def createTimer_def createTimerInternal_def myTime_createScheduler_def split: prod.splits)

end
