(* ===== verification/DateTime.thy ===== *)
theory DateTime
  imports StringUtil Scheduling
begin

text \<open>
  \<open>DateFormatter\<close>, \<open>AccessLogDateTimeFormatter\<close> and \<open>DateUtil\<close> (\<open>common/common/Utility.h\<close> and \<open>Utility.cpp\<close>). A
  time is the number of nanoseconds since the epoch; \<open>duration_cast\<close> truncates towards zero. A formatter is the
  list of its specifiers; \<open>regex_search\<close> is \<open>std::regex_search\<close> for the one pattern the code has,
  \<open>(%([1-9])?f)|(%s)\<close>. \<open>absl::FormatTime\<close> in UTC and \<open>fmt::format_int\<close> are parameters. The thread-local caches are
  the state that is passed along.
\<close>

section \<open>Library functions\<close>

record time_lib =
  FormatTime :: "string \<Rightarrow> int \<Rightarrow> string"
  format_int :: "int \<Rightarrow> string"

definition format_int_contract :: "time_lib \<Rightarrow> bool" where
  "format_int_contract lib \<longleftrightarrow> (\<forall>n. format_int lib (int n) = decimal n)"

definition ns_per_s :: int where "ns_per_s = 1000000000"

definition duration_seconds :: "int \<Rightarrow> int" where
  "duration_seconds ns = truncating_div ns ns_per_s"

definition duration_milliseconds :: "int \<Rightarrow> int" where
  "duration_milliseconds ns = truncating_div ns 1000000"

section \<open>Parsing a format\<close>

record specifier =
  sp_position :: nat
  sp_width :: nat
  sp_segment :: string
  sp_second :: bool

definition width_digit :: "char \<Rightarrow> bool" where
  "width_digit c \<longleftrightarrow> 49 \<le> (of_char c :: nat) \<and> (of_char c :: nat) \<le> 57"

text \<open>A match at the front of a string: its length, the width of its replacement and whether it is \<open>%s\<close>.\<close>

definition spec_at :: "string \<Rightarrow> (nat \<times> nat \<times> bool) option" where
  "spec_at s =
     (case s of
        p # c # r \<Rightarrow>
          if p \<noteq> CHR ''%'' then None
          else if c = CHR ''f'' then Some (2, 9, False)
          else if c = CHR ''s'' then Some (2, 2, True)
          else if width_digit c \<and> r \<noteq> [] \<and> hd r = CHR ''f'' then Some (3, of_char c - 48, False)
          else None
      | _ \<Rightarrow> None)"

fun regex_search :: "string \<Rightarrow> (nat \<times> nat \<times> nat \<times> bool) option" where
  "regex_search [] = None"
| "regex_search (c # s) =
     (case spec_at (c # s) of
        Some m \<Rightarrow> Some (0, m)
      | None \<Rightarrow> map_option (\<lambda>(p, m). (Suc p, m)) (regex_search s))"

lemma spec_at_bounds:
  assumes "spec_at s = Some (l, w, b)"
  shows "2 \<le> l" and "l \<le> length s" and "0 < w" and "w \<le> 9" and "b \<Longrightarrow> w = 2"
proof -
  obtain p c r where s: "s = p # c # r"
    using assms by (cases s; cases "tl s") (auto simp: spec_at_def)
  have "2 \<le> l \<and> l \<le> length s \<and> 0 < w \<and> w \<le> 9 \<and> (b \<longrightarrow> w = 2)"
    using assms unfolding spec_at_def s width_digit_def by (cases r) (auto split: if_splits)
  then show "2 \<le> l" "l \<le> length s" "0 < w" "w \<le> 9" "b \<Longrightarrow> w = 2" by auto
qed

lemma regex_search_bounds:
  "regex_search s = Some (p, l, w, b) \<Longrightarrow> 2 \<le> l \<and> p + l \<le> length s \<and> 0 < w \<and> w \<le> 9 \<and> (b \<longrightarrow> w = 2)"
proof (induction s arbitrary: p)
  case (Cons c s)
  show ?case
  proof (cases "spec_at (c # s)")
    case None
    then show ?thesis using Cons by auto
  next
    case (Some m)
    then have "spec_at (c # s) = Some (l, w, b)" "p = 0" using Cons.prems by auto
    then show ?thesis using spec_at_bounds [of "c # s" l w b] by auto
  qed
qed simp

lemma regex_search_nonempty: "regex_search s = Some (p, l, w, b) \<Longrightarrow> 0 < l \<and> s \<noteq> []"
  using regex_search_bounds [of s p l w b] by auto

function df_parse :: "string \<Rightarrow> nat \<Rightarrow> specifier list" where
  "df_parse suffix step =
     (case regex_search suffix of
        None \<Rightarrow> if suffix \<noteq> [] then [\<lparr>sp_position = step, sp_width = 0, sp_segment = suffix, sp_second = False\<rparr>] else []
      | Some (pos, len, width, second) \<Rightarrow>
          \<lparr>sp_position = step + pos, sp_width = width, sp_segment = take pos suffix, sp_second = second\<rparr>
          # df_parse (drop (pos + len) suffix) (step + pos + width))"
  by pat_completeness auto
termination
  by (relation "measure (\<lambda>(suffix, step). length suffix)") (auto dest: regex_search_nonempty)

declare df_parse.simps [simp del]

record date_formatter =
  raw_format_string :: string
  specifiers :: "specifier list"

definition DateFormatter_new :: "string \<Rightarrow> date_formatter" where
  "DateFormatter_new format_string = \<lparr>raw_format_string = format_string, specifiers = df_parse format_string 0\<rparr>"

section \<open>Formatting\<close>

text \<open>The offsets are \<open>int32_t\<close>: a length is converted to one by keeping its lower 32 bits, and a sum that leaves the
  range is undefined.\<close>

definition to_int32 :: "int \<Rightarrow> int" where
  "to_int32 n = signed_take_bit 31 n"

definition add_int32 :: "int \<Rightarrow> int \<Rightarrow> int result" where
  "add_int32 a b = (if - (2 ^ 31) \<le> a + b \<and> a + b < 2 ^ 31 then Inr (a + b) else Inl Undefined_behaviour)"

text \<open>\<open>fromTimeAndPrepareSpecifierOffsets\<close>: the text with question marks for the fractions, and the offsets.\<close>

fun prepare_offsets :: "time_lib \<Rightarrow> int \<Rightarrow> string \<Rightarrow> int \<Rightarrow> specifier list \<Rightarrow> (string \<times> int list) result" where
  "prepare_offsets lib time seconds_str previous [] = Inr ([], [])"
| "prepare_offsets lib time seconds_str previous (sp # sps) =
     (let current_format = FormatTime lib (sp_segment sp) (time * ns_per_s);
          offset = to_int32 (int (length current_format) + (if sp_second sp then int (length seconds_str) - 2 else 0)
                   - int (length (sp_segment sp)))
      in res_bind (add_int32 previous offset) (\<lambda>next.
         res_bind (prepare_offsets lib time seconds_str next sps) (\<lambda>(rest, offsets).
         Inr (current_format @ (if sp_second sp then seconds_str else replicate (sp_width sp) (CHR ''?'')) @ rest,
              next # offsets))))"

record formatted =
  fmt_str :: string
  fmt_epoch_time_seconds :: int
  fmt_offsets :: "int list"

record cached_time =
  seconds_length :: nat
  formatted :: "string \<rightharpoonup> formatted"

definition cached_time_new :: cached_time where
  "cached_time_new = \<lparr>seconds_length = 0, formatted = Map.empty\<rparr>"

text \<open>\<open>std::string::replace\<close> with a position that may be out of range.\<close>

definition string_replace :: "string \<Rightarrow> int \<Rightarrow> nat \<Rightarrow> string \<Rightarrow> string result" where
  "string_replace s pos n new =
     (if pos < 0 \<or> pos > int (length s) then Inl Out_of_range
      else Inr (take (nat pos) s @ new @ drop (nat pos + n) s))"

fun replace_fractions :: "specifier list \<Rightarrow> int list \<Rightarrow> string \<Rightarrow> nat \<Rightarrow> string \<Rightarrow> string result" where
  "replace_fractions (sp # sps) (off # offs) nanoseconds sl s =
     (if sp_width sp > 0 \<and> \<not> sp_second sp
      then res_bind (substr nanoseconds sl (Some (sp_width sp))) (\<lambda>digits.
           res_bind (string_replace s (int (sp_position sp) + off) (sp_width sp) digits) (\<lambda>s1.
           replace_fractions sps offs nanoseconds sl s1))
      else replace_fractions sps offs nanoseconds sl s)"
| "replace_fractions [] offs nanoseconds sl s = Inr s"
| "replace_fractions (sp # sps) [] nanoseconds sl s = Inl Out_of_range"

text \<open>What is put into the cache, and \<open>fromTime\<close>.\<close>

definition format_fresh :: "time_lib \<Rightarrow> specifier list \<Rightarrow> int \<Rightarrow> formatted result" where
  "format_fresh lib sps epoch_time_seconds =
     res_bind (prepare_offsets lib epoch_time_seconds (format_int lib epoch_time_seconds) 0 sps) (\<lambda>(str, offsets).
       Inr \<lparr>fmt_str = str, fmt_epoch_time_seconds = epoch_time_seconds, fmt_offsets = offsets\<rparr>)"

definition remove_expired :: "int \<Rightarrow> (string \<rightharpoonup> formatted) \<Rightarrow> (string \<rightharpoonup> formatted)" where
  "remove_expired epoch_time_seconds m =
     (\<lambda>k. case m k of None \<Rightarrow> None
        | Some f \<Rightarrow> if fmt_epoch_time_seconds f \<noteq> epoch_time_seconds then None else Some f)"

definition refresh_cache :: "time_lib \<Rightarrow> date_formatter \<Rightarrow> int \<Rightarrow> cached_time \<Rightarrow> cached_time result" where
  "refresh_cache lib df epoch_time_seconds c =
     (if (case formatted c (raw_format_string df) of
            Some item \<Rightarrow> fmt_epoch_time_seconds item \<noteq> epoch_time_seconds | None \<Rightarrow> True)
      then res_bind (format_fresh lib (specifiers df) epoch_time_seconds) (\<lambda>fresh.
             Inr \<lparr>seconds_length = length (format_int lib epoch_time_seconds),
                  formatted = (remove_expired epoch_time_seconds (formatted c))(raw_format_string df \<mapsto> fresh)\<rparr>)
      else Inr c)"

definition pad_nanoseconds :: "string \<Rightarrow> string" where
  "pad_nanoseconds s = (if length s < 10 then replicate (10 - length s) (CHR ''0'') @ s else s)"

definition df_fromTime :: "time_lib \<Rightarrow> date_formatter \<Rightarrow> int \<Rightarrow> cached_time \<Rightarrow> string result \<times> cached_time" where
  "df_fromTime lib df time c =
     (case refresh_cache lib df (duration_seconds time) c of
        Inl e \<Rightarrow> (Inl e, c)
      | Inr c1 \<Rightarrow>
          let f = the (formatted c1 (raw_format_string df))
          in (replace_fractions (specifiers df) (fmt_offsets f) (pad_nanoseconds (format_int lib time))
                (seconds_length c1) (fmt_str f), c1))"

text \<open>\<open>clock\<close> is the time source.\<close>

definition df_now :: "time_lib \<Rightarrow> date_formatter \<Rightarrow> ('e \<Rightarrow> int) \<Rightarrow> 'e \<Rightarrow> cached_time \<Rightarrow> string result \<times> cached_time" where
  "df_now lib df clock e c = df_fromTime lib df (clock e) c"

section \<open>The access log\<close>

definition getDefaultDateFormat :: string where
  "getDefaultDateFormat = ''%Y-%m-%dT%H:%M:%E3SZ''"

record access_log_cache =
  al_epoch_time_seconds :: int
  al_formatted_time :: string

definition access_log_cache_new :: access_log_cache where
  "access_log_cache_new = \<lparr>al_epoch_time_seconds = 0, al_formatted_time = []\<rparr>"

definition digit_char :: "nat \<Rightarrow> char" where
  "digit_char d = char_of (48 + d)"

text \<open>The three digits of a formatted time are overwritten; the count of milliseconds is converted to \<open>uint32_t\<close>.\<close>

definition put_millis :: "int \<Rightarrow> string \<Rightarrow> string" where
  "put_millis ms s =
     (let offset = length s - 4; msec = (of_int (ms - truncating_div ms 1000 * 1000) :: u32);
          s1 = s[offset := digit_char (unat (msec div 100))]; msec1 = msec mod 100;
          s2 = s1[offset + 1 := digit_char (unat (msec1 div 10))]; msec2 = msec1 mod 10
      in s2[offset + 2 := digit_char (unat msec2)])"

definition access_log_fromTime :: "time_lib \<Rightarrow> int \<Rightarrow> access_log_cache \<Rightarrow> string \<times> access_log_cache" where
  "access_log_fromTime lib system_time c =
     (let epoch_time_ms = duration_milliseconds system_time;
          epoch_time_seconds = truncating_div epoch_time_ms 1000;
          c1 = (if al_formatted_time c = [] \<or> al_epoch_time_seconds c \<noteq> epoch_time_seconds
                then \<lparr>al_epoch_time_seconds = epoch_time_seconds,
                      al_formatted_time = FormatTime lib getDefaultDateFormat system_time\<rparr>
                else c\<lparr>al_formatted_time := put_millis epoch_time_ms (al_formatted_time c)\<rparr>)
      in (al_formatted_time c1, c1))"

section \<open>Dates\<close>

definition timePointValid :: "int \<Rightarrow> bool" where
  "timePointValid time_point = (duration_milliseconds time_point \<noteq> 0)"

text \<open>The cast to \<open>duration<uint64_t, std::milli>\<close> divides in \<open>uint64_t\<close>.\<close>

definition nowToMilliseconds :: "int \<Rightarrow> u64" where
  "nowToMilliseconds now = of_int now div 1000000"

definition nowToSeconds :: "int \<Rightarrow> u64" where
  "nowToSeconds now = of_int (duration_seconds now)"

section \<open>Digits\<close>

text \<open>The last \<open>k\<close> decimal digits of a number.\<close>

fun pad_digits :: "nat \<Rightarrow> nat \<Rightarrow> string" where
  "pad_digits 0 n = []"
| "pad_digits (Suc k) n = pad_digits k (n div 10) @ [''0123456789'' ! (n mod 10)]"

lemma pad_digits_numeral:
  "pad_digits (numeral k) n = pad_digits (pred_numeral k) (n div 10) @ [''0123456789'' ! (n mod 10)]"
  using pad_digits.simps(2) [of "pred_numeral k" n] by (simp only: numeral_eq_Suc [symmetric])

lemma length_pad_digits [simp]: "length (pad_digits k n) = k"
  by (induction k arbitrary: n) simp_all

lemma decimal_split: "10 ^ k \<le> n \<Longrightarrow> decimal n = decimal (n div 10 ^ k) @ pad_digits k n"
proof (induction k arbitrary: n)
  case (Suc k)
  have le: "10 ^ k \<le> n div 10" using Suc.prems by (simp add: less_eq_div_iff_mult_less_eq mult.commute)
  then have "n div 10 \<noteq> 0" using less_le_trans [of 0 "10 ^ k" "n div 10"] by simp
  then have "decimal n = decimal (n div 10) @ [''0123456789'' ! (n mod 10)]" by (subst decimal_step) simp
  also have "decimal (n div 10) = decimal (n div 10 div 10 ^ k) @ pad_digits k (n div 10)" by (rule Suc.IH [OF le])
  also have "n div 10 div 10 ^ k = n div 10 ^ Suc k" by (simp add: div_mult2_eq)
  finally show ?case by simp
qed simp

lemma decimal_short: "n < 10 ^ Suc k \<Longrightarrow> length (decimal n) \<le> Suc k \<and> pad_digits (Suc k) n = replicate (Suc k - length (decimal n)) (CHR ''0'') @ decimal n"
proof (induction k arbitrary: n)
  case 0
  then show ?case by (subst (1 2 3) decimal_step) simp
next
  case (Suc k)
  have lt: "n div 10 < 10 ^ Suc k" using Suc.prems by (simp add: div_less_iff_less_mult mult.commute)
  note ih = Suc.IH [OF lt]
  show ?case
  proof (cases "n div 10 = 0")
    case True
    have "pad_digits (Suc k) 0 = replicate (Suc k) (CHR ''0'')"
      using ih True by (subst (asm) (1 2 3) decimal_step) (simp add: replicate_append_same)
    then show ?thesis using True by (subst (1 2 3) decimal_step) simp
  next
    case False
    then have d: "decimal n = decimal (n div 10) @ [''0123456789'' ! (n mod 10)]" by (subst decimal_step) simp
    show ?thesis unfolding d pad_digits.simps(2) [of "Suc k"] using ih by simp
  qed
qed

text \<open>The padded count of nanoseconds is the seconds followed by nine digits.\<close>

lemma pad_nanoseconds_split:
  "pad_nanoseconds (decimal n) = decimal (n div 10 ^ 9) @ pad_digits 9 n"
proof (cases "n < 10 ^ 9")
  case True
  have short: "length (decimal n) \<le> 9" "pad_digits 9 n = replicate (9 - length (decimal n)) (CHR ''0'') @ decimal n"
    using decimal_short [of n 8] True by simp_all
  have "decimal 0 = ''0''" by (subst decimal_step) simp
  moreover have "10 - length (decimal n) = Suc (9 - length (decimal n))" using short(1) by simp
  ultimately show ?thesis
    using short True by (simp add: pad_nanoseconds_def)
next
  case False
  then have split: "decimal n = decimal (n div 10 ^ 9) @ pad_digits 9 n" by (intro decimal_split) simp
  have "decimal (n div 10 ^ 9) \<noteq> []" by (subst decimal_step) simp
  then have "10 \<le> length (decimal n)" unfolding split by (cases "decimal (n div 10 ^ 9)") simp_all
  then have "pad_nanoseconds (decimal n) = decimal n" by (simp add: pad_nanoseconds_def)
  then show ?thesis unfolding split [symmetric] .
qed


section \<open>What a formatter should print\<close>

function render :: "time_lib \<Rightarrow> int \<Rightarrow> string \<Rightarrow> string" where
  "render lib time s =
     (let second = truncating_div time ns_per_s in
      case regex_search s of
        None \<Rightarrow> if s \<noteq> [] then FormatTime lib s (second * ns_per_s) else []
      | Some (pos, len, width, is_second) \<Rightarrow>
          FormatTime lib (take pos s) (second * ns_per_s)
          @ (if is_second then decimal (nat second) else take width (pad_digits 9 (nat time)))
          @ render lib time (drop (pos + len) s))"
  by pat_completeness auto
termination
  by (relation "measure (\<lambda>(lib, time, s). length s)") (auto dest: regex_search_nonempty)

declare render.simps [simp del]

text \<open>The same over the specifiers of a parsed format, with any text for the seconds and the fraction.\<close>

fun rendered :: "time_lib \<Rightarrow> int \<Rightarrow> string \<Rightarrow> string \<Rightarrow> specifier list \<Rightarrow> string" where
  "rendered lib second seconds_str fraction [] = []"
| "rendered lib second seconds_str fraction (sp # sps) =
     FormatTime lib (sp_segment sp) (second * ns_per_s)
     @ (if sp_second sp then seconds_str else take (sp_width sp) fraction)
     @ rendered lib second seconds_str fraction sps"

lemma rendered_df_parse:
  "rendered lib (truncating_div time ns_per_s) (decimal (nat (truncating_div time ns_per_s))) (pad_digits 9 (nat time))
     (df_parse s step) = render lib time s"
proof (induction s step rule: df_parse.induct)
  case (1 s step)
  show ?case
  proof (cases "regex_search s")
    case None
    then show ?thesis by (simp add: df_parse.simps [of s] render.simps [of _ _ s] Let_def)
  next
    case (Some m)
    obtain pos len width second where m: "m = (pos, len, width, second)" by (cases m) auto
    show ?thesis
      using 1 [OF Some [unfolded m] refl refl refl] Some
      by (simp add: m df_parse.simps [of s] render.simps [of _ _ s] Let_def)
  qed
qed

text \<open>Each specifier starts where the one before it ended, after its own segment.\<close>

fun placed :: "nat \<Rightarrow> specifier list \<Rightarrow> bool" where
  "placed step [] = True"
| "placed step (sp # sps) =
     (if sp_width sp = 0 then sps = [] \<and> \<not> sp_second sp
      else sp_position sp = step + length (sp_segment sp) \<and> sp_width sp \<le> 9
        \<and> (sp_second sp \<longrightarrow> sp_width sp = 2) \<and> placed (sp_position sp + sp_width sp) sps)"

lemma placed_df_parse: "placed step (df_parse s step)"
proof (induction s step rule: df_parse.induct)
  case (1 s step)
  show ?case
  proof (cases "regex_search s")
    case None
    then show ?thesis by (simp add: df_parse.simps [of s])
  next
    case (Some m)
    obtain pos len width second where m: "m = (pos, len, width, second)" by (cases m) auto
    then have "pos + len \<le> length s" "0 < width" "width \<le> 9" "second \<longrightarrow> width = 2" "df_parse s step =
        \<lparr>sp_position = step + pos, sp_width = width, sp_segment = take pos s, sp_second = second\<rparr>
        # df_parse (drop (pos + len) s) (step + pos + width)"
      using regex_search_bounds [of s pos len width second] Some by (simp_all add: df_parse.simps [of s step])
    then show ?thesis using 1 [OF Some [unfolded m] refl refl refl] by simp
  qed
qed

lemma string_replace_at:
  "string_replace (X @ replicate w c @ Y) (int (length X)) w new = Inr (X @ new @ Y)"
  by (simp add: string_replace_def)

text \<open>The same without bounds on the offsets, and where the two agree: neither the format nor what is printed is too long.\<close>

fun ideal_offsets :: "time_lib \<Rightarrow> int \<Rightarrow> string \<Rightarrow> int \<Rightarrow> specifier list \<Rightarrow> string \<times> int list" where
  "ideal_offsets lib time seconds_str previous [] = ([], [])"
| "ideal_offsets lib time seconds_str previous (sp # sps) =
     (let current_format = FormatTime lib (sp_segment sp) (time * ns_per_s);
          offset = int (length current_format) + (if sp_second sp then int (length seconds_str) - 2 else 0)
                   - int (length (sp_segment sp));
          (rest, offsets) = ideal_offsets lib time seconds_str (previous + offset) sps
      in (current_format @ (if sp_second sp then seconds_str else replicate (sp_width sp) (CHR ''?'')) @ rest,
          (previous + offset) # offsets))"

fun format_length :: "specifier list \<Rightarrow> nat" where
  "format_length [] = 0"
| "format_length (sp # sps) = length (sp_segment sp) + (if sp_second sp then 2 else 0) + format_length sps"

lemma format_length_df_parse: "format_length (df_parse s step) \<le> length s"
proof (induction s step rule: df_parse.induct)
  case (1 s step)
  show ?case
  proof (cases "regex_search s")
    case None
    then show ?thesis by (simp add: df_parse.simps [of s])
  next
    case (Some m)
    obtain pos len width second where m: "m = (pos, len, width, second)" by (cases m) auto
    have "format_length (df_parse (drop (pos + len) s) (step + pos + width)) \<le> length (drop (pos + len) s)"
      using 1 [OF Some [unfolded m] refl refl refl] .
    then show ?thesis
      using regex_search_bounds [of s pos len width second] Some m by (auto simp: df_parse.simps [of s step])
  qed
qed

lemma to_int32_id: "- (2 ^ 31) \<le> n \<Longrightarrow> n < 2 ^ 31 \<Longrightarrow> to_int32 n = n"
  by (simp add: to_int32_def signed_take_bit_int_eq_self)

lemma prepare_offsets_ideal:
  assumes "int (format_length sps) \<le> 2 ^ 31" and "int (length (rendered lib time ss fraction sps)) < 2 ^ 31"
    and "- (2 ^ 31) \<le> previous - int (format_length sps)"
    and "previous + int (length (rendered lib time ss fraction sps)) < 2 ^ 31"
  shows "prepare_offsets lib time ss previous sps = Inr (ideal_offsets lib time ss previous sps)"
  using assms
proof (induction sps arbitrary: previous)
  case (Cons sp sps)
  define cur where "cur = FormatTime lib (sp_segment sp) (time * ns_per_s)"
  define off where "off = int (length cur) + (if sp_second sp then int (length ss) - 2 else 0) - int (length (sp_segment sp))"
  let ?r = "int (length (rendered lib time ss fraction sps))"
  have up: "off \<le> int (length (rendered lib time ss fraction (sp # sps))) - ?r"
    by (simp add: off_def cur_def)
  have down: "- (int (format_length (sp # sps)) - int (format_length sps)) \<le> off" by (simp add: off_def)
  have off: "to_int32 off = off"
    using up down Cons.prems(1,2) by (intro to_int32_id) linarith+
  have sum: "add_int32 previous off = Inr (previous + off)"
    using up down Cons.prems(3,4) unfolding add_int32_def by (intro if_P conjI) linarith+
  have "int (format_length sps) \<le> 2 ^ 31" using Cons.prems(1) by simp
  moreover have "?r < 2 ^ 31" using Cons.prems(2) by simp
  moreover have "- (2 ^ 31) \<le> (previous + off) - int (format_length sps)" using down Cons.prems(3) by linarith
  moreover have "previous + off + ?r < 2 ^ 31" using up Cons.prems(4) by linarith
  ultimately have "prepare_offsets lib time ss (previous + off) sps = Inr (ideal_offsets lib time ss (previous + off) sps)"
    by (rule Cons.IH)
  then show ?case
    using off sum by (simp add: Let_def cur_def [symmetric] off_def [symmetric] case_prod_beta del: res_bind_def)
qed simp

text \<open>What the theorems below ask of a format: it and what it prints for the time are shorter than \<open>2 ^ 31\<close> characters.\<close>

definition fits_int32 :: "time_lib \<Rightarrow> int \<Rightarrow> string \<Rightarrow> bool" where
  "fits_int32 lib time s \<longleftrightarrow> length s < 2 ^ 31 \<and> length (render lib time s) < 2 ^ 31"

text \<open>The offsets put every fraction over its own question marks.\<close>

lemma replace_fractions_rendered:
  assumes "placed step sps" and "int (length X) = int step + previous" and "length fraction = 9"
    and "ideal_offsets lib time ss previous sps = (template, offsets)"
  shows "replace_fractions sps offsets (ss @ fraction) (length ss) (X @ template)
         = Inr (X @ rendered lib time ss fraction sps)"
  using assms
proof (induction sps arbitrary: step X previous template offsets)
  case Nil
  then show ?case by simp
next
  case (Cons sp sps)
  show ?case
  proof (cases "sp_width sp = 0")
    case True
    then show ?thesis using Cons.prems by (auto simp: Let_def)
  next
    case False
    define cur where "cur = FormatTime lib (sp_segment sp) (time * ns_per_s)"
    define off where "off = int (length cur) + (if sp_second sp then int (length ss) - 2 else 0) - int (length (sp_segment sp))"
    define piece where "piece = (if sp_second sp then ss else replicate (sp_width sp) (CHR ''?''))"
    define filled where "filled = (if sp_second sp then ss else take (sp_width sp) fraction)"
    obtain t os where rest: "ideal_offsets lib time ss (previous + off) sps = (t, os)" by fastforce
    have tmpl: "template = cur @ piece @ t" "offsets = (previous + off) # os"
      using Cons.prems(4) rest by (auto simp: Let_def cur_def off_def piece_def)
    have pl: "sp_position sp = step + length (sp_segment sp)" "sp_width sp \<le> 9" "sp_second sp \<longrightarrow> sp_width sp = 2"
      "placed (sp_position sp + sp_width sp) sps" using Cons.prems(1) False by auto
    have len: "int (length (X @ cur @ filled)) = int (sp_position sp + sp_width sp) + (previous + off)"
      using pl(1-3) False Cons.prems(2,3) by (auto simp: filled_def off_def)
    note ih = Cons.IH [OF pl(4) len Cons.prems(3) rest]
    have step: "replace_fractions (sp # sps) offsets (ss @ fraction) (length ss) (X @ template)
        = replace_fractions sps os (ss @ fraction) (length ss) ((X @ cur @ filled) @ t)"
    proof (cases "sp_width sp > 0 \<and> \<not> sp_second sp")
      case True
      have pos: "int (sp_position sp) + (previous + off) = int (length (X @ cur))"
        using True pl(1) Cons.prems(2) by (simp add: off_def)
      show ?thesis
        using True string_replace_at [of "X @ cur" "sp_width sp" "CHR ''?''" t "take (sp_width sp) fraction"]
        by (simp add: tmpl pos piece_def filled_def substr_def)
    next
      case False
      then show ?thesis by (auto simp: tmpl piece_def filled_def)
    qed
    show ?thesis unfolding step ih by (simp add: cur_def filled_def)
  qed
qed


section \<open>The cache\<close>

text \<open>All entries are of one second, and each is what formatting afresh gives.\<close>

definition cache_ok :: "time_lib \<Rightarrow> cached_time \<Rightarrow> bool" where
  "cache_ok lib c \<longleftrightarrow>
     formatted c = Map.empty
     \<or> (\<exists>t. seconds_length c = length (format_int lib t)
          \<and> (\<forall>k f. formatted c k = Some f \<longrightarrow> format_fresh lib (df_parse k 0) t = Inr f))"

lemma fmt_epoch_format_fresh: "format_fresh lib sps t = Inr f \<Longrightarrow> fmt_epoch_time_seconds f = t"
  by (auto simp: format_fresh_def res_bind_Inr_iff)

lemma cache_ok_new [simp]: "cache_ok lib cached_time_new"
  by (simp add: cache_ok_def cached_time_new_def)

lemma cache_ok_entry:
  assumes "cache_ok lib c" and "formatted c k = Some f" and "fmt_epoch_time_seconds f = t"
  shows "seconds_length c = length (format_int lib t)
    \<and> (\<forall>k f. formatted c k = Some f \<longrightarrow> format_fresh lib (df_parse k 0) t = Inr f)"
proof -
  obtain u where u: "seconds_length c = length (format_int lib u)"
    "\<forall>k f. formatted c k = Some f \<longrightarrow> format_fresh lib (df_parse k 0) u = Inr f"
    using assms(1,2) unfolding cache_ok_def by auto
  moreover from u(2) assms(2,3) have "u = t" using fmt_epoch_format_fresh by blast
  ultimately show ?thesis by simp
qed

lemma refresh_cache_ok:
  assumes ok: "cache_ok lib c" and df: "df = DateFormatter_new k" and fresh: "format_fresh lib (df_parse k 0) t = Inr f0"
  obtains c1 where "refresh_cache lib df t c = Inr c1" "cache_ok lib c1" "formatted c1 k = Some f0"
    "seconds_length c1 = length (format_int lib t)"
proof -
  have raw: "raw_format_string df = k" "specifiers df = df_parse k 0" by (simp_all add: df DateFormatter_new_def)
  show ?thesis
  proof (cases "\<exists>f. formatted c k = Some f \<and> fmt_epoch_time_seconds f = t")
    case True
    then obtain f where f: "formatted c k = Some f" "fmt_epoch_time_seconds f = t" by blast
    then have "refresh_cache lib df t c = Inr c" by (simp add: refresh_cache_def raw)
    then show ?thesis using that f cache_ok_entry [OF ok f] ok fresh by auto
  next
    case False
    let ?c = "\<lparr>seconds_length = length (format_int lib t),
        formatted = (remove_expired t (formatted c))(k \<mapsto> f0)\<rparr>"
    have "refresh_cache lib df t c = Inr ?c"
      using False fresh by (cases "formatted c k") (simp_all add: refresh_cache_def raw)
    moreover have "format_fresh lib (df_parse k' 0) t = Inr f" if "remove_expired t (formatted c) k' = Some f" for k' f
      using that cache_ok_entry [OF ok, of k' f t] unfolding remove_expired_def
      by (cases "formatted c k'") (auto split: if_splits)
    then have "cache_ok lib ?c" using fresh unfolding cache_ok_def by auto
    ultimately show ?thesis by (intro that [of ?c]) simp_all
  qed
qed

text \<open>Calls of any formatters, in any order, on one thread.\<close>

fun df_calls :: "time_lib \<Rightarrow> (string \<times> int) list \<Rightarrow> cached_time \<Rightarrow> string result list" where
  "df_calls lib [] c = []"
| "df_calls lib ((format_string, time) # calls) c =
     (let (r, c1) = df_fromTime lib (DateFormatter_new format_string) time c in r # df_calls lib calls c1)"

lemma df_fromTime_render:
  assumes lib: "format_int_contract lib" and ok: "cache_ok lib c" and time: "0 \<le> time" and fits: "fits_int32 lib time k"
  shows "fst (df_fromTime lib (DateFormatter_new k) time c) = Inr (render lib time k)"
    and "cache_ok lib (snd (df_fromTime lib (DateFormatter_new k) time c))"
proof -
  define n where "n = nat time"
  have n: "time = int n" using time by (simp add: n_def)
  define t where "t = duration_seconds time"
  have t: "t = int (n div 10 ^ 9)" "t = truncating_div time ns_per_s"
    by (simp_all add: t_def duration_seconds_def n truncating_div_def ns_per_s_def zdiv_int)
  have secs: "format_int lib t = decimal (n div 10 ^ 9)"
    using lib unfolding t(1) format_int_contract_def by blast
  have nano: "pad_nanoseconds (format_int lib time) = decimal (n div 10 ^ 9) @ pad_digits 9 n"
    using lib pad_nanoseconds_split [of n] by (simp add: n format_int_contract_def)
  have rend: "rendered lib t (format_int lib t) (pad_digits 9 n) (df_parse k 0) = render lib time k"
    using rendered_df_parse [of lib time k 0] unfolding t(2) [symmetric] secs by (simp add: t(1) n)
  obtain tmpl offs where p: "ideal_offsets lib t (format_int lib t) 0 (df_parse k 0) = (tmpl, offs)" by fastforce
  have "int (format_length (df_parse k 0)) < 2 ^ 31" "int (length (render lib time k)) < 2 ^ 31"
    using fits format_length_df_parse [of k 0] by (simp_all add: fits_int32_def)
  then have "prepare_offsets lib t (format_int lib t) 0 (df_parse k 0) = Inr (tmpl, offs)"
    unfolding p [symmetric] by (intro prepare_offsets_ideal [where fraction = "pad_digits 9 n"]) (simp_all add: rend)
  then have "format_fresh lib (df_parse k 0) t = Inr \<lparr>fmt_str = tmpl, fmt_epoch_time_seconds = t, fmt_offsets = offs\<rparr>"
    by (simp add: format_fresh_def)
  then obtain c1 where c1: "refresh_cache lib (DateFormatter_new k) t c = Inr c1" "cache_ok lib c1"
    "formatted c1 k = Some \<lparr>fmt_str = tmpl, fmt_epoch_time_seconds = t, fmt_offsets = offs\<rparr>"
    "seconds_length c1 = length (format_int lib t)"
    by (rule refresh_cache_ok [OF ok refl])
  have "replace_fractions (df_parse k 0) offs (format_int lib t @ pad_digits 9 n) (length (format_int lib t)) ([] @ tmpl)
      = Inr ([] @ rendered lib t (format_int lib t) (pad_digits 9 n) (df_parse k 0))"
    by (rule replace_fractions_rendered [where step = 0 and previous = 0]) (use p placed_df_parse in simp_all)
  then show "fst (df_fromTime lib (DateFormatter_new k) time c) = Inr (render lib time k)"
    using c1 nano rend by (simp add: df_fromTime_def t_def [symmetric] DateFormatter_new_def Let_def secs)
  show "cache_ok lib (snd (df_fromTime lib (DateFormatter_new k) time c))"
    using c1 by (simp add: df_fromTime_def t_def [symmetric] Let_def)
qed

lemma df_calls_render:
  assumes "format_int_contract lib" and "cache_ok lib c" and "\<forall>(k, time) \<in> set calls. 0 \<le> time \<and> fits_int32 lib time k"
  shows "df_calls lib calls c = map (\<lambda>(k, time). Inr (render lib time k)) calls"
  using assms(2,3)
proof (induction calls arbitrary: c)
  case (Cons call calls)
  obtain k time where call: "call = (k, time)" by fastforce
  show ?case
    using Cons.IH [of "snd (df_fromTime lib (DateFormatter_new k) time c)"] Cons.prems
      df_fromTime_render [OF assms(1), of c time k]
    by (simp add: call case_prod_beta)
qed simp


section \<open>The access log cache\<close>

text \<open>The default format is a text for the second, three digits for the milliseconds and the letter Z.\<close>

definition default_format_contract :: "time_lib \<Rightarrow> (int \<Rightarrow> string) \<Rightarrow> bool" where
  "default_format_contract lib prefix \<longleftrightarrow>
     (\<forall>ns \<ge> 0. FormatTime lib getDefaultDateFormat ns
        = prefix (ns div 1000000000) @ pad_digits 3 (nat (ns div 1000000)) @ ''Z'')"

definition al_ok :: "(int \<Rightarrow> string) \<Rightarrow> access_log_cache \<Rightarrow> bool" where
  "al_ok prefix c \<longleftrightarrow>
     al_formatted_time c = []
     \<or> (\<exists>digits. length digits = 3 \<and> al_formatted_time c = prefix (al_epoch_time_seconds c) @ digits @ ''Z'')"

lemma digit_char_nth: "d < 10 \<Longrightarrow> digit_char d = ''0123456789'' ! d"
proof -
  assume "d < 10"
  then have "d = 0 \<or> d = 1 \<or> d = 2 \<or> d = 3 \<or> d = 4 \<or> d = 5 \<or> d = 6 \<or> d = 7 \<or> d = 8 \<or> d = 9" by arith
  then show ?thesis by (elim disjE) (simp_all add: digit_char_def char_of_eq_iff)
qed

lemma put_millis_digits:
  assumes "length digits = 3"
  shows "put_millis (int m) (X @ digits @ ''Z'') = X @ pad_digits 3 m @ ''Z''"
proof -
  obtain a b c where d: "digits = [a, b, c]" using assms by (auto simp: numeral_3_eq_3 length_Suc_conv)
  define r where "r = m mod 1000"
  have "int m - truncating_div (int m) 1000 * 1000 = int r"
    by (simp add: truncating_div_def r_def zmod_int minus_div_mult_eq_mod)
  then have w: "(of_int (int m - truncating_div (int m) 1000 * 1000) :: u32) = of_nat r" by simp
  have r: "r < 1000" by (simp add: r_def)
  have u: "unat (of_nat r :: u32) = r" using r by (simp add: unat_of_nat take_bit_nat_eq_self)
  have "m mod 1000 = 100 * (m div 100 mod 10) + m mod 100" using mod_mult2_eq [of m 100 10] by simp
  moreover have "m mod 100 = 10 * (m div 10 mod 10) + m mod 10" using mod_mult2_eq [of m 10 10] by simp
  ultimately have parts: "r = 100 * (m div 10 div 10 mod 10) + (10 * (m div 10 mod 10) + m mod 10)"
    by (simp add: r_def div_mult2_eq [symmetric])
  have rest: "10 * (m div 10 mod 10) + m mod 10 < 100" using mod_less_divisor [of 10 m] mod_less_divisor [of 10 "m div 10"] by linarith
  have n: "r div 100 = m div 10 div 10 mod 10" "r mod 100 div 10 = m div 10 mod 10" "r mod 100 mod 10 = m mod 10"
    using rest by (simp_all add: parts)
  have q: "unat ((of_nat r :: u32) div 100) = m div 10 div 10 mod 10" "unat ((of_nat r :: u32) mod 100 div 10) = m div 10 mod 10"
      "unat ((of_nat r :: u32) mod 100 mod 10) = m mod 10"
    using n by (simp_all add: unat_div unat_mod u)
  show ?thesis
    unfolding put_millis_def w Let_def q
    by (simp add: d digit_char_nth list_update_append numeral_3_eq_3)
qed

fun access_log_calls :: "time_lib \<Rightarrow> int list \<Rightarrow> access_log_cache \<Rightarrow> string list" where
  "access_log_calls lib [] c = []"
| "access_log_calls lib (time # instants) c =
     (let (r, c1) = access_log_fromTime lib time c in r # access_log_calls lib instants c1)"

lemma access_log_step:
  assumes "default_format_contract lib prefix" and ok: "al_ok prefix c" and time: "0 \<le> time"
  shows "fst (access_log_fromTime lib time c) = FormatTime lib getDefaultDateFormat time"
    and "al_ok prefix (snd (access_log_fromTime lib time c))"
proof -
  define m where "m = nat (time div 1000000)"
  have m: "duration_milliseconds time = int m" "truncating_div (int m) 1000 = time div 1000000000"
    using time by (simp_all add: m_def duration_milliseconds_def truncating_div_def pos_imp_zdiv_nonneg_iff
        zdiv_zmult2_eq [symmetric])
  have fmt: "FormatTime lib getDefaultDateFormat time = prefix (time div 1000000000) @ pad_digits 3 m @ ''Z''"
    using assms(1) time by (simp add: default_format_contract_def m_def)
  have "fst (access_log_fromTime lib time c) = FormatTime lib getDefaultDateFormat time
    \<and> al_ok prefix (snd (access_log_fromTime lib time c))"
  proof (cases "al_formatted_time c = [] \<or> al_epoch_time_seconds c \<noteq> time div 1000000000")
    case True
    then show ?thesis by (auto simp: access_log_fromTime_def Let_def m fmt al_ok_def)
  next
    case False
    then obtain digits where "length digits = 3"
      "al_formatted_time c = prefix (time div 1000000000) @ digits @ ''Z''"
      using ok by (auto simp: al_ok_def)
    then have "put_millis (int m) (al_formatted_time c) = prefix (time div 1000000000) @ pad_digits 3 m @ ''Z''"
      by (simp only: put_millis_digits)
    then show ?thesis using False by (auto simp: access_log_fromTime_def Let_def m fmt al_ok_def)
  qed
  then show "fst (access_log_fromTime lib time c) = FormatTime lib getDefaultDateFormat time"
    and "al_ok prefix (snd (access_log_fromTime lib time c))" by blast+
qed

lemma access_log_calls_eq:
  assumes "default_format_contract lib prefix" and "al_ok prefix c" and "\<forall>time \<in> set instants. 0 \<le> time"
  shows "access_log_calls lib instants c = map (FormatTime lib getDefaultDateFormat) instants"
  using assms(2,3)
proof (induction instants arbitrary: c)
  case (Cons time instants)
  show ?case
    using Cons.IH [of "snd (access_log_fromTime lib time c)"] Cons.prems access_log_step [OF assms(1), of c time]
    by (simp add: case_prod_beta)
qed simp

section \<open>Properties\<close>

text \<open>Property C33. The thread's cache of formatted times never shows: whatever formatters are called on a thread, in whatever order
  and for whatever times since the epoch, every call gives what \<open>render\<close> makes of the format and the time alone
  - each segment printed by \<open>FormatTime\<close>, every \<open>%s\<close> the count of seconds, every \<open>%Nf\<close> the first \<open>N\<close> of the nine
  digits of the nanoseconds - and no replacement is out of range, provided that every format and what it prints are
  shorter than \<open>2 ^ 31\<close> characters: the offsets between the two are \<open>int32_t\<close>.\<close>

theorem formatters_render:
  assumes "format_int_contract lib"
    and "\<forall>(format_string, time) \<in> set calls. 0 \<le> time \<and> fits_int32 lib time format_string"
  shows "df_calls lib calls cached_time_new
         = map (\<lambda>(format_string, time). Inr (render lib time format_string)) calls"
  by (rule df_calls_render [OF assms(1) cache_ok_new assms(2)])

definition sample_time_lib :: time_lib where
  "sample_time_lib =
     \<lparr>FormatTime = (\<lambda>s ns. if s = getDefaultDateFormat
          then ''D'' @ pad_digits 3 (nat (ns div 1000000)) @ ''Z'' else s @ s),
      format_int = (\<lambda>n. decimal (nat n))\<rparr>"

theorem formatters_render_witness:
  "df_calls sample_time_lib [(''a%3fb%sc'', 1500000007), (''%f'', 1000000009)] cached_time_new
   = [Inr ''aa500bb1cc'', Inr ''000000009'']"
proof -
  have contract: "format_int_contract sample_time_lib" by (simp add: format_int_contract_def sample_time_lib_def)
  have r: "render sample_time_lib 1500000007 ''a%3fb%sc'' = ''aa500bb1cc''" "render sample_time_lib 1000000009 ''%f'' = ''000000009''"
    by (simp_all add: render.simps spec_at_def width_digit_def truncating_div_def ns_per_s_def sample_time_lib_def
        getDefaultDateFormat_def decimal_def rev_digits.simps pad_digits_numeral Let_def)
  have "df_calls sample_time_lib [(''a%3fb%sc'', 1500000007), (''%f'', 1000000009)] cached_time_new
      = map (\<lambda>(format_string, time). Inr (render sample_time_lib time format_string))
          [(''a%3fb%sc'', 1500000007), (''%f'', 1000000009)]"
    by (rule formatters_render [OF contract]) (simp add: fits_int32_def r)
  then show ?thesis by (simp add: r)
qed

text \<open>The access log's cache never shows either: with the default format a text for the second, three digits of
  milliseconds and the letter Z, every call for a time since the epoch gives what \<open>FormatTime\<close> would give.\<close>

theorem access_log_cache_transparent:
  assumes "default_format_contract lib prefix" and "\<forall>time \<in> set instants. 0 \<le> time"
  shows "access_log_calls lib instants access_log_cache_new = map (FormatTime lib getDefaultDateFormat) instants"
  by (rule access_log_calls_eq [OF assms(1) _ assms(2)]) (simp add: al_ok_def access_log_cache_new_def)

theorem access_log_cache_transparent_witness:
  "access_log_calls sample_time_lib [1002000000, 1345000000] access_log_cache_new = [''D002Z'', ''D345Z'']"
proof -
  have "default_format_contract sample_time_lib (\<lambda>_. ''D'')" by (simp add: default_format_contract_def sample_time_lib_def)
  then have "access_log_calls sample_time_lib [1002000000, 1345000000] access_log_cache_new
      = map (FormatTime sample_time_lib getDefaultDateFormat) [1002000000, 1345000000]"
    by (rule access_log_cache_transparent) simp
  also have "\<dots> = [''D002Z'', ''D345Z'']" by (simp add: sample_time_lib_def pad_digits_numeral)
  finally show ?thesis .
qed

end
