(* ===== verification/SysCalls.thy ===== *)
theory SysCalls
  imports Address
begin

text \<open>
  \<open>Api::OsSysCallsImpl\<close> (\<open>common/api/posix/OsSysCallsImpl.cpp\<close>, \<open>include/api/OsSysCalls.h\<close> and
  \<open>OsSysCallsCommon.h\<close>) on Linux. The kernel is a parameter: what a call with given arguments returns and does to a
  state, and the \<open>errno\<close> that state has. Data a call only reads is passed as its contents, data it writes as the
  pointer, to a local variable of the method or to an object of the caller.
\<close>

section \<open>The kernel\<close>

datatype pointer = Local string | Object nat

text \<open>The calls, by the names of the C library.\<close>

datatype (plugins only: code size) sys_request =
    Sys_bind int sockaddr_storage u32
  | Sys_chmod string nat
  | Sys_ioctl int nat pointer
  | Sys_close int
  | Sys_writev int pointer int
  | Sys_readv int pointer int
  | Sys_pwrite int "char list" int
  | Sys_pread int pointer nat int
  | Sys_recv int pointer nat int
  | Sys_recvmsg int pointer int
  | Sys_recvmmsg int pointer u32 int pointer
  | Sys_ftruncate int int
  | Sys_mmap pointer nat int int int int
  | Sys_stat string pointer
  | Sys_setsockopt int int int "nat list"
  | Sys_getsockopt int int int pointer pointer
  | Sys_socket int int int
  | Sys_sendmsg int pointer int
  | Sys_getsockname int pointer pointer
  | Sys_gethostname pointer nat
  | Sys_getpeername int pointer pointer
  | Sys_fcntl_getfl int
  | Sys_fcntl_setfl int int
  | Sys_connect int sockaddr_storage u32
  | Sys_open string int
  | Sys_open_mode string int nat
  | Sys_unlink string
  | Sys_linkat int string int string int
  | Sys_mkstemp pointer
  | Sys_shutdown int int
  | Sys_socketpair int int int pointer
  | Sys_listen int int
  | Sys_write int "char list"
  | Sys_dup int
  | Sys_accept4 int pointer pointer int
  | Sys_accept int pointer pointer
  | Sys_getifaddrs pointer
  | Sys_freeifaddrs
  | Sys_getaddrinfo string string pointer pointer
  | Sys_freeaddrinfo pointer

record unix_tcp_info =
  unix_rtt :: u32
  unix_snd_mss :: u32
  unix_snd_cwnd :: u32

record ifaddrs =
  ifa_name :: string
  ifa_flags :: u32
  ifa_addr :: "sockaddr_storage option"

text \<open>\<open>tcp_info_at\<close> and \<open>ifaddrs_at\<close> read what the kernel has put into a local variable of the method.\<close>

record 's kernel =
  sys :: "sys_request \<Rightarrow> 's \<Rightarrow> int \<times> 's"
  sys_errno :: "'s \<Rightarrow> int"
  tcp_info_at :: "'s \<Rightarrow> unix_tcp_info"
  ifaddrs_at :: "'s \<Rightarrow> ifaddrs list"

definition AF_INET_v :: int where "AF_INET_v = 2"
definition AF_INET6_v :: int where "AF_INET6_v = 10"
definition SOCK_STREAM_v :: int where "SOCK_STREAM_v = 1"
definition SOCK_DGRAM_v :: int where "SOCK_DGRAM_v = 2"
definition SOCK_NONBLOCK_v :: int where "SOCK_NONBLOCK_v = 2048"
definition O_NONBLOCK_v :: int where "O_NONBLOCK_v = 2048"
definition IPPROTO_IP_v :: int where "IPPROTO_IP_v = 0"
definition IPPROTO_TCP_v :: int where "IPPROTO_TCP_v = 6"
definition IPPROTO_UDP_v :: int where "IPPROTO_UDP_v = 17"
definition IPPROTO_IPV6_v :: int where "IPPROTO_IPV6_v = 41"
definition IPPROTO_MPTCP_v :: int where "IPPROTO_MPTCP_v = 262"
definition IP_TRANSPARENT_v :: int where "IP_TRANSPARENT_v = 19"
definition IPV6_TRANSPARENT_v :: int where "IPV6_TRANSPARENT_v = 75"
definition TCP_INFO_v :: int where "TCP_INFO_v = 11"
definition UDP_GRO_v :: int where "UDP_GRO_v = 104"
definition UDP_SEGMENT_v :: int where "UDP_SEGMENT_v = 103"
definition EINVAL_v :: int where "EINVAL_v = 22"

definition SOCKET_VALID :: "int \<Rightarrow> bool" where "SOCKET_VALID sock = (sock \<ge> 0)"
definition SOCKET_INVALID :: "int \<Rightarrow> bool" where "SOCKET_INVALID sock = (sock = - 1)"
definition SOCKET_FAILURE :: "int \<Rightarrow> bool" where "SOCKET_FAILURE rc = (rc = - 1)"

section \<open>Results\<close>

record 'a sys_result =
  return_value :: 'a
  errno_value :: int

text \<open>The expression \<open>{rc, rc != -1 ? 0 : errno}\<close> most methods end with.\<close>

definition rc_result :: "'s kernel \<Rightarrow> int \<times> 's \<Rightarrow> int sys_result \<times> 's" where
  "rc_result k = (\<lambda>(rc, s). (\<lparr>return_value = rc, errno_value = (if rc \<noteq> - 1 then 0 else sys_errno k s)\<rparr>, s))"

section \<open>One call each\<close>

definition sys_bind where "sys_bind k fd addr addrlen s = rc_result k (sys k (Sys_bind fd addr addrlen) s)"

definition sys_chmod where "sys_chmod k path mode s = rc_result k (sys k (Sys_chmod (c_str path) mode) s)"

definition sys_ioctl where "sys_ioctl k fd request argp s = rc_result k (sys k (Sys_ioctl fd request argp) s)"

definition sys_close where "sys_close k fd s = rc_result k (sys k (Sys_close fd) s)"

definition sys_writev where "sys_writev k fd iov num_iov s = rc_result k (sys k (Sys_writev fd iov num_iov) s)"

definition sys_readv where "sys_readv k fd iov num_iov s = rc_result k (sys k (Sys_readv fd iov num_iov) s)"

definition sys_pwrite where
  "sys_pwrite k fd buf offset s = rc_result k (sys k (Sys_pwrite fd buf offset) s)"

definition sys_pread where
  "sys_pread k fd buf len offset s = rc_result k (sys k (Sys_pread fd buf len offset) s)"

definition sys_recv where "sys_recv k fd buf len flags s = rc_result k (sys k (Sys_recv fd buf len flags) s)"

definition sys_recvmsg where "sys_recvmsg k fd msg flags s = rc_result k (sys k (Sys_recvmsg fd msg flags) s)"

text \<open>\<open>recvmmsg\<close> gives \<open>errno\<close> whatever the call returned.\<close>

definition sys_recvmmsg where
  "sys_recvmmsg k fd msgvec vlen flags timeout s =
     (let (rc, s1) = sys k (Sys_recvmmsg fd msgvec vlen flags timeout) s
      in (\<lparr>return_value = rc, errno_value = sys_errno k s1\<rparr>, s1))"

definition supportsMmsg :: bool where "supportsMmsg = True"

definition sys_ftruncate where "sys_ftruncate k fd len s = rc_result k (sys k (Sys_ftruncate fd len) s)"

text \<open>The pointer \<open>MAP_FAILED\<close> is \<open>-1\<close>.\<close>

definition sys_mmap where
  "sys_mmap k addr len prot flags fd offset s = rc_result k (sys k (Sys_mmap addr len prot flags fd offset) s)"

definition sys_stat where "sys_stat k pathname buf s = rc_result k (sys k (Sys_stat pathname buf) s)"

definition sys_setsockopt where
  "sys_setsockopt k fd level optname optval s = rc_result k (sys k (Sys_setsockopt fd level optname optval) s)"

definition sys_getsockopt where
  "sys_getsockopt k fd level optname optval optlen s =
     rc_result k (sys k (Sys_getsockopt fd level optname optval optlen) s)"

definition sys_socket where
  "sys_socket k domain type protocol s =
     (let (rc, s1) = sys k (Sys_socket domain type protocol) s
      in (\<lparr>return_value = rc, errno_value = (if SOCKET_VALID rc then 0 else sys_errno k s1)\<rparr>, s1))"

text \<open>\<open>sendmsg\<close> keeps the count of bytes in an \<open>int\<close>.\<close>

definition sys_sendmsg where
  "sys_sendmsg k fd message flags s =
     (let (rc, s1) = sys k (Sys_sendmsg fd message flags) s in rc_result k (sint (of_int rc :: 32 word), s1))"

definition sys_getsockname where
  "sys_getsockname k fd addr addrlen s = rc_result k (sys k (Sys_getsockname fd addr addrlen) s)"

definition sys_gethostname where "sys_gethostname k name len s = rc_result k (sys k (Sys_gethostname name len) s)"

definition sys_getpeername where
  "sys_getpeername k fd addr addrlen s = rc_result k (sys k (Sys_getpeername fd addr addrlen) s)"

definition sys_connect where "sys_connect k fd addr addrlen s = rc_result k (sys k (Sys_connect fd addr addrlen) s)"

definition sys_open where "sys_open k pathname flags s = rc_result k (sys k (Sys_open pathname flags) s)"

definition sys_open_mode where
  "sys_open_mode k pathname flags mode s = rc_result k (sys k (Sys_open_mode pathname flags mode) s)"

definition sys_unlink where "sys_unlink k pathname s = rc_result k (sys k (Sys_unlink pathname) s)"

definition sys_linkat where
  "sys_linkat k olddirfd oldpath newdirfd newpath flags s =
     rc_result k (sys k (Sys_linkat olddirfd oldpath newdirfd newpath flags) s)"

definition sys_mkstemp where "sys_mkstemp k tmplate s = rc_result k (sys k (Sys_mkstemp tmplate) s)"

definition supportsAllPosixFileOperations :: bool where "supportsAllPosixFileOperations = True"

definition sys_shutdown where "sys_shutdown k fd how s = rc_result k (sys k (Sys_shutdown fd how) s)"

definition sys_socketpair where
  "sys_socketpair k domain type protocol sv s = rc_result k (sys k (Sys_socketpair domain type protocol sv) s)"

definition sys_listen where "sys_listen k fd backlog s = rc_result k (sys k (Sys_listen fd backlog) s)"

definition sys_write where "sys_write k fd buf s = rc_result k (sys k (Sys_write fd buf) s)"

definition sys_duplicate where "sys_duplicate k oldfd s = rc_result k (sys k (Sys_dup oldfd) s)"

text \<open>\<open>getaddrinfo\<close> too gives \<open>errno\<close> whatever the call returned.\<close>

definition sys_getaddrinfo where
  "sys_getaddrinfo k node service hints res s =
     (let (rc, s1) = sys k (Sys_getaddrinfo node service hints res) s
      in (\<lparr>return_value = rc, errno_value = sys_errno k s1\<rparr>, s1))"

definition sys_freeaddrinfo where "sys_freeaddrinfo k res s = snd (sys k (Sys_freeaddrinfo res) s)"

section \<open>Several calls each\<close>

definition sys_setsocketblocking where
  "sys_setsocketblocking k fd blocking s =
     (let (flags, s1) = sys k (Sys_fcntl_getfl fd) s in
      if flags = - 1 then (\<lparr>return_value = - 1, errno_value = sys_errno k s1\<rparr>, s1)
      else rc_result k
             (sys k (Sys_fcntl_setfl fd (if blocking then flags AND NOT O_NONBLOCK_v else flags OR O_NONBLOCK_v)) s1))"

definition sys_accept where
  "sys_accept k fd addr addrlen s =
     (let (rc, s1) = sys k (Sys_accept4 fd addr addrlen SOCK_NONBLOCK_v) s in
      if rc \<ge> 0 \<or> sys_errno k s1 \<noteq> EINVAL_v then rc_result k (rc, s1)
      else let (rc, s2) = sys k (Sys_accept fd addr addrlen) s1;
               s3 = (if rc \<ge> 0 then snd (sys_setsocketblocking k rc False s2) else s2)
           in rc_result k (rc, s3))"

record envoy_tcp_info =
  tcpi_rtt :: u32
  tcpi_snd_cwnd :: u32

text \<open>The caller's structure is written only when the call succeeds.\<close>

definition sys_socketTcpInfo where
  "sys_socketTcpInfo k fd tcp_info s =
     (let (result, s1) = sys k (Sys_getsockopt fd IPPROTO_TCP_v TCP_INFO_v (Local ''unix_tcp_info'') (Local ''len'')) s;
          u = tcp_info_at k s1;
          mss = (if unix_snd_mss u > 0 then ucast (unix_snd_mss u) else 1460 :: u64);
          info = (if \<not> SOCKET_FAILURE result
                  then \<lparr>tcpi_rtt = unix_rtt u, tcpi_snd_cwnd = ucast (ucast (unix_snd_cwnd u) * mss)\<rparr>
                  else tcp_info)
      in (\<lparr>return_value = (\<not> SOCKET_FAILURE result),
           errno_value = (if \<not> SOCKET_FAILURE result then 0 else sys_errno k s1)\<rparr>, info, s1))"

section \<open>Probes\<close>

text \<open>Each probe but the last is the initializer of a static local variable.\<close>

definition probe_udp_gro :: "'s kernel \<Rightarrow> 's \<Rightarrow> bool \<times> 's" where
  "probe_udp_gro k s =
     (let (fd, s1) = sys k (Sys_socket AF_INET_v (SOCK_DGRAM_v OR SOCK_NONBLOCK_v) IPPROTO_UDP_v) s in
      if fd < 0 then (False, s1)
      else let (rc, s2) = sys k (Sys_setsockopt fd IPPROTO_UDP_v UDP_GRO_v [1, 0, 0, 0]) s1;
               (_, s3) = sys k (Sys_close fd) s2
           in (rc = 0, s3))"

definition probe_udp_gso :: "'s kernel \<Rightarrow> 's \<Rightarrow> bool \<times> 's" where
  "probe_udp_gso k s =
     (let (fd, s1) = sys k (Sys_socket AF_INET_v (SOCK_DGRAM_v OR SOCK_NONBLOCK_v) IPPROTO_UDP_v) s in
      if fd < 0 then (False, s1)
      else let (rc, s2) = sys k (Sys_getsockopt fd IPPROTO_UDP_v UDP_SEGMENT_v (Local ''optval'') (Local ''optlen'')) s1;
               (_, s3) = sys k (Sys_close fd) s2
           in (0 \<le> rc, s3))"

definition probe_ip_transparent :: "'s kernel \<Rightarrow> 's \<Rightarrow> bool \<times> 's" where
  "probe_ip_transparent k s =
     (let (fd, s1) = sys k (Sys_socket AF_INET_v (SOCK_DGRAM_v OR SOCK_NONBLOCK_v) IPPROTO_UDP_v) s in
      if fd < 0 then (False, s1)
      else let (rc, s2) = sys k (Sys_setsockopt fd IPPROTO_IP_v IP_TRANSPARENT_v [1, 0, 0, 0]) s1;
               (_, s3) = sys k (Sys_close fd) s2
           in if rc \<noteq> 0 then (False, s3)
              else let (fd6, s4) = sys k (Sys_socket AF_INET6_v (SOCK_DGRAM_v OR SOCK_NONBLOCK_v) IPPROTO_UDP_v) s3 in
                if fd6 < 0 then (False, s4)
                else let (rc6, s5) = sys k (Sys_setsockopt fd6 IPPROTO_IPV6_v IPV6_TRANSPARENT_v [1, 0, 0, 0]) s4;
                         (_, s6) = sys k (Sys_close fd6) s5
                     in (rc6 = 0, s6))"

definition supportsMptcp :: "'s kernel \<Rightarrow> 's \<Rightarrow> bool \<times> 's" where
  "supportsMptcp k s =
     (let (fd, s1) = sys k (Sys_socket AF_INET_v SOCK_STREAM_v IPPROTO_MPTCP_v) s in
      if fd < 0 then (False, s1) else (True, snd (sys k (Sys_close fd) s1)))"

record os_statics =
  udp_gro_is_supported :: "bool option"
  udp_gso_is_supported :: "bool option"
  ip_transparent_is_supported :: "bool option"

definition static_local :: "bool option \<Rightarrow> ('s \<Rightarrow> bool \<times> 's) \<Rightarrow> 's \<Rightarrow> bool \<times> 's" where
  "static_local v init s = (case v of Some b \<Rightarrow> (b, s) | None \<Rightarrow> init s)"

definition supportsUdpGro :: "'s kernel \<Rightarrow> os_statics \<Rightarrow> 's \<Rightarrow> bool \<times> os_statics \<times> 's" where
  "supportsUdpGro k st s =
     (let (b, s1) = static_local (udp_gro_is_supported st) (probe_udp_gro k) s
      in (b, st\<lparr>udp_gro_is_supported := Some b\<rparr>, s1))"

definition supportsUdpGso :: "'s kernel \<Rightarrow> os_statics \<Rightarrow> 's \<Rightarrow> bool \<times> os_statics \<times> 's" where
  "supportsUdpGso k st s =
     (let (b, s1) = static_local (udp_gso_is_supported st) (probe_udp_gso k) s
      in (b, st\<lparr>udp_gso_is_supported := Some b\<rparr>, s1))"

definition supportsIpTransparent :: "'s kernel \<Rightarrow> os_statics \<Rightarrow> 's \<Rightarrow> bool \<times> os_statics \<times> 's" where
  "supportsIpTransparent k st s =
     (let (b, s1) = static_local (ip_transparent_is_supported st) (probe_ip_transparent k) s
      in (b, st\<lparr>ip_transparent_is_supported := Some b\<rparr>, s1))"

section \<open>Interfaces\<close>

record interface_address =
  interface_name :: string
  interface_flags :: u32
  interface_addr :: address

text \<open>The override of \<open>getifaddrs\<close>, once it is set.\<close>

type_synonym 's alternate_getifaddrs = "interface_address list \<Rightarrow> 's \<Rightarrow> int sys_result \<times> interface_address list \<times> 's"

definition setAlternateGetifaddrs :: "'s alternate_getifaddrs \<Rightarrow> 's alternate_getifaddrs option \<Rightarrow> 's alternate_getifaddrs option" where
  "setAlternateGetifaddrs f alternate = Some f"

definition supportsGetifaddrs :: bool where "supportsGetifaddrs = True"

fun collect_interfaces :: "os_net \<Rightarrow> ifaddrs list \<Rightarrow> interface_address list \<Rightarrow> interface_address list result" where
  "collect_interfaces net [] interfaces = Inr interfaces"
| "collect_interfaces net (ifa # ifas) interfaces =
     (case ifa_addr ifa of
        None \<Rightarrow> collect_interfaces net ifas interfaces
      | Some ss \<Rightarrow>
          if ss_family ss = AF_INET \<or> ss_family ss = AF_INET6
          then let ss_len = (if ss_family ss = AF_INET then 16 else 28) in
            res_bind (addressFromSockAddr net ss ss_len (ss_family ss = AF_INET6)) (\<lambda>address.
              case address of
                Inl status \<Rightarrow> collect_interfaces net ifas interfaces
              | Inr a \<Rightarrow> collect_interfaces net ifas
                  (interfaces @ [\<lparr>interface_name = ifa_name ifa, interface_flags = ifa_flags ifa, interface_addr = a\<rparr>]))
          else collect_interfaces net ifas interfaces)"

definition getifaddrs ::
  "'s kernel \<Rightarrow> os_net \<Rightarrow> 's alternate_getifaddrs option \<Rightarrow> interface_address list \<Rightarrow> 's
   \<Rightarrow> (int sys_result \<times> interface_address list \<times> 's) result" where
  "getifaddrs k net alternate interfaces s =
     (case alternate of
        Some f \<Rightarrow> Inr (f interfaces s)
      | None \<Rightarrow>
          let (rc, s1) = sys k (Sys_getifaddrs (Local ''ifaddr'')) s in
          if rc = - 1 then Inr (\<lparr>return_value = rc, errno_value = sys_errno k s1\<rparr>, interfaces, s1)
          else res_bind (collect_interfaces net (ifaddrs_at k s1) interfaces) (\<lambda>interfaces1.
            Inr (\<lparr>return_value = rc, errno_value = 0\<rparr>, interfaces1,
              if ifaddrs_at k s1 \<noteq> [] then snd (sys k Sys_freeifaddrs s1) else s1)))"

section \<open>Descriptors of the probes\<close>

text \<open>A kernel that also records the calls and what they returned.\<close>

definition traced :: "'s kernel \<Rightarrow> ('s \<times> (sys_request \<times> int) list) kernel" where
  "traced k =
     \<lparr>sys = (\<lambda>r (s, tr). let (rc, s1) = sys k r s in (rc, s1, tr @ [(r, rc)])),
      sys_errno = (\<lambda>(s, tr). sys_errno k s), tcp_info_at = (\<lambda>(s, tr). tcp_info_at k s),
      ifaddrs_at = (\<lambda>(s, tr). ifaddrs_at k s)\<rparr>"

text \<open>The descriptors that are open after the calls of a trace, and the sockets asked for.\<close>

fun descriptors :: "(sys_request \<times> int) list \<Rightarrow> int list \<Rightarrow> int list" where
  "descriptors [] fds = fds"
| "descriptors ((Sys_socket domain type protocol, rc) # tr) fds = descriptors tr (if rc < 0 then fds else rc # fds)"
| "descriptors ((Sys_close fd, rc) # tr) fds = descriptors tr (remove1 fd fds)"
| "descriptors (_ # tr) fds = descriptors tr fds"

fun sockets_asked :: "(sys_request \<times> int) list \<Rightarrow> nat" where
  "sockets_asked [] = 0"
| "sockets_asked ((Sys_socket domain type protocol, rc) # tr) = Suc (sockets_asked tr)"
| "sockets_asked (_ # tr) = sockets_asked tr"

datatype probe = Udp_gro | Udp_gso | Ip_transparent | Mptcp

fun run_probe :: "'s kernel \<Rightarrow> probe \<Rightarrow> os_statics \<Rightarrow> 's \<Rightarrow> bool \<times> os_statics \<times> 's" where
  "run_probe k Udp_gro st s = supportsUdpGro k st s"
| "run_probe k Udp_gso st s = supportsUdpGso k st s"
| "run_probe k Ip_transparent st s = supportsIpTransparent k st s"
| "run_probe k Mptcp st s = (let (b, s1) = supportsMptcp k s in (b, st, s1))"

fun run_probes :: "'s kernel \<Rightarrow> probe list \<Rightarrow> os_statics \<Rightarrow> 's \<Rightarrow> os_statics \<times> 's" where
  "run_probes k [] st s = (st, s)"
| "run_probes k (p # ps) st s = (let (b, st1, s1) = run_probe k p st s in run_probes k ps st1 s1)"

text \<open>A step appends calls that close what they open and ask for at most \<open>n\<close> sockets.\<close>

definition balanced :: "nat \<Rightarrow> (sys_request \<times> int) list \<Rightarrow> (sys_request \<times> int) list \<Rightarrow> bool" where
  "balanced n tr tr' \<longleftrightarrow> (\<exists>new. tr' = tr @ new \<and> (\<forall>fds. descriptors new fds = fds) \<and> sockets_asked new \<le> n)"

lemma descriptors_append [simp]: "descriptors (a @ b) fds = descriptors b (descriptors a fds)"
  by (induction a fds rule: descriptors.induct) simp_all

lemma sockets_asked_append [simp]: "sockets_asked (a @ b) = sockets_asked a + sockets_asked b"
  by (induction a rule: sockets_asked.induct) simp_all

lemma balanced_refl [simp]: "balanced 0 tr tr"
  by (simp add: balanced_def)

lemma balanced_trans: "balanced m tr tr1 \<Longrightarrow> balanced n tr1 tr2 \<Longrightarrow> balanced (m + n) tr tr2"
  unfolding balanced_def by (elim exE conjE) (fastforce intro: add_mono)

lemmas probe_defs = probe_udp_gro_def probe_udp_gso_def probe_ip_transparent_def supportsMptcp_def

lemma probes_balanced:
  "balanced 1 tr (snd (snd (probe_udp_gro (traced k) (s, tr))))"
  "balanced 1 tr (snd (snd (probe_udp_gso (traced k) (s, tr))))"
  "balanced 2 tr (snd (snd (probe_ip_transparent (traced k) (s, tr))))"
  "balanced 1 tr (snd (snd (supportsMptcp (traced k) (s, tr))))"
  by (auto simp: probe_defs traced_def balanced_def Let_def split: prod.splits)

text \<open>The sockets that remain to be asked for by the probes not made yet.\<close>

definition unasked :: "os_statics \<Rightarrow> nat" where
  "unasked st = (if udp_gro_is_supported st = None then 1 else 0) + (if udp_gso_is_supported st = None then 1 else 0)
     + (if ip_transparent_is_supported st = None then 2 else 0)"

lemma run_probe_balanced:
  assumes "run_probe (traced k) p st (s, tr) = (b, st1, s1, tr1)"
  shows "\<exists>n. balanced n tr tr1 \<and> n + unasked st1 \<le> unasked st + (if p = Mptcp then 1 else 0)"
proof (cases p)
  case Udp_gro
  then show ?thesis
    using assms probes_balanced(1) [of tr k s]
    by (cases "udp_gro_is_supported st")
      (auto simp: supportsUdpGro_def static_local_def unasked_def split: prod.splits intro: exI [of _ 0] exI [of _ 1])
next
  case Udp_gso
  then show ?thesis
    using assms probes_balanced(2) [of tr k s]
    by (cases "udp_gso_is_supported st")
      (auto simp: supportsUdpGso_def static_local_def unasked_def split: prod.splits intro: exI [of _ 0] exI [of _ 1])
next
  case Ip_transparent
  then show ?thesis
    using assms probes_balanced(3) [of tr k s]
    by (cases "ip_transparent_is_supported st")
      (auto simp: supportsIpTransparent_def static_local_def unasked_def split: prod.splits intro: exI [of _ 0] exI [of _ 2])
next
  case Mptcp
  then show ?thesis
    using assms probes_balanced(4) [of tr k s] by (auto split: prod.splits intro: exI [of _ 1])
qed

lemma run_probes_balanced:
  "run_probes (traced k) ps st (s, tr) = (st1, s1, tr1)
   \<Longrightarrow> \<exists>n. balanced n tr tr1 \<and> n + unasked st1 \<le> unasked st + length (filter (\<lambda>p. p = Mptcp) ps)"
proof (induction ps arbitrary: st s tr)
  case (Cons p ps)
  obtain b st2 s2 tr2 where p: "run_probe (traced k) p st (s, tr) = (b, st2, s2, tr2)" by (metis prod_cases4)
  obtain m where m: "balanced m tr tr2" "m + unasked st2 \<le> unasked st + (if p = Mptcp then 1 else 0)"
    using run_probe_balanced [OF p] by blast
  obtain n where n: "balanced n tr2 tr1" "n + unasked st1 \<le> unasked st2 + length (filter (\<lambda>p. p = Mptcp) ps)"
    using Cons.IH [of st2 s2 tr2] Cons.prems p by auto
  have "m + n + unasked st1 \<le> unasked st + length (filter (\<lambda>p. p = Mptcp) (p # ps))"
    using m(2) n(2) by (simp split: if_splits)
  then show ?case using balanced_trans [OF m(1) n(1)] by blast
qed (auto intro: exI [of _ 0])

section \<open>What the kernel promises\<close>

text \<open>
  \<open>fl\<close> reads the status flags of a descriptor and \<open>opn\<close> tells the open descriptors: \<open>fcntl\<close> reads and sets the
  flags and does not fail on an open descriptor, \<open>accept4\<close> sets \<open>O_NONBLOCK\<close> when asked to, and what the two
  \<open>accept\<close> return is open.
\<close>

definition descriptor_contract :: "'s kernel \<Rightarrow> ('s \<Rightarrow> int \<Rightarrow> int) \<Rightarrow> ('s \<Rightarrow> int \<Rightarrow> bool) \<Rightarrow> bool" where
  "descriptor_contract k fl opn \<longleftrightarrow>
     (\<forall>fd s rc s1. sys k (Sys_fcntl_getfl fd) s = (rc, s1)
        \<longrightarrow> fl s1 = fl s \<and> (rc \<noteq> - 1 \<longrightarrow> rc = fl s fd) \<and> (opn s fd \<longrightarrow> rc \<noteq> - 1 \<and> opn s1 fd))
   \<and> (\<forall>fd flags s rc s1. sys k (Sys_fcntl_setfl fd flags) s = (rc, s1)
        \<longrightarrow> fl s1 = (if rc = - 1 then fl s else (fl s)(fd := flags)) \<and> (opn s fd \<longrightarrow> rc \<noteq> - 1))
   \<and> (\<forall>fd addr len s rc s1. sys k (Sys_accept4 fd addr len SOCK_NONBLOCK_v) s = (rc, s1)
        \<longrightarrow> rc \<ge> 0 \<longrightarrow> fl s1 rc AND O_NONBLOCK_v \<noteq> 0)
   \<and> (\<forall>fd addr len s rc s1. sys k (Sys_accept fd addr len) s = (rc, s1) \<longrightarrow> rc \<ge> 0 \<longrightarrow> opn s1 rc)"

lemma descriptor_contractD:
  assumes "descriptor_contract k fl opn"
  shows "sys k (Sys_fcntl_getfl fd) s = (rc, s1)
      \<Longrightarrow> fl s1 = fl s \<and> (rc \<noteq> - 1 \<longrightarrow> rc = fl s fd) \<and> (opn s fd \<longrightarrow> rc \<noteq> - 1 \<and> opn s1 fd)"
    and "sys k (Sys_fcntl_setfl fd flags) s = (rc, s1)
      \<Longrightarrow> fl s1 = (if rc = - 1 then fl s else (fl s)(fd := flags)) \<and> (opn s fd \<longrightarrow> rc \<noteq> - 1)"
    and "sys k (Sys_accept4 fd addr len SOCK_NONBLOCK_v) s = (rc, s1) \<Longrightarrow> rc \<ge> 0 \<Longrightarrow> fl s1 rc AND O_NONBLOCK_v \<noteq> 0"
    and "sys k (Sys_accept fd addr len) s = (rc, s1) \<Longrightarrow> rc \<ge> 0 \<Longrightarrow> opn s1 rc"
proof -
  note c = assms [unfolded descriptor_contract_def]
  show "sys k (Sys_fcntl_getfl fd) s = (rc, s1)
      \<Longrightarrow> fl s1 = fl s \<and> (rc \<noteq> - 1 \<longrightarrow> rc = fl s fd) \<and> (opn s fd \<longrightarrow> rc \<noteq> - 1 \<and> opn s1 fd)"
    by (rule c [THEN conjunct1, THEN spec, THEN spec, THEN spec, THEN spec, THEN mp])
  show "sys k (Sys_fcntl_setfl fd flags) s = (rc, s1)
      \<Longrightarrow> fl s1 = (if rc = - 1 then fl s else (fl s)(fd := flags)) \<and> (opn s fd \<longrightarrow> rc \<noteq> - 1)"
    by (rule c [THEN conjunct2, THEN conjunct1, THEN spec, THEN spec, THEN spec, THEN spec, THEN spec, THEN mp])
  show "sys k (Sys_accept4 fd addr len SOCK_NONBLOCK_v) s = (rc, s1) \<Longrightarrow> rc \<ge> 0 \<Longrightarrow> fl s1 rc AND O_NONBLOCK_v \<noteq> 0"
    by (rule c [THEN conjunct2, THEN conjunct2, THEN conjunct1, THEN spec, THEN spec, THEN spec, THEN spec,
          THEN spec, THEN spec, THEN mp, THEN mp])
  show "sys k (Sys_accept fd addr len) s = (rc, s1) \<Longrightarrow> rc \<ge> 0 \<Longrightarrow> opn s1 rc"
    by (rule c [THEN conjunct2, THEN conjunct2, THEN conjunct2, THEN spec, THEN spec, THEN spec, THEN spec,
          THEN spec, THEN spec, THEN mp, THEN mp])
qed

lemma setsocketblocking_flags:
  assumes "descriptor_contract k fl opn" and "sys_setsocketblocking k fd blocking s = (r, s')"
  shows "fl s' = (if return_value r = - 1 then fl s
                  else (fl s)(fd := if blocking then fl s fd AND NOT O_NONBLOCK_v else fl s fd OR O_NONBLOCK_v))"
    and "opn s fd \<Longrightarrow> return_value r \<noteq> - 1"
proof -
  obtain flags s1 where g: "sys k (Sys_fcntl_getfl fd) s = (flags, s1)" by fastforce
  note g' = descriptor_contractD(1) [OF assms(1) g]
  let ?f = "if blocking then flags AND NOT O_NONBLOCK_v else flags OR O_NONBLOCK_v"
  obtain rc s2 where t: "sys k (Sys_fcntl_setfl fd ?f) s1 = (rc, s2)" by fastforce
  note t' = descriptor_contractD(2) [OF assms(1) t]
  have both: "fl s' = (if return_value r = - 1 then fl s
                  else (fl s)(fd := if blocking then fl s fd AND NOT O_NONBLOCK_v else fl s fd OR O_NONBLOCK_v))
        \<and> (opn s fd \<longrightarrow> return_value r \<noteq> - 1)"
    using assms(2) g' t t' g by (auto simp: sys_setsocketblocking_def rc_result_def Let_def split: if_splits)
  then show "fl s' = (if return_value r = - 1 then fl s
                  else (fl s)(fd := if blocking then fl s fd AND NOT O_NONBLOCK_v else fl s fd OR O_NONBLOCK_v))"
    and "opn s fd \<Longrightarrow> return_value r \<noteq> - 1" by blast+
qed

lemma or_nonblock: "(x OR O_NONBLOCK_v) AND O_NONBLOCK_v \<noteq> 0"
proof -
  have "(x OR O_NONBLOCK_v) AND O_NONBLOCK_v = O_NONBLOCK_v"
    by (intro bit_eqI) (auto simp: bit_simps)
  then show ?thesis by (simp add: O_NONBLOCK_v_def)
qed

section \<open>Properties\<close>

text \<open>Property C34. Whatever the kernel returns, and whatever probes are made in whatever order from whatever the static locals
  hold: every socket a probe opens it also closes - the descriptors open afterwards are those open before - and the
  UDP and transparency probes ask for at most four sockets in the life of the process.\<close>

theorem probes_close_their_sockets:
  assumes "run_probes (traced k) ps st (s, []) = (st', s', trace)"
  shows "descriptors trace fds = fds \<and> sockets_asked trace \<le> 4 + length (filter (\<lambda>p. p = Mptcp) ps)"
proof -
  obtain n where n: "balanced n [] trace" "n + unasked st' \<le> unasked st + length (filter (\<lambda>p. p = Mptcp) ps)"
    using run_probes_balanced [OF assms] by blast
  moreover have "unasked st \<le> 4" by (simp add: unasked_def)
  ultimately show ?thesis unfolding balanced_def by fastforce
qed

definition sample_kernel :: "(int \<Rightarrow> int) kernel" where
  "sample_kernel =
     \<lparr>sys = (\<lambda>r s. case r of
          Sys_fcntl_getfl fd \<Rightarrow> (if s fd \<ge> 0 then s fd else - 1, s)
        | Sys_fcntl_setfl fd flags \<Rightarrow> if s fd \<ge> 0 then (0, s(fd := flags)) else (- 1, s)
        | Sys_accept fd addr len \<Rightarrow> (if s 7 \<ge> 0 then 7 else - 1, s)
        | Sys_socket domain type protocol \<Rightarrow> (9, s)
        | Sys_close fd \<Rightarrow> (0, s)
        | _ \<Rightarrow> (- 1, s)),
      sys_errno = (\<lambda>_. EINVAL_v), tcp_info_at = (\<lambda>_. \<lparr>unix_rtt = 0, unix_snd_mss = 0, unix_snd_cwnd = 0\<rparr>),
      ifaddrs_at = (\<lambda>_. [])\<rparr>"

theorem probes_close_their_sockets_witness:
  "descriptors (snd (snd (run_probes (traced sample_kernel) [Udp_gro, Mptcp, Udp_gro] (os_statics.make None None None)
     ((\<lambda>_. 0), [])))) [3] = [3]"
proof -
  obtain st s tr where r: "run_probes (traced sample_kernel) [Udp_gro, Mptcp, Udp_gro] (os_statics.make None None None)
     ((\<lambda>_. 0), []) = (st, s, tr)" by (metis prod_cases3)
  show ?thesis using probes_close_their_sockets [OF r, of "[3]"] r by simp
qed

text \<open>A connection that \<open>accept\<close> returns is non-blocking, whether \<open>accept4\<close> took the flag or \<open>accept\<close> had to be
  called without it, and its result carries no error number.\<close>

theorem accept_nonblocking:
  assumes "descriptor_contract k fl opn" and "sys_accept k fd addr addrlen s = (r, s')" and "return_value r \<ge> 0"
  shows "fl s' (return_value r) AND O_NONBLOCK_v \<noteq> 0 \<and> errno_value r = 0"
proof -
  obtain rc s1 where a4: "sys k (Sys_accept4 fd addr addrlen SOCK_NONBLOCK_v) s = (rc, s1)" by fastforce
  show ?thesis
  proof (cases "rc \<ge> 0 \<or> sys_errno k s1 \<noteq> EINVAL_v")
    case True
    then have "s' = s1" "return_value r = rc" "errno_value r = 0"
      using assms(2,3) a4 by (auto simp: sys_accept_def rc_result_def Let_def split: if_splits)
    then show ?thesis using assms(3) descriptor_contractD(3) [OF assms(1) a4] by simp
  next
    case False
    obtain rc2 s2 where a: "sys k (Sys_accept fd addr addrlen) s1 = (rc2, s2)" by fastforce
    obtain b s3 where b: "sys_setsocketblocking k rc2 False s2 = (b, s3)" by fastforce
    have r: "return_value r = rc2" "errno_value r = 0" "s' = s3"
      using False assms(2,3) a4 a b by (auto simp: sys_accept_def rc_result_def Let_def split: if_splits)
    then have "opn s2 rc2" using assms(3) descriptor_contractD(4) [OF assms(1) a] by simp
    then have "fl s3 rc2 = fl s2 rc2 OR O_NONBLOCK_v"
      using setsocketblocking_flags [OF assms(1) b] by simp
    then show ?thesis using r or_nonblock by simp
  qed
qed

theorem accept_nonblocking_witness:
  "snd (sys_accept sample_kernel 3 (Object 0) (Object 1) (\<lambda>_. 0)) 7 AND O_NONBLOCK_v \<noteq> 0"
proof -
  have c: "descriptor_contract sample_kernel (\<lambda>s. s) (\<lambda>s fd. s fd \<ge> 0)"
    by (simp add: descriptor_contract_def sample_kernel_def)
  obtain r s' where a: "sys_accept sample_kernel 3 (Object 0) (Object 1) (\<lambda>_. 0) = (r, s')" by fastforce
  then have "return_value r = 7"
    by (auto simp: sys_accept_def rc_result_def Let_def sample_kernel_def split: prod.splits)
  then show ?thesis using accept_nonblocking [OF c a] a by simp
qed

text \<open>On the machine the code assumes, \<open>getifaddrs\<close> reports success and not one interface: no address can be built
  from what the kernel lists, because every address family is reported as unsupported. The kernel's list is freed
  when there is one, and \<open>errno\<close> is reported only for a failure.\<close>

theorem getifaddrs_finds_nothing:
  "getifaddrs k net None interfaces s =
     (let (rc, s1) = sys k (Sys_getifaddrs (Local ''ifaddr'')) s
      in Inr (\<lparr>return_value = rc, errno_value = (if rc = - 1 then sys_errno k s1 else 0)\<rparr>, interfaces,
              if rc \<noteq> - 1 \<and> ifaddrs_at k s1 \<noteq> [] then snd (sys k Sys_freeifaddrs s1) else s1))"
proof -
  have "collect_interfaces net ifas interfaces = Inr interfaces" for ifas
  proof (induction ifas)
    case (Cons ifa ifas)
    then show ?case
      by (cases "ifa_addr ifa"; cases "the (ifa_addr ifa)")
        (auto simp: addressFromSockAddr_def createInstancePtr_ipv4_def createInstancePtr_ipv6_def
          ipv4_validateProtocolSupported_def ipv6_validateProtocolSupported_def forceV6_def Let_def)
  qed simp
  then show ?thesis by (simp add: getifaddrs_def Let_def split: prod.splits)
qed

end
