(* ===== verification/Guards.thy ===== *)
theory Guards
  imports Prelude
begin

text \<open>
  Objects that act through their lifetime: the lock guards of \<open>common/common/LockGuard.h\<close> over the
  \<open>MutexBasicLockable\<close> of \<open>ThreadBase.h\<close>, and the singletons and loaders of
  \<open>common/singleton/ThreadsafeSingleton.h\<close>; with them \<open>OptRef\<close> (\<open>include/common/Optref.h\<close>). \<open>absl::Mutex\<close> is
  not under \<open>src/\<close>: it is a parameter, a record of its three operations by the calling thread, and what its
  documentation says of them is \<open>absl_mutex_contract\<close>. A thread may nest its guards in any way.
\<close>

section \<open>Locks\<close>

text \<open>The interface \<open>Thread::BasicLockable\<close>.\<close>

record 'm lockable =
  lk_lock :: "'m \<Rightarrow> 'm result"
  lk_tryLock :: "'m \<Rightarrow> bool \<times> 'm"
  lk_unlock :: "'m \<Rightarrow> 'm result"

text \<open>\<open>absl::Mutex\<close>, its operations by the thread that calls them.\<close>

record 'm absl_mutex =
  mx_Lock :: "nat \<Rightarrow> 'm \<Rightarrow> 'm result"
  mx_TryLock :: "nat \<Rightarrow> 'm \<Rightarrow> bool \<times> 'm"
  mx_Unlock :: "nat \<Rightarrow> 'm \<Rightarrow> 'm result"

definition mutex_lockable :: "'m absl_mutex \<Rightarrow> nat \<Rightarrow> 'm lockable" where
  "mutex_lockable mu t = \<lparr>lk_lock = mx_Lock mu t, lk_tryLock = mx_TryLock mu t, lk_unlock = mx_Unlock mu t\<rparr>"

text \<open>Its documentation, with the thread that holds it: \<open>Lock\<close> blocks the caller until the mutex is free and then
  acquires it, also when the caller itself is the holder, as the mutex is not recursive; \<open>TryLock\<close> never blocks,
  acquires a free mutex when it returns true (it may fail on a free one too) and does nothing when it returns false;
  \<open>Unlock\<close> releases a mutex that its caller holds, and must not be called otherwise.\<close>

definition absl_mutex_contract :: "'m absl_mutex \<Rightarrow> ('m \<Rightarrow> nat option) \<Rightarrow> bool" where
  "absl_mutex_contract mu holder \<longleftrightarrow>
     (\<forall>t m. (case holder m of None \<Rightarrow> \<exists>m1. mx_Lock mu t m = Inr m1 \<and> holder m1 = Some t
             | Some u \<Rightarrow> mx_Lock mu t m = Inl Does_not_return)
       \<and> (case mx_TryLock mu t m of (acquired, m1) \<Rightarrow>
            if acquired then holder m = None \<and> holder m1 = Some t else holder m1 = holder m)
       \<and> (if holder m = Some t then \<exists>m1. mx_Unlock mu t m = Inr m1 \<and> holder m1 = None
          else mx_Unlock mu t m = Inl Undefined_behaviour))"

subsection \<open>\<open>OptionalLockGuard\<close> and \<open>LockGuard\<close>\<close>

definition OptionalLockGuard_new :: "'m lockable option \<Rightarrow> 'm \<Rightarrow> 'm result" where
  "OptionalLockGuard_new lock m = (case lock of None \<Rightarrow> Inr m | Some l \<Rightarrow> lk_lock l m)"

definition OptionalLockGuard_destroy :: "'m lockable option \<Rightarrow> 'm \<Rightarrow> 'm result" where
  "OptionalLockGuard_destroy lock m = (case lock of None \<Rightarrow> Inr m | Some l \<Rightarrow> lk_unlock l m)"

definition LockGuard_new :: "'m lockable \<Rightarrow> 'm \<Rightarrow> 'm result" where
  "LockGuard_new l m = lk_lock l m"

definition LockGuard_destroy :: "'m lockable \<Rightarrow> 'm \<Rightarrow> 'm result" where
  "LockGuard_destroy l m = lk_unlock l m"

subsection \<open>\<open>TryLockGuard\<close>\<close>

record try_guard = is_locked :: bool

definition TryLockGuard_new :: try_guard where "TryLockGuard_new = \<lparr>is_locked = False\<rparr>"

definition guard_tryLock :: "'m lockable \<Rightarrow> try_guard \<Rightarrow> 'm \<Rightarrow> bool \<times> try_guard \<times> 'm" where
  "guard_tryLock l g m = (let (b, m1) = lk_tryLock l m in (b, g\<lparr>is_locked := b\<rparr>, m1))"

definition TryLockGuard_destroy :: "'m lockable \<Rightarrow> try_guard \<Rightarrow> 'm \<Rightarrow> 'm result" where
  "TryLockGuard_destroy l g m = (if is_locked g then lk_unlock l m else Inr m)"

subsection \<open>\<open>ReleasableLockGuard\<close>\<close>

text \<open>Whether \<open>lock_\<close> is still set.\<close>

record releasable_guard = lock_set :: bool

definition ReleasableLockGuard_new :: "'m lockable \<Rightarrow> 'm \<Rightarrow> (releasable_guard \<times> 'm) result" where
  "ReleasableLockGuard_new l m = res_bind (lk_lock l m) (\<lambda>m1. Inr (\<lparr>lock_set = True\<rparr>, m1))"

definition guard_release :: "'m lockable \<Rightarrow> releasable_guard \<Rightarrow> 'm \<Rightarrow> (releasable_guard \<times> 'm) result" where
  "guard_release l g m =
     (if lock_set g then res_bind (lk_unlock l m) (\<lambda>m1. Inr (g\<lparr>lock_set := False\<rparr>, m1)) else Inr (g, m))"

definition ReleasableLockGuard_destroy :: "'m lockable \<Rightarrow> releasable_guard \<Rightarrow> 'm \<Rightarrow> 'm result" where
  "ReleasableLockGuard_destroy l g m = res_bind (guard_release l g m) (\<lambda>(g1, m1). Inr m1)"

subsection \<open>Scopes\<close>

text \<open>A guard from its constructor to its destructor, with \<open>n\<close> calls of its method in between.\<close>

fun release_times :: "'m lockable \<Rightarrow> nat \<Rightarrow> releasable_guard \<Rightarrow> 'm \<Rightarrow> (releasable_guard \<times> 'm) result" where
  "release_times l 0 g m = Inr (g, m)"
| "release_times l (Suc n) g m = res_bind (guard_release l g m) (\<lambda>(g1, m1). release_times l n g1 m1)"

definition releasable_scope :: "'m lockable \<Rightarrow> nat \<Rightarrow> 'm \<Rightarrow> 'm result" where
  "releasable_scope l n m =
     res_bind (ReleasableLockGuard_new l m) (\<lambda>(g, m1).
     res_bind (release_times l n g m1) (\<lambda>(g1, m2). ReleasableLockGuard_destroy l g1 m2))"

fun tryLock_times :: "'m lockable \<Rightarrow> nat \<Rightarrow> try_guard \<Rightarrow> 'm \<Rightarrow> try_guard \<times> 'm" where
  "tryLock_times l 0 g m = (g, m)"
| "tryLock_times l (Suc n) g m = (let (b, g1, m1) = guard_tryLock l g m in tryLock_times l n g1 m1)"

definition try_scope :: "'m lockable \<Rightarrow> nat \<Rightarrow> 'm \<Rightarrow> 'm result" where
  "try_scope l n m = (let (g, m1) = tryLock_times l n TryLockGuard_new m in TryLockGuard_destroy l g m1)"

definition optional_scope :: "'m lockable option \<Rightarrow> 'm \<Rightarrow> 'm result" where
  "optional_scope lock m = res_bind (OptionalLockGuard_new lock m) (OptionalLockGuard_destroy lock)"

section \<open>What a lock promises\<close>

text \<open>One thread's view of a lock that nobody else touches meanwhile.\<close>

locale basic_lockable =
  fixes L :: "'m lockable"
    and free :: "'m \<Rightarrow> bool"
    and mine :: "'m \<Rightarrow> bool"
  assumes lock_free: "free m \<Longrightarrow> \<exists>m1. lk_lock L m = Inr m1 \<and> mine m1"
    and unlock_mine: "mine m \<Longrightarrow> \<exists>m1. lk_unlock L m = Inr m1 \<and> free m1"
    and try_true: "lk_tryLock L m = (True, m1) \<Longrightarrow> free m \<and> mine m1"
    and try_false: "lk_tryLock L m = (False, m1) \<Longrightarrow> free m1 = free m \<and> mine m1 = mine m"
    and mine_not_free: "mine m \<Longrightarrow> \<not> free m"
begin

lemma optional_restores: "free m \<Longrightarrow> \<exists>m1. optional_scope (Some L) m = Inr m1 \<and> free m1"
  using lock_free [of m] unlock_mine
  by (fastforce simp: optional_scope_def OptionalLockGuard_new_def OptionalLockGuard_destroy_def)

lemma release_again: "\<not> lock_set g \<Longrightarrow> release_times L n g m = Inr (g, m)"
  by (induction n) (simp_all add: guard_release_def)

lemma releasable_restores:
  assumes "free m"
  shows "\<exists>m1. releasable_scope L n m = Inr m1 \<and> free m1"
proof -
  obtain m1 where m1: "lk_lock L m = Inr m1" "mine m1" using lock_free [OF assms] by blast
  obtain m2 where m2: "lk_unlock L m1 = Inr m2" "free m2" using unlock_mine [OF m1(2)] by blast
  show ?thesis
    by (cases n)
      (simp_all add: releasable_scope_def ReleasableLockGuard_new_def ReleasableLockGuard_destroy_def guard_release_def
        m1 m2 release_again)
qed

lemma try_again:
  assumes "mine m"
  shows "\<exists>m1. tryLock_times L (Suc n) g m = (g\<lparr>is_locked := False\<rparr>, m1) \<and> mine m1"
  using assms
proof (induction n arbitrary: g m)
  case 0
  obtain b m1 where b: "lk_tryLock L m = (b, m1)" by fastforce
  then have "\<not> b" using 0 try_true [of m m1] mine_not_free [of m] by auto
  then show ?case using b 0 try_false [of m m1] by (simp add: guard_tryLock_def)
next
  case (Suc n)
  obtain b m1 where b: "lk_tryLock L m = (b, m1)" by fastforce
  then have "\<not> b" using Suc.prems try_true [of m m1] mine_not_free [of m] by auto
  then have "tryLock_times L (Suc (Suc n)) g m = tryLock_times L (Suc n) (g\<lparr>is_locked := False\<rparr>) m1" "mine m1"
    using b Suc.prems try_false [of m m1] by (simp_all add: guard_tryLock_def)
  then show ?case using Suc.IH [of m1 "g\<lparr>is_locked := False\<rparr>"] by simp
qed

lemma try_once:
  assumes "free m" and "n \<le> 1"
  shows "\<exists>m1. try_scope L n m = Inr m1 \<and> free m1"
proof (cases "n = 0")
  case True
  then show ?thesis using assms by (simp add: try_scope_def TryLockGuard_new_def TryLockGuard_destroy_def)
next
  case False
  then have n: "n = Suc 0" using assms by simp
  obtain b m1 where b: "lk_tryLock L m = (b, m1)" by fastforce
  show ?thesis
  proof (cases b)
    case True
    then show ?thesis
      using b try_true [of m m1] unlock_mine [of m1]
      by (simp add: n try_scope_def TryLockGuard_new_def TryLockGuard_destroy_def guard_tryLock_def)
  next
    case False
    then show ?thesis
      using b assms try_false [of m m1]
      by (simp add: n try_scope_def TryLockGuard_new_def TryLockGuard_destroy_def guard_tryLock_def)
  qed
qed

lemma try_twice:
  assumes "lk_tryLock L m = (True, m1)"
  shows "\<exists>m2. try_scope L (Suc (Suc n)) m = Inr m2 \<and> mine m2"
proof -
  have "mine m1" using try_true [OF assms] by blast
  then obtain m2 where "tryLock_times L (Suc n) \<lparr>is_locked = True\<rparr> m1 = (\<lparr>is_locked = False\<rparr>, m2)" "mine m2"
    using try_again [of m1 n "\<lparr>is_locked = True\<rparr>"] by auto
  moreover have "tryLock_times L (Suc (Suc n)) TryLockGuard_new m = tryLock_times L (Suc n) \<lparr>is_locked = True\<rparr> m1"
    by (subst tryLock_times.simps(2)) (simp add: guard_tryLock_def assms TryLockGuard_new_def del: tryLock_times.simps)
  ultimately show ?thesis by (simp add: try_scope_def TryLockGuard_destroy_def)
qed

end

lemma absl_mutexD:
  assumes "absl_mutex_contract mu holder"
  shows "holder m = None \<Longrightarrow> \<exists>m1. mx_Lock mu t m = Inr m1 \<and> holder m1 = Some t"
    and "holder m \<noteq> None \<Longrightarrow> mx_Lock mu t m = Inl Does_not_return"
    and "mx_TryLock mu t m = (True, m1) \<Longrightarrow> holder m = None \<and> holder m1 = Some t"
    and "mx_TryLock mu t m = (False, m1) \<Longrightarrow> holder m1 = holder m"
    and "holder m = Some t \<Longrightarrow> \<exists>m1. mx_Unlock mu t m = Inr m1 \<and> holder m1 = None"
    and "holder m \<noteq> Some t \<Longrightarrow> mx_Unlock mu t m = Inl Undefined_behaviour"
  using assms [unfolded absl_mutex_contract_def, THEN spec, THEN spec, of t m] by (auto split: option.splits)

lemma mutex_is_lockable:
  assumes "absl_mutex_contract mu holder"
  shows "basic_lockable (mutex_lockable mu t) (\<lambda>m. holder m = None) (\<lambda>m. holder m = Some t)"
  by unfold_locales (auto simp: mutex_lockable_def dest: absl_mutexD [OF assms])

text \<open>The least such mutex is the thread that holds it.\<close>

definition cell_mutex :: "nat option absl_mutex" where
  "cell_mutex =
     \<lparr>mx_Lock = (\<lambda>t m. if m = None then Inr (Some t) else Inl Does_not_return),
      mx_TryLock = (\<lambda>t m. if m = None then (True, Some t) else (False, m)),
      mx_Unlock = (\<lambda>t m. if m = Some t then Inr None else Inl Undefined_behaviour)\<rparr>"

lemma cell_mutex_contract: "absl_mutex_contract cell_mutex id"
  by (auto simp: absl_mutex_contract_def cell_mutex_def split: option.splits)

interpretation cell: basic_lockable "mutex_lockable cell_mutex t" "\<lambda>m. id m = None" "\<lambda>m. id m = Some t"
  by (rule mutex_is_lockable [OF cell_mutex_contract])

section \<open>Threads that hold guards\<close>

text \<open>A thread's remaining actions: a guard is constructed, work is done, the innermost guard is destroyed.\<close>

datatype guard_action = Enter | Work | Leave

text \<open>What block structure allows a thread that has \<open>d\<close> guards now: each is destroyed in the end, the innermost first.\<close>

fun block_structured :: "nat \<Rightarrow> guard_action list \<Rightarrow> bool" where
  "block_structured d [] = (d = 0)"
| "block_structured d (Enter # p) = block_structured (Suc d) p"
| "block_structured d (Work # p) = block_structured d p"
| "block_structured d (Leave # p) = (0 < d \<and> block_structured (d - 1) p)"

text \<open>A thread is inside a scope when it has more guards to destroy than to construct.\<close>

definition inside :: "guard_action list \<Rightarrow> bool" where
  "inside p \<longleftrightarrow> count_list p Enter < count_list p Leave"

lemma block_counts: "block_structured d p \<Longrightarrow> count_list p Leave = count_list p Enter + d"
  by (induction d p rule: block_structured.induct) auto

lemma block_inside: "block_structured d p \<Longrightarrow> inside p \<longleftrightarrow> 0 < d"
  using block_counts [of d p] by (simp add: inside_def)

type_synonym 'm guard_config = "'m \<times> (nat \<Rightarrow> guard_action list)"

text \<open>A thread whose constructor does not return takes no step until it would.\<close>

inductive thread_step :: "'m absl_mutex \<Rightarrow> 'm guard_config \<Rightarrow> 'm guard_config \<Rightarrow> bool" for mu where
  enter: "progs t = Enter # p \<Longrightarrow> LockGuard_new (mutex_lockable mu t) m = Inr m1
    \<Longrightarrow> thread_step mu (m, progs) (m1, progs(t := p))"
| work: "progs t = Work # p \<Longrightarrow> thread_step mu (m, progs) (m, progs(t := p))"
| leave: "progs t = Leave # p \<Longrightarrow> LockGuard_destroy (mutex_lockable mu t) m = Inr m1
    \<Longrightarrow> thread_step mu (m, progs) (m1, progs(t := p))"

inductive_cases thread_stepE: "thread_step mu (m, progs) c"

text \<open>The holder of the mutex has one guard, and nobody else has any.\<close>

definition guards_ok :: "('m \<Rightarrow> nat option) \<Rightarrow> 'm guard_config \<Rightarrow> bool" where
  "guards_ok holder c \<longleftrightarrow> (\<forall>t. block_structured (if holder (fst c) = Some t then 1 else 0) (snd c t))"

lemma guards_okD:
  assumes "guards_ok holder (m, progs)"
  shows "block_structured (if holder m = Some t then 1 else 0) (progs t)"
  using assms by (simp add: guards_ok_def)

lemma guards_ok_update:
  assumes "guards_ok holder (m, progs)" and "holder m = None \<or> holder m = Some t"
    and "holder m1 = None \<or> holder m1 = Some t" and "block_structured (if holder m1 = Some t then 1 else 0) p"
  shows "guards_ok holder (m1, progs(t := p))"
proof -
  have "block_structured 0 (progs u)" if "u \<noteq> t" for u using guards_okD [OF assms(1), of u] assms(2) that by auto
  then show ?thesis using assms(3,4) by (auto simp: guards_ok_def)
qed

lemma guards_ok_step:
  assumes mu: "absl_mutex_contract mu holder" and "thread_step mu c c1" and "guards_ok holder c"
  shows "guards_ok holder c1"
  using assms(2,3)
proof (induction rule: thread_step.induct)
  case (enter progs t p m m1)
  have m: "holder m = None" "holder m1 = Some t"
    using enter(2) absl_mutexD(1) [OF mu, of m t] absl_mutexD(2) [OF mu, of m t]
    by (cases "holder m"; simp add: LockGuard_new_def mutex_lockable_def; fail)+
  show ?case
    using guards_okD [OF enter(3), of t] enter(1) m by (intro guards_ok_update [OF enter(3)]) simp_all
next
  case (work progs t p m)
  have "block_structured (if holder m = Some u then 1 else 0) ((progs(t := p)) u)" for u
    using guards_okD [OF work(2), of u] work(1) by (cases "u = t") simp_all
  then show ?case by (simp add: guards_ok_def)
next
  case (leave progs t p m m1)
  have m: "holder m = Some t" using guards_okD [OF leave(3), of t] leave(1) by (simp split: if_splits)
  then have "holder m1 = None"
    using leave(2) absl_mutexD(5) [OF mu m] by (auto simp: LockGuard_destroy_def mutex_lockable_def)
  then show ?case
    using guards_okD [OF leave(3), of t] leave(1) m by (intro guards_ok_update [OF leave(3)]) simp_all
qed

lemma guards_ok_reachable:
  assumes "absl_mutex_contract mu holder" and "(thread_step mu)\<^sup>*\<^sup>* c c1" and "guards_ok holder c"
  shows "guards_ok holder c1"
  using assms(2,3) by (induction rule: rtranclp_induct) (auto intro: guards_ok_step [OF assms(1)])

lemma guards_ok_inside: "guards_ok holder (m, progs) \<Longrightarrow> inside (progs t) \<longleftrightarrow> holder m = Some t"
  using block_inside [OF guards_okD, of holder m progs t] by simp

lemma destructor_returns:
  assumes "absl_mutex_contract mu holder" and "guards_ok holder (m, progs)" and "progs t = Leave # p"
  shows "\<exists>m1. LockGuard_destroy (mutex_lockable mu t) m = Inr m1"
proof -
  have "holder m = Some t" using guards_okD [OF assms(2), of t] assms(3) by (simp split: if_splits)
  then show ?thesis
    using absl_mutexD(5) [OF assms(1)] by (fastforce simp: LockGuard_destroy_def mutex_lockable_def)
qed

lemma guards_ok_progress:
  assumes mu: "absl_mutex_contract mu holder" and ok: "guards_ok holder (m, progs)" and left: "progs t \<noteq> []"
  shows "(\<exists>c1. thread_step mu (m, progs) c1) \<or> (\<exists>u p. holder m = Some u \<and> progs u = Enter # p)"
proof -
  have can: "\<exists>c1. thread_step mu (m, progs) c1" if u: "progs u = a # p" "a = Enter \<longrightarrow> holder m = None" for u a p
  proof (cases a)
    case Enter
    then obtain m1 where "mx_Lock mu u m = Inr m1" using u(2) absl_mutexD(1) [OF mu, of m u] by blast
    then show ?thesis
      using thread_step.enter [of progs u p mu m m1] u(1) Enter by (auto simp: LockGuard_new_def mutex_lockable_def)
  next
    case Work
    show ?thesis using thread_step.work [of progs u p mu m] u(1) Work by blast
  next
    case Leave
    then obtain m1 where "LockGuard_destroy (mutex_lockable mu u) m = Inr m1"
      using destructor_returns [OF mu ok] u(1) by blast
    then show ?thesis using thread_step.leave [of progs u p mu m m1] u(1) Leave by blast
  qed
  show ?thesis
  proof (cases "holder m")
    case None
    then show ?thesis using left can by (cases "progs t") auto
  next
    case (Some u)
    then have "progs u \<noteq> []" using guards_okD [OF ok, of u] by auto
    then show ?thesis using Some can by (cases "progs u") auto
  qed
qed

section \<open>Singletons\<close>

text \<open>\<open>ThreadSafeSingleton\<close>: the object, created on the first call of \<open>get\<close>.\<close>

definition singleton_get :: "'a \<Rightarrow> 'a option \<Rightarrow> 'a \<times> 'a option" where
  "singleton_get create existing = (case existing of None \<Rightarrow> (create, Some create) | Some i \<Rightarrow> (i, existing))"

text \<open>\<open>InjectableSingleton\<close>: the static pointer \<open>loader_\<close>.\<close>

definition injectable_get :: "'p option \<Rightarrow> 'p result" where
  "injectable_get loader = release_assert_then (loader \<noteq> None) (Inr (the loader))"

definition injectable_getExisting :: "'p option \<Rightarrow> 'p option" where
  "injectable_getExisting loader = loader"

definition injectable_initialize :: "'p option \<Rightarrow> 'p option \<Rightarrow> 'p option result" where
  "injectable_initialize val loader =
     release_assert_then (val \<noteq> None) (release_assert_then (loader = None) (Inr val))"

definition injectable_clear :: "'p option \<Rightarrow> 'p option" where
  "injectable_clear loader = None"

record 'p scoped_loader = sl_instance :: "'p option"

definition ScopedInjectableLoader_new :: "'p option \<Rightarrow> 'p option \<Rightarrow> ('p scoped_loader \<times> 'p option) result" where
  "ScopedInjectableLoader_new i loader =
     res_bind (injectable_initialize i loader) (\<lambda>l. Inr (\<lparr>sl_instance = i\<rparr>, l))"

definition ScopedInjectableLoader_destroy :: "'p scoped_loader \<Rightarrow> 'p option \<Rightarrow> 'p option" where
  "ScopedInjectableLoader_destroy sl loader = injectable_clear loader"

record 'p stacked_loader =
  st_instance :: "'p option"
  original_loader :: "'p option"

definition StackedScopedInjectableLoader_new :: "'p option \<Rightarrow> 'p option \<Rightarrow> ('p stacked_loader \<times> 'p option) result" where
  "StackedScopedInjectableLoader_new i loader =
     (let original = injectable_getExisting loader; loader1 = injectable_clear loader in
      res_bind (injectable_initialize i loader1) (\<lambda>l. Inr (\<lparr>st_instance = i, original_loader = original\<rparr>, l)))"

definition StackedScopedInjectableLoader_destroy :: "'p stacked_loader \<Rightarrow> 'p option \<Rightarrow> 'p option" where
  "StackedScopedInjectableLoader_destroy sl loader = original_loader sl"

text \<open>A program of nested scopes: \<open>get\<close>, a stacked loader around a block, a plain loader around a block.\<close>

datatype 'p loader_use =
    Get_loader
  | In_stacked 'p "'p loader_use list"
  | In_scoped 'p "'p loader_use list"

fun run_loader_use :: "'p loader_use \<Rightarrow> 'p option \<Rightarrow> ('p list \<times> 'p option) result"
  and run_loader_uses :: "'p loader_use list \<Rightarrow> 'p option \<Rightarrow> ('p list \<times> 'p option) result" where
  "run_loader_use Get_loader l = res_bind (injectable_get l) (\<lambda>p. Inr ([p], l))"
| "run_loader_use (In_stacked p us) l =
     res_bind (StackedScopedInjectableLoader_new (Some p) l) (\<lambda>(sl, l1).
     res_bind (run_loader_uses us l1) (\<lambda>(got, l2). Inr (got, StackedScopedInjectableLoader_destroy sl l2)))"
| "run_loader_use (In_scoped p us) l =
     res_bind (ScopedInjectableLoader_new (Some p) l) (\<lambda>(sl, l1).
     res_bind (run_loader_uses us l1) (\<lambda>(got, l2). Inr (got, ScopedInjectableLoader_destroy sl l2)))"
| "run_loader_uses [] l = Inr ([], l)"
| "run_loader_uses (u # us) l =
     res_bind (run_loader_use u l) (\<lambda>(got, l1).
     res_bind (run_loader_uses us l1) (\<lambda>(got1, l2). Inr (got @ got1, l2)))"

text \<open>What the program should see: the innermost instance; a plain loader only where nothing is loaded.\<close>

fun loader_use_sees :: "'p loader_use \<Rightarrow> 'p option \<Rightarrow> 'p list option"
  and loader_uses_see :: "'p loader_use list \<Rightarrow> 'p option \<Rightarrow> 'p list option" where
  "loader_use_sees Get_loader l = map_option (\<lambda>p. [p]) l"
| "loader_use_sees (In_stacked p us) l = loader_uses_see us (Some p)"
| "loader_use_sees (In_scoped p us) l = (if l = None then loader_uses_see us (Some p) else None)"
| "loader_uses_see [] l = Some []"
| "loader_uses_see (u # us) l =
     (case loader_use_sees u l of None \<Rightarrow> None | Some got \<Rightarrow> map_option (append got) (loader_uses_see us l))"

lemmas loader_defs = injectable_get_def injectable_getExisting_def injectable_initialize_def injectable_clear_def
  StackedScopedInjectableLoader_new_def StackedScopedInjectableLoader_destroy_def ScopedInjectableLoader_new_def
  ScopedInjectableLoader_destroy_def release_assert_then_def

lemma run_loader_see:
  "run_loader_use u l = (case loader_use_sees u l of None \<Rightarrow> Inl Release_assert_failed | Some got \<Rightarrow> Inr (got, l))"
  "run_loader_uses us l = (case loader_uses_see us l of None \<Rightarrow> Inl Release_assert_failed | Some got \<Rightarrow> Inr (got, l))"
  by (induction u l and us l rule: run_loader_use_run_loader_uses.induct)
    (auto simp: loader_defs split: option.splits)

section \<open>Optional references\<close>

text \<open>An \<open>OptRef\<close> is the address it refers to, if it has one; \<open>**this\<close> without a value is undefined.\<close>

type_synonym 'a optref = "'a option"

definition optref_ref :: "'a optref \<Rightarrow> 'a result" where
  "optref_ref r = (case r of None \<Rightarrow> Inl Undefined_behaviour | Some a \<Rightarrow> Inr a)"

definition optref_ptr :: "'a optref \<Rightarrow> 'a option" where
  "optref_ptr r = (if r \<noteq> None then Some (the r) else None)"

definition optref_convert :: "('b \<Rightarrow> 'a) \<Rightarrow> 'b optref \<Rightarrow> 'a optref" where
  "optref_convert up rhs = (if rhs \<noteq> None then Some (up (the rhs)) else None)"

definition optref_assign :: "('b \<Rightarrow> 'a) \<Rightarrow> 'a optref \<Rightarrow> 'b optref \<Rightarrow> 'a optref" where
  "optref_assign up this rhs = (let this1 = None in if rhs \<noteq> None then Some (up (the rhs)) else this1)"

definition makeOptRef :: "'a \<Rightarrow> 'a optref" where "makeOptRef a = Some a"

definition makeOptRefFromPtr :: "'a option \<Rightarrow> 'a optref" where
  "makeOptRefFromPtr p = (case p of None \<Rightarrow> None | Some a \<Rightarrow> Some a)"

lemma optref_laws:
  "optref_ptr (makeOptRefFromPtr p) = p" "optref_ref (makeOptRef a) = Inr a"
  "optref_assign up this rhs = optref_convert up rhs" "optref_ptr (optref_convert up r) = map_option up (optref_ptr r)"
  by (auto simp: optref_ptr_def makeOptRefFromPtr_def optref_ref_def makeOptRef_def optref_assign_def
      optref_convert_def split: option.splits)

section \<open>Properties\<close>

text \<open>Property C35. Threads that guard their work with \<open>LockGuard\<close>s over one mutex, nested as block structure allows, in any
  interleaving, over any mutex that does what \<open>absl::Mutex\<close> documents: no two of them are ever inside their scopes at
  once; no destructor unlocks a mutex that its thread does not hold; and as long as some thread has something left to
  do, some thread can do it, unless the thread inside is about to construct a second guard, whose constructor waits
  for the thread itself.\<close>

theorem guarded_mutual_exclusion:
  assumes "absl_mutex_contract mu holder" and "holder m0 = None" and "\<And>t. block_structured 0 (start t)"
    and "(thread_step mu)\<^sup>*\<^sup>* (m0, start) (m, progs)"
  shows "(\<forall>t u. inside (progs t) \<longrightarrow> inside (progs u) \<longrightarrow> t = u)
       \<and> (\<forall>t p. progs t = Leave # p \<longrightarrow> (\<exists>m1. LockGuard_destroy (mutex_lockable mu t) m = Inr m1))
       \<and> (\<forall>t. progs t \<noteq> [] \<longrightarrow>
            (\<exists>c1. thread_step mu (m, progs) c1) \<or> (\<exists>u p. inside (progs u) \<and> progs u = Enter # p))"
proof -
  have "guards_ok holder (m0, start)" using assms(2,3) by (simp add: guards_ok_def)
  then have ok: "guards_ok holder (m, progs)" by (rule guards_ok_reachable [OF assms(1,4)])
  show ?thesis
    using guards_ok_inside [OF ok] destructor_returns [OF assms(1) ok] guards_ok_progress [OF assms(1) ok]
    by (metis option.inject)
qed

text \<open>One thread inside, another waiting; the second guard of the thread inside is the deadlock.\<close>

definition two_threads :: "nat \<Rightarrow> guard_action list" where
  "two_threads = (\<lambda>t. if t = 0 then [Enter, Enter, Work, Leave, Leave] else if t = 1 then [Enter, Work, Leave] else [])"

theorem guarded_mutual_exclusion_witness:
  "\<exists>progs. (thread_step cell_mutex)\<^sup>*\<^sup>* (None, two_threads) (Some 0, progs)
     \<and> inside (progs 0) \<and> \<not> inside (progs 1) \<and> progs 1 = [Enter, Work, Leave]
     \<and> ((\<exists>c1. thread_step cell_mutex (Some 0, progs) c1) \<or> (\<exists>u p. inside (progs u) \<and> progs u = Enter # p))"
proof -
  let ?p = "two_threads(0 := [Enter, Work, Leave, Leave])"
  have "thread_step cell_mutex (None, two_threads) (Some 0, ?p)"
    by (rule thread_step.enter) (simp_all add: two_threads_def LockGuard_new_def mutex_lockable_def cell_mutex_def)
  then have r: "(thread_step cell_mutex)\<^sup>*\<^sup>* (None, two_threads) (Some 0, ?p)" by (rule r_into_rtranclp)
  have s: "block_structured 0 (two_threads t)" for t by (simp add: two_threads_def)
  have i: "inside (?p 0)" "?p 1 = [Enter, Work, Leave]" "?p 0 \<noteq> []" by (simp_all add: inside_def two_threads_def)
  note g = guarded_mutual_exclusion [OF cell_mutex_contract _ s r]
  have "\<not> inside (?p 1)"
    using g [THEN conjunct1, THEN spec, THEN spec, THEN mp, THEN mp, of 0 1] i(1) by auto
  moreover have "(\<exists>c1. thread_step cell_mutex (Some 0, ?p) c1) \<or> (\<exists>u p. inside (?p u) \<and> ?p u = Enter # p)"
    by (rule g [THEN conjunct2, THEN conjunct2, THEN spec, THEN mp, OF _ i(3)]) simp
  ultimately show ?thesis using r i(1,2) by blast
qed

lemma second_guard_waits_for_itself:
  "\<not> thread_step cell_mutex (Some 0, two_threads(0 := [Enter, Work, Leave, Leave])) c"
  by (auto elim!: thread_stepE simp: two_threads_def LockGuard_new_def mutex_lockable_def cell_mutex_def split: if_splits)

text \<open>Between its constructor and its destructor a \<open>ReleasableLockGuard\<close> may be released any number of times: the
  mutex is unlocked once. A \<open>TryLockGuard\<close> restores the mutex only when \<open>tryLock\<close> is called at most once: a second
  call fails, forgets that the first took the mutex, and leaves it locked for good.\<close>

theorem guards_restore_the_mutex:
  assumes "absl_mutex_contract mu holder" and "holder m = None"
  shows "(\<exists>m1. releasable_scope (mutex_lockable mu t) n m = Inr m1 \<and> holder m1 = None)
   \<and> (\<exists>m1. try_scope (mutex_lockable mu t) (if again then 1 else 0) m = Inr m1 \<and> holder m1 = None)
   \<and> (fst (mx_TryLock mu t m) \<longrightarrow>
        (\<exists>m1. try_scope (mutex_lockable mu t) (Suc (Suc n)) m = Inr m1 \<and> holder m1 = Some t))
   \<and> (\<exists>m1. optional_scope (Some (mutex_lockable mu t)) m = Inr m1 \<and> holder m1 = None)"
proof -
  note L = mutex_is_lockable [OF assms(1), of t]
  have "lk_tryLock (mutex_lockable mu t) m = (True, snd (mx_TryLock mu t m))" if "fst (mx_TryLock mu t m)"
    using that by (simp add: mutex_lockable_def prod_eq_iff)
  then have twice: "fst (mx_TryLock mu t m) \<longrightarrow>
        (\<exists>m1. try_scope (mutex_lockable mu t) (Suc (Suc n)) m = Inr m1 \<and> holder m1 = Some t)"
    using basic_lockable.try_twice [OF L, of m _ n] by blast
  have once: "\<exists>m1. try_scope (mutex_lockable mu t) (if again then 1 else 0) m = Inr m1 \<and> holder m1 = None"
    by (rule basic_lockable.try_once [OF L]) (simp_all add: assms(2))
  show ?thesis
    using twice once basic_lockable.releasable_restores [OF L assms(2), of n] basic_lockable.optional_restores [OF L assms(2)]
    by (intro conjI)
qed

text \<open>Whatever the nesting of loaders, every \<open>get\<close> sees the instance of the innermost scope around it and the scope's
  end restores what was loaded before it; the run aborts exactly when a \<open>get\<close> has nothing loaded or a
  \<open>ScopedInjectableLoader\<close> is built where something is.\<close>

theorem loaders_nest:
  "run_loader_uses us loader =
     (case loader_uses_see us loader of None \<Rightarrow> Inl Release_assert_failed | Some got \<Rightarrow> Inr (got, loader))"
  by (rule run_loader_see)

end
