(* ===== verification/Shutdown.thy ===== *)
theory Shutdown
  imports EventSpec
begin

text \<open>
  The end of a worker among threads: \<open>WorkerImpl::stop\<close> asks the dispatcher to leave its loop (\<open>DispatcherImpl::exit\<close>,
  \<open>LibeventScheduler::loopExit\<close>) and joins the thread; \<open>WorkerImpl::threadRoutine\<close> leaves \<open>run\<close>, shuts the dispatcher down
  and returns. The dispatcher is the system of \<open>DispatcherLoop\<close>; its thread 0 is the worker.

  \<open>run(Block)\<close> passes no flag to \<open>event_base_loop\<close>, which then returns when it was told to exit, and also when no
  event is pending or active. After \<open>loopexit\<close> the loop still finishes the events it is at, in this model any number of
  them, so every run of the code is one of the runs here.
\<close>

section \<open>The worker's thread and who stops it\<close>

datatype thread_stage = In_loop | Left_loop | Finished

datatype stop_stage = Not_stopping | Joining | Joined

record ('c, 'l) worker_run =
  wr_sys :: "('c, 'l) system"
  wr_exit :: bool
  wr_thread :: thread_stage
  wr_stop :: stop_stage

definition worker_new :: "int \<Rightarrow> 'l \<Rightarrow> ('c, 'l) worker_run" where
  "worker_new now l =
     \<lparr>wr_sys = system_new now l, wr_exit = False, wr_thread = In_loop, wr_stop = Not_stopping\<rparr>"

text \<open>\<open>DispatcherImpl::shutdown\<close> with the history of what it destroys.\<close>

definition shutdown_system :: "('c, 'l) system \<Rightarrow> ('c, 'l) system" where
  "shutdown_system s =
     s\<lparr>disp := shutdown (disp s), deleted := deleted s @ deletables_in_dispatcher_thread (disp s)\<rparr>"

definition base_empty :: "'l libevent \<Rightarrow> ('c, 'l) system \<Rightarrow> bool" where
  "base_empty lib s \<longleftrightarrow> (\<forall>e. \<not> is_pending lib e s)"

text \<open>A thread that was between its lock and its scheduling when the worker left finishes its call.\<close>

inductive worker_step :: "'l libevent \<Rightarrow> ('c, 'l) worker_run \<Rightarrow> ('c, 'l) worker_run \<Rightarrow> bool" for lib where
  in_loop:
    "wr_thread w = In_loop \<Longrightarrow> progress lib (wr_sys w) s \<Longrightarrow> worker_step lib w (w\<lparr>wr_sys := s\<rparr>)"
| leave:
    "wr_thread w = In_loop \<Longrightarrow> free 0 (wr_sys w) \<Longrightarrow> pc (wr_sys w) = Waiting \<Longrightarrow>
     wr_exit w \<or> base_empty lib (wr_sys w) \<Longrightarrow> worker_step lib w (w\<lparr>wr_thread := Left_loop\<rparr>)"
| shut:
    "wr_thread w = Left_loop \<Longrightarrow>
     worker_step lib w (w\<lparr>wr_sys := shutdown_system (wr_sys w), wr_thread := Finished\<rparr>)"
| late_post:
    "wr_thread w \<noteq> In_loop \<Longrightarrow> wr_sys w = s \<Longrightarrow> t \<in> posting s \<Longrightarrow>
     worker_step lib w (w\<lparr>wr_sys := s\<lparr>disp := schedule lib post_cb (disp s), posting := posting s - {t}\<rparr>\<rparr>)"
| late_delete:
    "wr_thread w \<noteq> In_loop \<Longrightarrow> wr_sys w = s \<Longrightarrow> t \<in> handing s \<Longrightarrow>
     worker_step lib w (w\<lparr>wr_sys := s\<lparr>disp := schedule lib thread_local_delete_cb (disp s), handing := handing s - {t}\<rparr>\<rparr>)"
| call_exit:
    "wr_stop w = Not_stopping \<Longrightarrow> worker_step lib w (w\<lparr>wr_exit := True, wr_stop := Joining\<rparr>)"
| join:
    "wr_stop w = Joining \<Longrightarrow> wr_thread w = Finished \<Longrightarrow> worker_step lib w (w\<lparr>wr_stop := Joined\<rparr>)"

text \<open>Other threads may ask for more at any time; only the worker defers deletions, and only in its loop.\<close>

inductive worker_request :: "'l libevent \<Rightarrow> ('c, 'l) worker_run \<Rightarrow> ('c, 'l) worker_run \<Rightarrow> bool" for lib where
  ask:
    "request lib (wr_sys w) s \<Longrightarrow> wr_thread w = In_loop \<or> given s = given (wr_sys w) \<Longrightarrow>
     worker_request lib w (w\<lparr>wr_sys := s\<rparr>)"

inductive worker_reachable :: "'l libevent \<Rightarrow> 'l \<Rightarrow> ('c, 'l) worker_run \<Rightarrow> bool" for lib l where
  wreach_new: "worker_reachable lib l (worker_new now l)"
| wreach_request: "worker_reachable lib l w \<Longrightarrow> worker_request lib w w' \<Longrightarrow> worker_reachable lib l w'"
| wreach_step: "worker_reachable lib l w \<Longrightarrow> worker_step lib w w' \<Longrightarrow> worker_reachable lib l w'"

section \<open>The invariant\<close>

definition worker_inv :: "'l libevent \<Rightarrow> ('c, 'l) worker_run \<Rightarrow> bool" where
  "worker_inv lib w \<longleftrightarrow> system_inv lib (wr_sys w)
     \<and> (wr_thread w \<noteq> In_loop \<longrightarrow> pc (wr_sys w) = Waiting)
     \<and> (wr_stop w = Joined \<longrightarrow> wr_thread w = Finished)
     \<and> (wr_stop w \<noteq> Not_stopping \<longrightarrow> wr_exit w)"

lemma shutdown_inv: "system_inv lib s \<Longrightarrow> pc s = Waiting \<Longrightarrow> system_inv lib (shutdown_system s)"
  by (cases "current_is_first (disp s)")
    (simp_all add: system_inv_defs shutdown_system_def shutdown_def take_deletables_def is_pending_def
      current_to_delete_def other_to_delete_def)

lemma shutdown_pending [simp]: "is_pending lib e (shutdown_system s) = is_pending lib e s"
  by (simp add: is_pending_def shutdown_system_def shutdown_def take_deletables_def)

lemma request_pc: "request lib s s' \<Longrightarrow> pc s' = pc s \<and> called s' = called s \<and> deleted s' = deleted s"
  by (induction rule: request.induct) simp_all

lemma worker_new_inv: "worker_inv lib (worker_new now l)"
  by (simp add: worker_inv_def worker_new_def system_new_inv)

lemma worker_request_inv:
  assumes "libevent_contract lib" and "worker_request lib w w'" and "worker_inv lib w"
  shows "worker_inv lib w'"
  using assms(2)
proof cases
  case (ask s)
  then show ?thesis
    using assms(3) request_inv [OF assms(1) ask(2)] request_pc [OF ask(2)] by (simp add: worker_inv_def)
qed

lemma worker_step_inv:
  assumes lib: "libevent_contract lib" and "worker_step lib w w'" and inv: "worker_inv lib w"
  shows "worker_inv lib w'"
  using assms(2)
proof cases
  case (in_loop s)
  then show ?thesis using inv progress_inv [OF lib in_loop(3)] by (simp add: worker_inv_def)
next
  case shut
  then show ?thesis using inv shutdown_inv [of lib "wr_sys w"] by (simp add: worker_inv_def shutdown_system_def)
next
  case (late_post s t)
  then show ?thesis
    using inv progress_inv [OF lib schedule_post [OF late_post(4)]] by (simp add: worker_inv_def)
next
  case (late_delete s t)
  then show ?thesis
    using inv progress_inv [OF lib schedule_delete [OF late_delete(4)]] by (simp add: worker_inv_def)
qed (use inv in \<open>auto simp: worker_inv_def\<close>)

lemma worker_reachable_inv:
  assumes "libevent_contract lib" and "worker_reachable lib l w"
  shows "worker_inv lib w"
  using assms(2)
  by induction (auto intro: worker_new_inv worker_request_inv [OF assms(1)] worker_step_inv [OF assms(1)])

lemma worker_steps_reachable: "worker_reachable lib l w \<Longrightarrow> (worker_step lib ^^ k) w w' \<Longrightarrow> worker_reachable lib l w'"
  by (induction k arbitrary: w') (auto intro: wreach_step)

text \<open>Once the thread has ended nothing is called or destroyed any more.\<close>

lemma finished_step:
  "worker_step lib w w' \<Longrightarrow> wr_thread w = Finished \<Longrightarrow>
     wr_thread w' = Finished \<and> called (wr_sys w') = called (wr_sys w) \<and> deleted (wr_sys w') = deleted (wr_sys w)"
  by (induction rule: worker_step.induct) simp_all

lemma finished_request:
  "worker_request lib w w' \<Longrightarrow> wr_thread w = Finished \<Longrightarrow>
     wr_thread w' = Finished \<and> called (wr_sys w') = called (wr_sys w) \<and> deleted (wr_sys w') = deleted (wr_sys w)"
  by (induction rule: worker_request.induct) (simp add: request_pc)

section \<open>Every stop returns\<close>

fun thread_rank :: "thread_stage \<Rightarrow> nat" where
  "thread_rank In_loop = 2" | "thread_rank Left_loop = 1" | "thread_rank Finished = 0"

fun stop_rank :: "stop_stage \<Rightarrow> nat" where
  "stop_rank Not_stopping = 2" | "stop_rank Joining = 1" | "stop_rank Joined = 0"

definition stop_work :: "'l libevent \<Rightarrow> ('c, 'l) worker_run \<Rightarrow> nat" where
  "stop_work lib w = work lib (wr_sys w) + thread_rank (wr_thread w) + stop_rank (wr_stop w)"

lemma shutdown_work: "work lib (shutdown_system s) \<le> work lib s"
  by (simp add: work_def is_pending_def shutdown_system_def shutdown_def take_deletables_def current_to_delete_def)

lemma worker_step_work:
  assumes lib: "libevent_contract lib" and "worker_step lib w w'" and inv: "worker_inv lib w"
  shows "stop_work lib w' < stop_work lib w"
proof -
  have s: "system_inv lib (wr_sys w)" using inv by (simp add: worker_inv_def)
  show ?thesis using assms(2)
  proof cases
    case (in_loop s')
    then show ?thesis using progress_work [OF lib in_loop(3) s] by (simp add: stop_work_def)
  next
    case shut
    then show ?thesis using shutdown_work [of lib "wr_sys w"] by (simp add: stop_work_def)
  next
    case (late_post s' t)
    then show ?thesis using progress_work [OF lib schedule_post [OF late_post(4)]] s by (simp add: stop_work_def)
  next
    case (late_delete s' t)
    then show ?thesis using progress_work [OF lib schedule_delete [OF late_delete(4)]] s by (simp add: stop_work_def)
  qed (simp_all add: stop_work_def)
qed

lemma worker_run_work:
  assumes lib: "libevent_contract lib" and inv: "worker_inv lib w" and run: "(worker_step lib ^^ k) w w'"
  shows "worker_inv lib w' \<and> k + stop_work lib w' \<le> stop_work lib w"
  using run
proof (induction k arbitrary: w')
  case (Suc k)
  then obtain u where u: "(worker_step lib ^^ k) w u" and st: "worker_step lib u w'" by auto
  have "worker_inv lib u" "k + stop_work lib u \<le> stop_work lib w" using Suc.IH [OF u] by blast+
  then show ?case using worker_step_inv [OF lib st] worker_step_work [OF lib st] by simp
qed (use inv in simp)

lemma worker_run_bound:
  assumes "libevent_contract lib" and "worker_inv lib w" and "(worker_step lib ^^ k) w w'"
  shows "k \<le> stop_work lib w"
  using worker_run_work [OF assms] by linarith

text \<open>Where the worker's thread cannot go on in its loop it can leave it, if it may.\<close>

lemma loop_goes_on:
  assumes "wr_thread w = In_loop" and "wr_exit w \<or> (\<forall>e. is_pending lib e (wr_sys w) \<longrightarrow> e \<in> {post_cb, thread_local_delete_cb, deferred_delete_cb})"
  shows "\<exists>w'. worker_step lib w w' \<and> wr_stop w' = wr_stop w"
proof (cases "\<exists>s. progress lib (wr_sys w) s")
  case True
  then obtain s where "progress lib (wr_sys w) s" by blast
  from in_loop [OF assms(1) this] show ?thesis by force
next
  case False
  then have no: "\<And>s. \<not> progress lib (wr_sys w) s" by blast
  note stuck = stuck_pc [OF no]
  have f: "free 0 (wr_sys w)" by (simp add: free_def stuck)
  have "wr_exit w \<or> base_empty lib (wr_sys w)" using assms(2) stuck by (auto simp: base_empty_def)
  from leave [OF assms(1) f stuck(3) this] show ?thesis by force
qed

section \<open>Events of its own\<close>

text \<open>The three callbacks of a dispatcher are the only events that its own calls make pending.\<close>

definition own_events :: "'l libevent \<Rightarrow> ('c, 'l) system \<Rightarrow> bool" where
  "own_events lib s \<longleftrightarrow> (\<forall>e. is_pending lib e s \<longrightarrow> e \<in> {post_cb, thread_local_delete_cb, deferred_delete_cb})"

lemma request_own:
  assumes "libevent_contract lib" and "request lib s s'" and "own_events lib s"
  shows "own_events lib s'"
  using assms(2,3)
  by cases (auto simp: own_events_def is_pending_def post_locked_def delete_locked_def deferredDelete_Some(4) [OF assms(1)])

lemma progress_own:
  assumes lib: "libevent_contract lib" and "progress lib s s'" and inv: "system_inv lib s" and own: "own_events lib s"
  shows "own_events lib s'"
  using assms(2)
proof cases
  case clear
  have v: "\<not> deferred_deleting (disp s)" "other_to_delete (disp s) = []" using inv by (simp_all add: system_inv_defs)
  show ?thesis using clear own by (auto simp: own_events_def is_pending_def clear_spec(7) [OF lib v])
next
  case fire_deferred
  let ?d = "fire lib deferred_delete_cb (disp s)"
  have v: "\<not> deferred_deleting ?d" "other_to_delete ?d = []" using inv by (simp_all add: system_inv_defs disp_simps)
  show ?thesis
    using fire_deferred own by (auto simp: own_events_def is_pending_def clear_spec(7) [OF lib v] fire_pending [OF lib])
next
  case (fire_delete xs d)
  then show ?thesis using own by (auto simp: own_events_def is_pending_def take_deletables_def fire_pending [OF lib])
qed (use own in \<open>auto simp: own_events_def is_pending_def take_posts_def schedule_pending [OF lib] fire_pending [OF lib]\<close>)

lemma worker_own:
  assumes lib: "libevent_contract lib" and "worker_reachable lib l w" and "\<And>e. \<not> lib_pending lib e l"
  shows "own_events lib (wr_sys w)"
  using assms(2)
proof induction
  case (wreach_new now)
  then show ?case
    using assms(3) by (simp add: own_events_def is_pending_def worker_new_def system_new_def DispatcherImpl_new_def)
next
  case (wreach_request w w')
  from wreach_request(2) show ?case by cases (simp add: request_own [OF lib _ wreach_request.IH])
next
  case (wreach_step w w')
  have inv: "system_inv lib (wr_sys w)"
    using worker_reachable_inv [OF lib wreach_step(1)] by (simp add: worker_inv_def)
  from wreach_step(2) show ?case
  proof cases
    case (in_loop s)
    then show ?thesis using progress_own [OF lib in_loop(3) inv wreach_step.IH] by simp
  next
    case (late_post s t)
    then show ?thesis using progress_own [OF lib schedule_post [OF late_post(4)]] inv wreach_step.IH by simp
  next
    case (late_delete s t)
    then show ?thesis using progress_own [OF lib schedule_delete [OF late_delete(4)]] inv wreach_step.IH by simp
  qed (use wreach_step.IH in \<open>simp_all add: own_events_def\<close>)
qed

section \<open>Without a stop\<close>

text \<open>As long as nobody calls \<open>stop\<close> the loop is left only on an empty base.\<close>

lemma step_not_stopping:
  "worker_step lib w w' \<Longrightarrow> wr_stop w' = Not_stopping \<Longrightarrow> wr_stop w = Not_stopping \<and> wr_exit w' = wr_exit w"
  by (induction rule: worker_step.induct) simp_all

lemma exit_means_stop: "worker_reachable lib l w \<Longrightarrow> wr_exit w \<Longrightarrow> wr_stop w \<noteq> Not_stopping"
proof (induction rule: worker_reachable.induct)
  case (wreach_step w w')
  then show ?case using step_not_stopping by fastforce
next
  case (wreach_request w w')
  then show ?case by (auto elim: worker_request.cases)
qed (simp add: worker_new_def)

lemma progress_posting: "progress lib s s' \<Longrightarrow> posting s = {} \<Longrightarrow> posting s' = {} \<and> (handing s = {} \<longrightarrow> handing s' = {})"
  by (induction rule: progress.induct) simp_all

lemma progress_other:
  assumes lib: "libevent_contract lib" and "progress lib s s'" and inv: "system_inv lib s"
    and e: "e \<notin> {post_cb, thread_local_delete_cb, deferred_delete_cb}"
  shows "is_pending lib e s' = is_pending lib e s"
  using assms(2)
proof cases
  case clear
  have v: "\<not> deferred_deleting (disp s)" "other_to_delete (disp s) = []" using inv by (simp_all add: system_inv_defs)
  show ?thesis using clear e by (simp add: is_pending_def clear_spec(7) [OF lib v])
next
  case fire_deferred
  let ?d = "fire lib deferred_delete_cb (disp s)"
  have v: "\<not> deferred_deleting ?d" "other_to_delete ?d = []" using inv by (simp_all add: system_inv_defs disp_simps)
  show ?thesis using fire_deferred e by (simp add: is_pending_def clear_spec(7) [OF lib v] fire_pending [OF lib])
next
  case (fire_delete xs d)
  then show ?thesis using e by (auto simp: is_pending_def take_deletables_def fire_pending [OF lib])
qed (use e in \<open>auto simp: is_pending_def take_posts_def schedule_pending [OF lib] fire_pending [OF lib]\<close>)

definition all_done :: "('c, 'l) system \<Rightarrow> bool" where
  "all_done s \<longleftrightarrow> called s = posted s \<and> deleted s = handed s
     \<and> mset (destroyed (disp s)) = mset (concat (map all_ids (given s))) + mset (handed s)"

lemma empty_base_done:
  "system_inv lib s \<Longrightarrow> pc s = Waiting \<Longrightarrow> posting s = {} \<Longrightarrow> handing s = {} \<Longrightarrow> base_empty lib s \<Longrightarrow> all_done s"
  by (auto simp: all_done_def system_inv_defs base_empty_def)

lemma shutdown_done: "system_inv lib s \<Longrightarrow> pc s = Waiting \<Longrightarrow> all_done s \<Longrightarrow> all_done (shutdown_system s)"
  by (simp add: all_done_def shutdown_system_def shutdown_def take_deletables_def system_inv_defs)

text \<open>Either another event keeps the loop going, or no thread is in the middle of a call and what is left is done
  before the loop is.\<close>

definition kept_going :: "'l libevent \<Rightarrow> ('c, 'l) worker_run \<Rightarrow> bool" where
  "kept_going lib w \<longleftrightarrow>
     (\<exists>e. e \<notin> {post_cb, thread_local_delete_cb, deferred_delete_cb} \<and> is_pending lib e (wr_sys w))"

definition none_midway :: "('c, 'l) worker_run \<Rightarrow> bool" where
  "none_midway w \<longleftrightarrow> posting (wr_sys w) = {} \<and> handing (wr_sys w) = {}"

definition unstopped_ok :: "'l libevent \<Rightarrow> ('c, 'l) worker_run \<Rightarrow> bool" where
  "unstopped_ok lib w \<longleftrightarrow> worker_inv lib w \<and> \<not> wr_exit w
     \<and> (if wr_thread w = In_loop then kept_going lib w \<or> none_midway w else none_midway w \<and> all_done (wr_sys w))"

lemma unstopped_step:
  assumes lib: "libevent_contract lib" and st: "worker_step lib w w'" and "wr_stop w' = Not_stopping"
    and ok: "unstopped_ok lib w"
  shows "unstopped_ok lib w' \<and> posted (wr_sys w') = posted (wr_sys w) \<and> handed (wr_sys w') = handed (wr_sys w)
    \<and> given (wr_sys w') = given (wr_sys w)"
proof -
  have w: "worker_inv lib w" using ok by (simp add: unstopped_ok_def)
  have inv: "worker_inv lib w'" "system_inv lib (wr_sys w)"
    using worker_step_inv [OF lib st w] w by (simp_all add: worker_inv_def)
  show ?thesis using st
  proof cases
    case (in_loop s)
    have "kept_going lib w' = kept_going lib w"
      using progress_other [OF lib in_loop(3) inv(2)] by (auto simp: kept_going_def in_loop(1))
    moreover have "none_midway w \<Longrightarrow> none_midway w'"
      using progress_posting [OF in_loop(3)] by (simp add: none_midway_def in_loop(1))
    ultimately show ?thesis using ok inv in_loop progress_history [OF in_loop(3)] by (auto simp: unstopped_ok_def)
  next
    case leave
    then have e: "base_empty lib (wr_sys w)" using ok by (simp add: unstopped_ok_def)
    then have "none_midway w" using ok leave by (auto simp: unstopped_ok_def kept_going_def base_empty_def)
    then show ?thesis
      using ok inv leave empty_base_done [OF inv(2) _ _ _ e] by (simp add: unstopped_ok_def none_midway_def)
  next
    case shut
    then have "pc (wr_sys w) = Waiting" using ok by (simp add: unstopped_ok_def worker_inv_def)
    then show ?thesis
      using shut ok inv shutdown_done [OF inv(2)]
      by (simp add: unstopped_ok_def none_midway_def) (simp add: shutdown_system_def)
  next
    case (late_post s t)
    then show ?thesis using ok by (simp add: unstopped_ok_def none_midway_def)
  next
    case (late_delete s t)
    then show ?thesis using ok by (simp add: unstopped_ok_def none_midway_def)
  next
    case join
    then show ?thesis using assms(3) by simp
  next
    case call_exit
    then show ?thesis using assms(3) by simp
  qed
qed

lemma unstopped_run:
  assumes lib: "libevent_contract lib" and "(worker_step lib ^^ k) w w'" and "wr_stop w' = Not_stopping"
    and ok: "unstopped_ok lib w"
  shows "unstopped_ok lib w' \<and> posted (wr_sys w') = posted (wr_sys w) \<and> handed (wr_sys w') = handed (wr_sys w)
    \<and> given (wr_sys w') = given (wr_sys w)"
  using assms(2,3)
proof (induction k arbitrary: w')
  case (Suc k)
  then obtain u where u: "(worker_step lib ^^ k) w u" and st: "worker_step lib u w'" by auto
  have "wr_stop u = Not_stopping" using step_not_stopping [OF st Suc.prems(2)] by blast
  from Suc.IH [OF u this] show ?case using unstopped_step [OF lib st Suc.prems(2)] by simp
qed (use ok in simp)

text \<open>Where such a run rests everything is done.\<close>

lemma unstopped_rest:
  assumes ok: "unstopped_ok lib w" and n: "wr_stop w = Not_stopping"
    and rest: "\<not> (\<exists>w'. worker_step lib w w' \<and> wr_stop w' = Not_stopping)"
  shows "all_done (wr_sys w)"
proof (cases "wr_thread w = In_loop")
  case True
  have "\<not> progress lib (wr_sys w) s" for s
    using rest in_loop [OF True, of lib s] n by force
  then show ?thesis using stuck_done ok unfolding all_done_def unstopped_ok_def worker_inv_def by blast
qed (use ok in \<open>simp add: unstopped_ok_def\<close>)

section \<open>Properties\<close>

text \<open>Property C1. A dispatcher that runs with \<open>Block\<close>, which leaves its loop when its base is empty, finishes what it was given: take
  any state of the loop that can be reached in which another event of the base, which stays pending, keeps the loop from
  leaving, or no thread is in the middle of a \<open>post\<close> or \<open>deleteInDispatcherThread\<close>. When from there nobody asks for more and nobody
  stops the worker, every run is bounded under every schedule, and where it ends every posted callback has run, in
  order and once each, and every object handed over or deferred, with all that destructors deferred in turn, has been
  destroyed once. (A thread in the middle of a post to a base that runs empty loses its post.
  That other threads may activate events takes a libevent that was told to lock its bases, which the program forgets.)\<close>

theorem dispatcher_finishes:
  assumes "libevent_contract lib" and "worker_reachable lib l w" and "wr_thread w = In_loop"
    and "(\<exists>e. e \<notin> {post_cb, thread_local_delete_cb, deferred_delete_cb} \<and> is_pending lib e (wr_sys w))
       \<or> posting (wr_sys w) = {} \<and> handing (wr_sys w) = {}"
    and "(worker_step lib ^^ k) w w'" and "wr_stop w' = Not_stopping"
  shows "k \<le> stop_work lib w
    \<and> ((\<exists>w''. worker_step lib w' w'' \<and> wr_stop w'' = Not_stopping)
       \<or> called (wr_sys w') = posted (wr_sys w) \<and> deleted (wr_sys w') = handed (wr_sys w)
         \<and> mset (destroyed (disp (wr_sys w'))) = mset (concat (map all_ids (given (wr_sys w)))) + mset (handed (wr_sys w)))"
proof -
  have inv: "worker_inv lib w" by (rule worker_reachable_inv [OF assms(1,2)])
  have "\<not> wr_exit w'" using exit_means_stop [OF worker_steps_reachable [OF assms(2,5)]] assms(6) by blast
  moreover have "wr_exit u \<longrightarrow> wr_exit v" if "worker_step lib u v" for u v
    using that by (induction rule: worker_step.induct) simp_all
  then have "wr_exit u \<longrightarrow> wr_exit v" if "(worker_step lib ^^ j) u v" for j u v
    using that by (induction j arbitrary: v) auto
  ultimately have "unstopped_ok lib w"
    using assms(3,4,5) inv by (auto simp: unstopped_ok_def kept_going_def none_midway_def)
  from unstopped_run [OF assms(1,5,6) this] show ?thesis
    using unstopped_rest [OF _ assms(6)] worker_run_bound [OF assms(1) inv assms(5)] unfolding all_done_def by metis
qed

text \<open>Property C37. Under every schedule and whatever other threads ask for meanwhile: a stop returns only after the thread has ended;
  once it has, what was posted has been called, in order and once each, except for the posts the worker never took;
  what was handed over has been destroyed, except for what came after the shutdown; deferred objects are destroyed or
  still in the list; and no later step calls or destroys anything.\<close>

theorem stop_waits_for_the_worker:
  assumes "libevent_contract lib" and "worker_reachable lib l w"
  shows "(wr_stop w = Joined \<longrightarrow> wr_thread w = Finished)
    \<and> (wr_thread w = Finished \<longrightarrow>
        posted (wr_sys w) = called (wr_sys w) @ post_callbacks (disp (wr_sys w))
        \<and> handed (wr_sys w) = deleted (wr_sys w) @ deletables_in_dispatcher_thread (disp (wr_sys w))
        \<and> mset (destroyed (disp (wr_sys w))) + mset (concat (map all_ids (current_to_delete (disp (wr_sys w)))))
          = mset (concat (map all_ids (given (wr_sys w)))) + mset (deleted (wr_sys w))
        \<and> (\<forall>w'. worker_step lib w w' \<or> worker_request lib w w' \<longrightarrow>
              wr_thread w' = Finished \<and> called (wr_sys w') = called (wr_sys w) \<and> deleted (wr_sys w') = deleted (wr_sys w)))"
proof -
  have inv: "worker_inv lib w" by (rule worker_reachable_inv [OF assms])
  then show ?thesis
    using finished_step [of lib w] finished_request [of lib w] by (auto simp: worker_inv_def system_inv_defs)
qed

text \<open>Property C8. Stopping ends: from any state that can be reached, every run without further requests is bounded, and where it
  cannot go on \<open>stop\<close> has returned.\<close>

theorem stop_returns:
  assumes "libevent_contract lib" and "worker_reachable lib l w" and "(worker_step lib ^^ k) w w'"
  shows "k \<le> stop_work lib w \<and> ((\<exists>w''. worker_step lib w' w'') \<or> wr_stop w' = Joined)"
proof -
  note run = worker_run_work [OF assms(1) worker_reachable_inv [OF assms(1,2)] assms(3)]
  have "\<exists>w''. worker_step lib w' w''" if "wr_stop w' \<noteq> Joined"
  proof (cases "wr_stop w'")
    case Joining
    then have "wr_exit w'" using run by (simp add: worker_inv_def)
    then show ?thesis
      using loop_goes_on [of w' lib] shut [of w' lib] join [OF Joining, of lib] by (cases "wr_thread w'") blast+
  qed (use that call_exit in blast)+
  then show ?thesis using run by auto
qed

text \<open>Property C38. A worker need not be stopped to end. On a base with no other event its loop runs out: every run without requests in
  which nobody calls \<open>stop\<close> is bounded and ends with the thread finished, after which no post is ever called.\<close>

theorem idle_worker_ends:
  assumes "libevent_contract lib" and "\<And>e. \<not> lib_pending lib e l" and "worker_reachable lib l w"
    and "(worker_step lib ^^ k) w w'" and "wr_stop w' = Not_stopping"
  shows "k \<le> stop_work lib w
    \<and> ((\<exists>w''. worker_step lib w' w'' \<and> wr_stop w'' = Not_stopping) \<or> wr_thread w' = Finished)"
proof -
  have reach: "worker_reachable lib l w'" by (rule worker_steps_reachable [OF assms(3,4)])
  have "\<exists>w''. worker_step lib w' w'' \<and> wr_stop w'' = Not_stopping" if "wr_thread w' \<noteq> Finished"
  proof (cases "wr_thread w'")
    case In_loop
    then show ?thesis
      using loop_goes_on [OF In_loop, of lib] worker_own [OF assms(1) reach assms(2)] assms(5)
      by (simp add: own_events_def)
  next
    case Left_loop
    from shut [OF this, of lib] show ?thesis using assms(5) by force
  qed (use that in blast)
  then show ?thesis using worker_run_work [OF assms(1) worker_reachable_inv [OF assms(1,3)] assms(4)] by auto
qed

section \<open>Witnesses\<close>

text \<open>A worker that has run out of events, and a post that is never called.\<close>

lemma relpowp_measure_ends:
  fixes f :: "'s \<Rightarrow> nat"
  assumes "\<And>k u. (R ^^ k) s u \<Longrightarrow> k \<le> f s"
  shows "\<exists>k u. (R ^^ k) s u \<and> (\<nexists>v. R u v)"
proof (rule ccontr)
  assume "\<nexists>k u. (R ^^ k) s u \<and> (\<nexists>v. R u v)"
  then have go: "\<And>k u. (R ^^ k) s u \<Longrightarrow> \<exists>v. R u v" by blast
  have "\<exists>u. (R ^^ k) s u" for k
  proof (induction k)
    case (Suc k)
    then obtain u v where "(R ^^ k) s u" "R u v" using go by blast
    then show ?case by auto
  qed auto
  then obtain u where "(R ^^ Suc (f s)) s u" by blast
  from assms [OF this] show False by simp
qed

lemma worker_rests:
  "\<exists>k w. (worker_step set_libevent ^^ k) (worker_new 0 [] :: (string, ev list) worker_run) w
     \<and> (\<nexists>w'. worker_step set_libevent w w')"
  by (rule relpowp_measure_ends [where f = "stop_work set_libevent"])
    (rule worker_run_bound [OF set_libevent_contract worker_new_inv])

theorem stop_returns_witness:
  "\<exists>k w. (worker_step set_libevent ^^ k) (worker_new 0 [] :: (string, ev list) worker_run) w \<and> wr_stop w = Joined"
proof -
  obtain k w where w: "(worker_step set_libevent ^^ k) (worker_new 0 [] :: (string, ev list) worker_run) w"
      "\<nexists>w'. worker_step set_libevent w w'" using worker_rests by blast
  then show ?thesis using stop_returns [OF set_libevent_contract wreach_new w(1)] by blast
qed

theorem stop_waits_for_the_worker_witness:
  "\<exists>w :: (string, ev list) worker_run. worker_reachable set_libevent [] w \<and> wr_thread w = Finished \<and> wr_stop w = Joined
     \<and> posted (wr_sys w) = called (wr_sys w) @ post_callbacks (disp (wr_sys w))"
proof -
  obtain k w where w: "(worker_step set_libevent ^^ k) (worker_new 0 [] :: (string, ev list) worker_run) w"
      "\<nexists>w'. worker_step set_libevent w w'" using worker_rests by blast
  have r: "worker_reachable set_libevent [] w" by (rule worker_steps_reachable [OF wreach_new w(1)])
  have "wr_stop w = Joined"
  proof (cases "wr_stop w")
    case Joining
    then have "wr_exit w" using worker_reachable_inv [OF set_libevent_contract r] by (simp add: worker_inv_def)
    then show ?thesis using w(2) loop_goes_on [of w set_libevent] shut [of w] join [OF Joining]
      by (cases "wr_thread w") blast+
  qed (use w(2) call_exit in blast)+
  then show ?thesis using stop_waits_for_the_worker [OF set_libevent_contract r] r by blast
qed

text \<open>A worker that nobody stops comes to rest.\<close>

lemma unstopped_rests:
  assumes "worker_inv set_libevent w" and n: "wr_stop w = Not_stopping"
  shows "\<exists>k w'. (worker_step set_libevent ^^ k) w w'
     \<and> wr_stop w' = Not_stopping \<and> (\<nexists>w''. worker_step set_libevent w' w'' \<and> wr_stop w'' = Not_stopping)"
proof -
  let ?R = "\<lambda>w w'. worker_step set_libevent w w' \<and> wr_stop w' = Not_stopping"
  have sub: "(?R ^^ k) w u \<Longrightarrow> (worker_step set_libevent ^^ k) w u \<and> wr_stop u = Not_stopping" for k u
    by (induction k arbitrary: u) (auto simp: n)
  have "\<exists>k u. (?R ^^ k) w u \<and> (\<nexists>v. ?R u v)"
    by (rule relpowp_measure_ends [where f = "stop_work set_libevent"])
      (rule worker_run_bound [OF set_libevent_contract assms(1) sub [THEN conjunct1]])
  then show ?thesis using sub by blast
qed

text \<open>The worker's own schedule: it starts, runs its empty list of posts and leaves.\<close>

lemma idle_run:
  "\<exists>k w. (worker_step set_libevent ^^ k) (worker_new 0 [] :: (string, ev list) worker_run) w
     \<and> wr_stop w = Not_stopping \<and> (\<nexists>w'. worker_step set_libevent w w' \<and> wr_stop w' = Not_stopping)"
  by (rule unstopped_rests [OF worker_new_inv]) (simp add: worker_new_def)

text \<open>Thread 1 has put a callback into the list of a worker and has not scheduled it yet: on a base with another event,
  7, and, once it has scheduled it, on a base with no other.\<close>

definition posted_worker :: "ev list \<Rightarrow> (string, ev list) worker_run" where
  "posted_worker l =
     (worker_new 0 l)\<lparr>wr_sys := (system_new 0 l)\<lparr>disp := (DispatcherImpl_new 0 l)\<lparr>post_callbacks := [''c'']\<rparr>,
                                              posted := [''c''], posting := {1}\<rparr>\<rparr>"

definition scheduled_worker :: "(string, ev list) worker_run" where
  "scheduled_worker = (posted_worker [])\<lparr>wr_sys :=
     (wr_sys (posted_worker []))\<lparr>disp := schedule set_libevent post_cb (disp (wr_sys (posted_worker []))), posting := {}\<rparr>\<rparr>"

lemma posted_worker_reachable: "worker_reachable set_libevent l (posted_worker l)"
proof -
  have p: "post_locked ''c'' (disp (system_new 0 l)) = (True, (DispatcherImpl_new 0 l)\<lparr>post_callbacks := [''c'']\<rparr>)"
    by (simp add: system_new_def post_locked_def DispatcherImpl_new_def)
  have f: "free 1 (system_new 0 l)" by (simp add: free_def system_new_def)
  have "worker_request set_libevent (worker_new 0 l) (posted_worker l)"
    using worker_request.ask [of set_libevent "worker_new 0 l", OF _ disjI1] post_step [OF f p, of set_libevent]
    by (fastforce simp: posted_worker_def worker_new_def system_new_def)
  then show ?thesis by (rule wreach_request [OF wreach_new])
qed

lemma scheduled_worker_reachable: "worker_reachable set_libevent [] scheduled_worker"
proof -
  let ?s = "wr_sys (posted_worker [])"
  have "progress set_libevent ?s (?s\<lparr>disp := schedule set_libevent post_cb (disp ?s), posting := posting ?s - {1}\<rparr>)"
    by (rule schedule_post) (simp add: posted_worker_def)
  moreover have "posting ?s - {1} = {}" by (simp add: posted_worker_def)
  ultimately have "worker_step set_libevent (posted_worker []) scheduled_worker"
    unfolding scheduled_worker_def by (intro worker_step.in_loop) (simp_all add: posted_worker_def worker_new_def)
  then show ?thesis by (rule wreach_step [OF posted_worker_reachable])
qed

theorem dispatcher_finishes_witness:
  "(\<exists>k w. (worker_step set_libevent ^^ k) (posted_worker [7]) w \<and> called (wr_sys w) = [''c''])
   \<and> (\<exists>k w. (worker_step set_libevent ^^ k) scheduled_worker w \<and> called (wr_sys w) = [''c''])"
proof -
  have fin: "\<exists>k w'. (worker_step set_libevent ^^ k) w w' \<and> called (wr_sys w') = posted (wr_sys w)"
    if r: "worker_reachable set_libevent l w" and t: "wr_thread w = In_loop" "wr_stop w = Not_stopping"
      and h: "(\<exists>e. e \<notin> {post_cb, thread_local_delete_cb, deferred_delete_cb} \<and> is_pending set_libevent e (wr_sys w))
        \<or> posting (wr_sys w) = {} \<and> handing (wr_sys w) = {}" for l and w :: "(string, ev list) worker_run"
  proof -
    obtain k w' where w: "(worker_step set_libevent ^^ k) w w'" "wr_stop w' = Not_stopping"
        "\<nexists>w''. worker_step set_libevent w' w'' \<and> wr_stop w'' = Not_stopping"
      using unstopped_rests [OF worker_reachable_inv [OF set_libevent_contract r] t(2)] by blast
    then show ?thesis using dispatcher_finishes [OF set_libevent_contract r t(1) h w(1,2)] by blast
  qed
  have 1: "is_pending set_libevent 7 (wr_sys (posted_worker [7]))" "7 \<notin> {post_cb, thread_local_delete_cb, deferred_delete_cb}"
    by (simp_all add: is_pending_def posted_worker_def DispatcherImpl_new_def set_libevent_def post_cb_def
        thread_local_delete_cb_def deferred_delete_cb_def)
  have s: "wr_thread (posted_worker l) = In_loop" "wr_stop (posted_worker l) = Not_stopping"
      "posted (wr_sys (posted_worker l)) = [''c'']" "handing (wr_sys (posted_worker l)) = {}" for l
    by (simp_all add: posted_worker_def worker_new_def system_new_def)
  have 2: "wr_thread scheduled_worker = In_loop" "wr_stop scheduled_worker = Not_stopping"
      "posted (wr_sys scheduled_worker) = [''c'']" "posting (wr_sys scheduled_worker) = {}" "handing (wr_sys scheduled_worker) = {}"
    by (simp_all add: scheduled_worker_def s)
  have "\<exists>k w. (worker_step set_libevent ^^ k) (posted_worker [7]) w \<and> called (wr_sys w) = posted (wr_sys (posted_worker [7]))"
    by (rule fin [OF posted_worker_reachable s(1,2)]) (use 1 in blast)
  moreover have "\<exists>k w. (worker_step set_libevent ^^ k) scheduled_worker w \<and> called (wr_sys w) = posted (wr_sys scheduled_worker)"
    by (rule fin [OF scheduled_worker_reachable 2(1,2)]) (simp add: 2)
  ultimately show ?thesis by (simp add: s 2)
qed

theorem idle_worker_ends_witness:
  "\<exists>k w. (worker_step set_libevent ^^ k) (worker_new 0 [] :: (string, ev list) worker_run) w
     \<and> wr_stop w = Not_stopping \<and> wr_thread w = Finished"
proof -
  obtain k w where w: "(worker_step set_libevent ^^ k) (worker_new 0 [] :: (string, ev list) worker_run) w"
      "wr_stop w = Not_stopping" "\<nexists>w'. worker_step set_libevent w w' \<and> wr_stop w' = Not_stopping"
    using idle_run by blast
  have "\<not> lib_pending set_libevent e []" for e by (simp add: set_libevent_def)
  from idle_worker_ends [OF set_libevent_contract this wreach_new w(1,2)] show ?thesis using w by blast
qed

end
