(* ===== verification/Startup.thy ===== *)
theory Startup
  imports ServerSpec Shutdown
begin

text \<open>
  \<open>ListenerManagerImpl::startWorkers\<close> among threads: the main thread posts every listener to every worker's
  dispatcher and starts the workers (\<open>addListenerToWorker\<close>, \<open>WorkerImpl::addListener\<close>, \<open>start\<close> and
  \<open>threadRoutine\<close>), every worker runs what was posted to it, and each completion is posted back to the main
  dispatcher, which counts it down. The dispatchers are the systems of \<open>DispatcherLoop\<close>, one per worker and one of
  the main thread; in a worker's dispatcher thread 0 is the worker and thread 1 the main thread, in the main
  dispatcher thread \<open>i + 1\<close> is worker \<open>i\<close>. The steps allow more schedules than the threads do: the main thread may
  post to the workers in any order and run its loop early. A loop whose base is empty may be left at any time, as
  \<open>run(Block)\<close> does: the thread then calls nothing any more, and other threads only finish their scheduling. (A
  worker's \<open>threadRoutine\<close> then drops its handler, \<open>thread_routine_end\<close>; here it is kept as it was.)

  A call that is undefined is not taken: the handler of a listener without socket factories, say, is never called
  further, and its worker rests there.

  The sequential \<open>startWorkers\<close> of \<open>ListenerManager\<close> is what every schedule comes to.
\<close>

section \<open>The threads\<close>

record ('f, 'l) cluster =
  cl_loops :: "nat \<Rightarrow> (worker_post, 'l) system"
  cl_todo :: "nat \<Rightarrow> worker_post list"
  cl_states :: "nat \<Rightarrow> handler option \<times> nat"
  cl_main :: "(unit, 'l) system"
  cl_manager :: "'f manager"
  cl_left :: "nat \<Rightarrow> bool"
  cl_main_left :: bool

text \<open>The critical section of \<open>post\<close>; a thread that has to schedule the event stays busy until it has.\<close>

definition post_by :: "nat \<Rightarrow> 'c \<Rightarrow> ('c, 'l) system \<Rightarrow> ('c, 'l) system" where
  "post_by t p s =
     (let (do_post, d) = post_locked p (disp s)
      in s\<lparr>disp := d, posted := posted s @ [p], posting := (if do_post then insert t (posting s) else posting s)\<rparr>)"

fun poster :: "worker_post \<Rightarrow> nat" where
  "poster (Add_listener overridden cfg) = 1"
| "poster Worker_started = 0"

fun is_add :: "worker_post \<Rightarrow> bool" where
  "is_add (Add_listener overridden cfg) = True"
| "is_add Worker_started = False"

definition worker_script :: "listener_config list \<Rightarrow> worker_post list" where
  "worker_script cfgs = adds cfgs @ [Worker_started]"

text \<open>The manager once everything is posted: the counter of the listeners that are still to be added.\<close>

definition manager_started :: "nat \<Rightarrow> 'f manager \<Rightarrow> 'f manager" where
  "manager_started n m = m\<lparr>mg_workers_started := True, listeners_pending_init := word_of_nat n, completions := n\<rparr>"

text \<open>The workers' bases start as \<open>l\<close>, the base of the main dispatcher, which has the server's timer, as \<open>lm\<close>.\<close>

definition cluster_new :: "listener_config list \<Rightarrow> nat \<Rightarrow> 'f manager \<Rightarrow> int \<Rightarrow> 'l \<Rightarrow> 'l \<Rightarrow> ('f, 'l) cluster" where
  "cluster_new cfgs N m now l lm =
     \<lparr>cl_loops = (\<lambda>i. system_new now l), cl_todo = (\<lambda>i. worker_script cfgs),
      cl_states = (\<lambda>i. (Some (ConnectionHandlerImpl_new (Some (word_of_nat i))), 0)),
      cl_main = system_new now lm,
      cl_manager = manager_started (N * length cfgs) m,
      cl_left = (\<lambda>i. False), cl_main_left = False\<rparr>"

text \<open>Of a thread that has left its loop only the steps that change \<open>posting\<close> remain, the schedulings of the others.\<close>

inductive cluster_step :: "'l libevent \<Rightarrow> nat \<Rightarrow> ('f, 'l) cluster \<Rightarrow> ('f, 'l) cluster \<Rightarrow> bool" for lib N where
  posts:
    "i < N \<Longrightarrow> cl_todo c i = p # ps \<Longrightarrow> free (poster p) (cl_loops c i) \<Longrightarrow>
     cluster_step lib N c (c\<lparr>cl_loops := (cl_loops c)(i := post_by (poster p) p (cl_loops c i)),
                             cl_todo := (cl_todo c)(i := ps)\<rparr>)"
| worker_moves:
    "i < N \<Longrightarrow> progress lib (cl_loops c i) s \<Longrightarrow> called s = called (cl_loops c i) \<Longrightarrow>
     pc (cl_loops c i) = Not_started \<longrightarrow> pc s = Not_started \<or> cl_todo c i = [] \<Longrightarrow>
     cl_left c i \<longrightarrow> posting s \<noteq> posting (cl_loops c i) \<Longrightarrow>
     cluster_step lib N c (c\<lparr>cl_loops := (cl_loops c)(i := s)\<rparr>)"
| worker_calls:
    "i < N \<Longrightarrow> progress lib (cl_loops c i) s \<Longrightarrow> called s = called (cl_loops c i) @ [p] \<Longrightarrow>
     \<not> cl_left c i \<Longrightarrow> free (Suc i) (cl_main c) \<Longrightarrow> run_worker_posts [p] (cl_states c i) = Inr st \<Longrightarrow>
     cluster_step lib N c (c\<lparr>cl_loops := (cl_loops c)(i := s), cl_states := (cl_states c)(i := st),
                             cl_main := (if is_add p then post_by (Suc i) () (cl_main c) else cl_main c)\<rparr>)"
| main_moves:
    "progress lib (cl_main c) s \<Longrightarrow> called s = called (cl_main c) \<Longrightarrow>
     cl_main_left c \<longrightarrow> posting s \<noteq> posting (cl_main c) \<Longrightarrow>
     cluster_step lib N c (c\<lparr>cl_main := s\<rparr>)"
| main_calls:
    "progress lib (cl_main c) s \<Longrightarrow> called s = called (cl_main c) @ [u] \<Longrightarrow> \<not> cl_main_left c \<Longrightarrow>
     cluster_step lib N c (c\<lparr>cl_main := s, cl_manager := run_completion (cl_manager c)\<rparr>)"
| worker_leaves:
    "i < N \<Longrightarrow> \<not> cl_left c i \<Longrightarrow> free 0 (cl_loops c i) \<Longrightarrow> pc (cl_loops c i) = Waiting \<Longrightarrow>
     base_empty lib (cl_loops c i) \<Longrightarrow> cluster_step lib N c (c\<lparr>cl_left := (cl_left c)(i := True)\<rparr>)"
| main_leaves:
    "\<not> cl_main_left c \<Longrightarrow> free 0 (cl_main c) \<Longrightarrow> pc (cl_main c) = Waiting \<Longrightarrow>
     base_empty lib (cl_main c) \<Longrightarrow> cluster_step lib N c (c\<lparr>cl_main_left := True\<rparr>)"

section \<open>The invariant\<close>

lemma post_by_inv:
  assumes "libevent_contract lib" and "free t s" and "system_inv lib s"
  shows "system_inv lib (post_by t p s)"
proof -
  obtain b d where p: "post_locked p (disp s) = (b, d)" by fastforce
  have "request lib s (post_by t p s)"
    unfolding post_by_def p using post_step [OF assms(2) p] by simp
  then show ?thesis by (rule request_inv [OF assms(1) _ assms(3)])
qed

lemma post_by_simps [simp]:
  "posted (post_by t p s) = posted s @ [p]" "called (post_by t p s) = called s" "pc (post_by t p s) = pc s"
  "handing (post_by t p s) = handing s"
  by (simp_all add: post_by_def post_locked_def)

lemma post_by_work:
  assumes "system_inv lib s"
  shows "work lib (post_by t p s) \<le> work lib s + 11"
proof -
  have "finite (posting s)" using assms by (simp add: system_inv_defs)
  then have "card (insert t (posting s)) \<le> Suc (card (posting s))" by (simp add: card_insert_if)
  then show ?thesis
    by (simp add: work_def post_by_def post_locked_def is_pending_def current_to_delete_def)
qed

lemma progress_called:
  "progress lib s s' \<Longrightarrow> called s' = called s \<or> (\<exists>c. called s' = called s @ [c])"
  by (induction rule: progress.induct) simp_all

lemma progress_handing: "progress lib s s' \<Longrightarrow> handing s = {} \<Longrightarrow> handing s' = {}"
  by (induction rule: progress.induct) simp_all

definition cluster_inv :: "'l libevent \<Rightarrow> listener_config list \<Rightarrow> nat \<Rightarrow> 'f manager \<Rightarrow> ('f, 'l) cluster \<Rightarrow> bool" where
  "cluster_inv lib cfgs N m c \<longleftrightarrow>
     (\<forall>i<N. system_inv lib (cl_loops c i) \<and> handing (cl_loops c i) = {}
        \<and> posted (cl_loops c i) @ cl_todo c i = worker_script cfgs
        \<and> run_worker_posts (called (cl_loops c i)) (Some (ConnectionHandlerImpl_new (Some (word_of_nat i))), 0)
          = Inr (cl_states c i))
     \<and> system_inv lib (cl_main c) \<and> handing (cl_main c) = {}
     \<and> length (posted (cl_main c)) = (\<Sum>i<N. length (filter is_add (called (cl_loops c i))))
     \<and> cl_manager c = (run_completion ^^ length (called (cl_main c))) (manager_started (N * length cfgs) m)"

lemma run_worker_posts_append:
  "run_worker_posts (ps @ qs) s = res_bind (run_worker_posts ps s) (run_worker_posts qs)"
proof (induction ps s rule: run_worker_posts.induct)
  case (2 overridden cfg ps ho n)
  then show ?case
  proof (cases ho)
    case (Some h)
    then show ?thesis using 2 [OF Some] by (cases "handler_addListener overridden cfg h") simp_all
  qed simp
qed simp_all

lemma sum_update:
  fixes f :: "'a \<Rightarrow> nat" and N :: nat
  assumes "i < N"
  shows "(\<Sum>j<N. f ((g(i := a)) j)) + f (g i) = (\<Sum>j<N. f (g j)) + f a"
proof -
  have "(\<Sum>j\<in>{..<N} - {i}. f ((g(i := a)) j)) = (\<Sum>j\<in>{..<N} - {i}. f (g j))" by (rule sum.cong) auto
  then show ?thesis using assms by (simp add: sum.remove [of "{..<N}" i])
qed

lemma called_prefix:
  assumes "system_inv lib s" and "posted s @ todo = script" and "called s = ps @ [p]"
  shows "\<exists>rest. script = ps @ p # rest"
  using assms by (auto simp: system_inv_def in_order_def)

lemma system_new_history [simp]:
  "posted (system_new now l) = []" "called (system_new now l) = []" "handing (system_new now l) = {}"
  by (simp_all add: system_new_def)

lemma cluster_new_inv: "cluster_inv lib cfgs N m (cluster_new cfgs N m now l lm)"
  by (simp add: cluster_inv_def cluster_new_def system_new_inv)

lemma run_one:
  assumes "run_worker_posts ps s0 = Inr s" and "run_worker_posts [p] s = Inr st"
  shows "run_worker_posts (ps @ [p]) s0 = Inr st"
  using assms by (simp add: run_worker_posts_append)

lemma cluster_step_inv:
  assumes lib: "libevent_contract lib" and "cluster_step lib N c c'" and inv: "cluster_inv lib cfgs N m c"
  shows "cluster_inv lib cfgs N m c'"
  using assms(2)
proof cases
  case (posts i p ps)
  then have "system_inv lib (post_by (poster p) p (cl_loops c i))"
    using inv by (intro post_by_inv [OF lib]) (simp_all add: cluster_inv_def)
  moreover have "(\<Sum>j<N. length (filter is_add (called (((cl_loops c)(i := post_by (poster p) p (cl_loops c i))) j))))
      = (\<Sum>j<N. length (filter is_add (called (cl_loops c j))))"
    by (rule sum.cong) simp_all
  moreover have "posted (cl_loops c i) @ p # ps = worker_script cfgs" using inv posts(2,3) by (auto simp: cluster_inv_def)
  ultimately show ?thesis using inv posts by (simp add: cluster_inv_def)
next
  case (worker_moves i s)
  have "(\<Sum>j<N. length (filter is_add (called (((cl_loops c)(i := s)) j))))
      = (\<Sum>j<N. length (filter is_add (called (cl_loops c j))))"
    using worker_moves by (intro sum.cong) simp_all
  moreover have "system_inv lib s" "handing s = {}" "posted s = posted (cl_loops c i)"
    using inv worker_moves progress_inv [OF lib worker_moves(3)] progress_handing [OF worker_moves(3)]
      progress_history [OF worker_moves(3)] by (simp_all add: cluster_inv_def)
  ultimately show ?thesis using inv worker_moves by (simp add: cluster_inv_def)
next
  case (worker_calls i s p st)
  have s: "system_inv lib s" "handing s = {}" "posted s = posted (cl_loops c i)"
    using inv worker_calls progress_inv [OF lib worker_calls(3)] progress_handing [OF worker_calls(3)]
      progress_history [OF worker_calls(3)] by (simp_all add: cluster_inv_def)
  have sum: "(\<Sum>j<N. length (filter is_add (called (((cl_loops c)(i := s)) j))))
      = (\<Sum>j<N. length (filter is_add (called (cl_loops c j)))) + (if is_add p then 1 else 0)"
    using sum_update [OF worker_calls(2), of "\<lambda>s. length (filter is_add (called s))" "cl_loops c" s] worker_calls(4)
    by simp
  have main: "system_inv lib (post_by (Suc i) () (cl_main c))"
    using inv worker_calls by (intro post_by_inv [OF lib]) (simp_all add: cluster_inv_def)
  have run: "run_worker_posts (called s) (Some (ConnectionHandlerImpl_new (Some (word_of_nat i))), 0) = Inr st"
    unfolding worker_calls(4) using inv worker_calls by (intro run_one) (simp_all add: cluster_inv_def)
  show ?thesis using inv worker_calls(1,2) s sum main run by (simp add: cluster_inv_def)
next
  case (main_moves s)
  then show ?thesis
    using inv progress_inv [OF lib main_moves(2)] progress_handing [OF main_moves(2)] progress_history [OF main_moves(2)]
    by (simp add: cluster_inv_def)
next
  case (main_calls s u)
  then show ?thesis
    using inv progress_inv [OF lib main_calls(2)] progress_handing [OF main_calls(2)] progress_history [OF main_calls(2)]
    by (simp add: cluster_inv_def)
qed (use inv in \<open>simp_all add: cluster_inv_def\<close>)

lemma cluster_run_inv:
  "libevent_contract lib \<Longrightarrow> (cluster_step lib N)\<^sup>*\<^sup>* c c' \<Longrightarrow> cluster_inv lib cfgs N m c \<Longrightarrow> cluster_inv lib cfgs N m c'"
proof -
  assume lib: "libevent_contract lib" and inv: "cluster_inv lib cfgs N m c"
  assume "(cluster_step lib N)\<^sup>*\<^sup>* c c'"
  then show ?thesis by (induction rule: rtranclp_induct) (use inv in \<open>auto intro: cluster_step_inv [OF lib]\<close>)
qed

section \<open>Every run ends\<close>

text \<open>What is left to do; a post adds at most eleven steps to a dispatcher.\<close>

definition loop_work :: "'l libevent \<Rightarrow> nat \<Rightarrow> (worker_post, 'l) system \<Rightarrow> nat" where
  "loop_work lib n s = work lib s + 12 * (n - length (filter is_add (called s)))"

definition cluster_work :: "'l libevent \<Rightarrow> nat \<Rightarrow> nat \<Rightarrow> ('f, 'l) cluster \<Rightarrow> nat" where
  "cluster_work lib n N c =
     (\<Sum>i<N. loop_work lib n (cl_loops c i)) + (\<Sum>i<N. 12 * length (cl_todo c i)) + work lib (cl_main c)
     + (\<Sum>i<N. if cl_left c i then 0 else 1) + (if cl_main_left c then 0 else 1)"

lemma script_adds: "length (filter is_add (worker_script cfgs)) = length cfgs"
  by (induction cfgs) (simp_all add: worker_script_def adds_def)

lemma adds_left:
  assumes "system_inv lib s" and "posted s @ todo = worker_script cfgs" and "called s = ps @ [p]"
  shows "length (filter is_add ps) + (if is_add p then 1 else 0) \<le> length cfgs"
proof -
  obtain rest where "worker_script cfgs = ps @ p # rest" using called_prefix [OF assms] by blast
  then show ?thesis using script_adds [of cfgs] by (auto split: if_splits)
qed

lemma cluster_step_work:
  assumes lib: "libevent_contract lib" and "cluster_step lib N c c'" and inv: "cluster_inv lib cfgs N m c"
  shows "cluster_work lib (length cfgs) N c' < cluster_work lib (length cfgs) N c"
  using assms(2)
proof cases
  case (posts i p ps)
  let ?s = "post_by (poster p) p (cl_loops c i)"
  have "work lib ?s \<le> work lib (cl_loops c i) + 11" using inv posts(2) by (intro post_by_work) (simp add: cluster_inv_def)
  then have "loop_work lib (length cfgs) ?s \<le> loop_work lib (length cfgs) (cl_loops c i) + 11"
    by (simp add: loop_work_def)
  then show ?thesis
    using posts sum_update [OF posts(2), of "loop_work lib (length cfgs)" "cl_loops c" ?s]
      sum_update [OF posts(2), of "\<lambda>xs. 12 * length xs" "cl_todo c" ps]
    by (simp add: cluster_work_def)
next
  case (worker_moves i s)
  have "work lib s < work lib (cl_loops c i)"
    using inv worker_moves(2) by (intro progress_work [OF lib worker_moves(3)]) (simp add: cluster_inv_def)
  then have "loop_work lib (length cfgs) s < loop_work lib (length cfgs) (cl_loops c i)"
    using worker_moves(4) by (simp add: loop_work_def)
  then show ?thesis
    using worker_moves sum_update [OF worker_moves(2), of "loop_work lib (length cfgs)" "cl_loops c" s]
    by (simp add: cluster_work_def)
next
  case (worker_calls i s p st)
  have w: "work lib s < work lib (cl_loops c i)"
    using inv worker_calls(2) by (intro progress_work [OF lib worker_calls(3)]) (simp add: cluster_inv_def)
  have s: "system_inv lib s" "posted s @ cl_todo c i = worker_script cfgs"
    using inv worker_calls(2) progress_inv [OF lib worker_calls(3)] progress_history [OF worker_calls(3)]
    by (simp_all add: cluster_inv_def)
  have "loop_work lib (length cfgs) s + (if is_add p then 12 else 0) < loop_work lib (length cfgs) (cl_loops c i)"
    using w adds_left [OF s worker_calls(4)] worker_calls(4) by (cases "is_add p") (simp_all add: loop_work_def)
  moreover have "work lib (post_by (Suc i) () (cl_main c)) \<le> work lib (cl_main c) + 11"
    using inv by (intro post_by_work) (simp add: cluster_inv_def)
  ultimately show ?thesis
    using worker_calls(1,2) sum_update [OF worker_calls(2), of "loop_work lib (length cfgs)" "cl_loops c" s]
    by (simp add: cluster_work_def split: if_splits)
next
  case (main_moves s)
  then show ?thesis using inv progress_work [OF lib main_moves(2)] by (simp add: cluster_work_def cluster_inv_def)
next
  case (main_calls s u)
  then show ?thesis using inv progress_work [OF lib main_calls(2)] by (simp add: cluster_work_def cluster_inv_def)
next
  case (worker_leaves i)
  then show ?thesis
    using sum_update [OF worker_leaves(2), of "\<lambda>b. if b then 0 else 1" "cl_left c" True] by (simp add: cluster_work_def)
qed (simp_all add: cluster_work_def)

lemma cluster_run_work:
  assumes lib: "libevent_contract lib" and inv: "cluster_inv lib cfgs N m c" and run: "(cluster_step lib N ^^ k) c c'"
  shows "cluster_inv lib cfgs N m c' \<and> k + cluster_work lib (length cfgs) N c' \<le> cluster_work lib (length cfgs) N c"
  using run
proof (induction k arbitrary: c')
  case (Suc k)
  then obtain u where u: "(cluster_step lib N ^^ k) c u" and st: "cluster_step lib N u c'" by auto
  have ih: "cluster_inv lib cfgs N m u" "k + cluster_work lib (length cfgs) N u \<le> cluster_work lib (length cfgs) N c"
    using Suc.IH [OF u] by blast+
  then show ?case using cluster_step_inv [OF lib st ih(1)] cluster_step_work [OF lib st ih(1)] by simp
qed (use inv in simp)

section \<open>Where it ends\<close>

text \<open>What one handler makes of the listeners: it takes them in order, up to the first whose addition is undefined or
  throws.\<close>

fun handler_add_until :: "listener_config list \<Rightarrow> handler \<Rightarrow> handler \<times> nat" where
  "handler_add_until [] h = (h, 0)"
| "handler_add_until (cfg # cfgs) h =
     (case handler_addListener None cfg h of
        Inl e \<Rightarrow> (h, 0)
      | Inr h1 \<Rightarrow> (case handler_add_until cfgs h1 of (h2, n) \<Rightarrow> (h2, Suc n)))"

definition takes_listeners :: "listener_config list \<Rightarrow> nat \<Rightarrow> handler \<times> nat" where
  "takes_listeners cfgs i = handler_add_until cfgs (ConnectionHandlerImpl_new (Some (word_of_nat i)))"

lemma add_until_all: "handler_add_all cfgs h = Inr h' \<longleftrightarrow> handler_add_until cfgs h = (h', length cfgs)"
  by (induction cfgs arbitrary: h) (auto simp: res_bind_Inr_iff split: sum.splits prod.splits)


text \<open>A script that stops before an undefined call.\<close>

lemma add_until_stops:
  assumes "worker_script cfgs = ps @ q # rest" and "run_worker_posts ps (Some h, k) = Inr st"
    and "run_worker_posts [q] st = Inl e"
  shows "case handler_add_until cfgs h of (h', n) \<Rightarrow> st = (Some h', k + n) \<and> n = length (filter is_add ps) \<and> n < length cfgs"
  using assms
proof (induction cfgs arbitrary: ps h k)
  case Nil
  then show ?case by (cases ps) (simp_all add: worker_script_def adds_def)
next
  case (Cons cfg cfgs)
  show ?case
  proof (cases ps)
    case Nil
    then have "q = Add_listener None cfg" "st = (Some h, k)" using Cons.prems by (simp_all add: worker_script_def adds_def)
    then show ?thesis using Cons.prems(3) Nil by (cases "handler_addListener None cfg h") simp_all
  next
    case (Cons p ps')
    then have p: "p = Add_listener None cfg" and r: "worker_script cfgs = ps' @ q # rest"
      using Cons.prems(1) by (simp_all add: worker_script_def adds_def)
    obtain h1 where h1: "handler_addListener None cfg h = Inr h1" "run_worker_posts ps' (Some h1, Suc k) = Inr st"
      using Cons.prems(2) p Cons by (auto simp: res_bind_Inr_iff)
    show ?thesis using Cons.IH [OF r h1(2) Cons.prems(3)] by (simp add: h1(1) p Cons split: prod.splits)
  qed
qed

text \<open>A worker's posts are all in its list before it starts, and it takes them all at once.\<close>

definition taken_once :: "(worker_post, 'l) system \<Rightarrow> worker_post list \<Rightarrow> bool \<Rightarrow> bool" where
  "taken_once s todo left \<longleftrightarrow>
     (pc s \<noteq> Not_started \<longrightarrow> todo = [])
     \<and> (pc s \<notin> {Not_started, Entered, Cleared} \<longrightarrow> post_callbacks (disp s) = [])
     \<and> (left \<longrightarrow> pc s = Waiting)"

lemma progress_pc: "progress lib s s' \<Longrightarrow> pc s' = Not_started \<Longrightarrow> pc s = Not_started"
  by (induction rule: progress.induct) simp_all

lemma progress_posting_pc: "progress lib s s' \<Longrightarrow> posting s' \<noteq> posting s \<Longrightarrow> pc s' = pc s"
  by (induction rule: progress.induct) simp_all

lemma progress_callbacks:
  assumes lib: "libevent_contract lib" and "progress lib s s'" and inv: "system_inv lib s"
    and "pc s \<notin> {Not_started, Entered, Cleared} \<longrightarrow> post_callbacks (disp s) = []"
  shows "pc s' \<notin> {Not_started, Entered, Cleared} \<longrightarrow> post_callbacks (disp s') = []"
  using assms(2)
proof cases
  case fire_deferred
  have v: "\<not> deferred_deleting (fire lib deferred_delete_cb (disp s))" "other_to_delete (fire lib deferred_delete_cb (disp s)) = []"
    using inv by (simp_all add: system_inv_defs disp_simps)
  show ?thesis using fire_deferred assms(4) by (simp add: clear_spec(5) [OF lib v] disp_simps)
qed (use assms(4) in \<open>auto simp: disp_simps take_posts_def take_deletables_def\<close>)

lemma taken_once_progress:
  assumes "libevent_contract lib" and "progress lib s s'" and "system_inv lib s" and "taken_once s todo left"
    and "pc s = Not_started \<longrightarrow> pc s' = Not_started \<or> todo = []" and "left \<longrightarrow> posting s' \<noteq> posting s"
  shows "taken_once s' todo left"
  using assms(4-6) progress_callbacks [OF assms(1-3)] progress_pc [OF assms(2)] progress_posting_pc [OF assms(2)]
  unfolding taken_once_def by metis

lemma call_started: "progress lib s s' \<Longrightarrow> called s' = called s @ [p] \<Longrightarrow> pc s \<noteq> Not_started"
  by (induction rule: progress.induct) simp_all

definition workers_take_once :: "nat \<Rightarrow> ('f, 'l) cluster \<Rightarrow> bool" where
  "workers_take_once N c \<longleftrightarrow> (\<forall>i<N. taken_once (cl_loops c i) (cl_todo c i) (cl_left c i))"

lemma cluster_step_take_once:
  assumes lib: "libevent_contract lib" and "cluster_step lib N c c'" and inv: "cluster_inv lib cfgs N m c"
    and ok: "workers_take_once N c"
  shows "workers_take_once N c'"
  using assms(2)
proof cases
  case (posts i p ps)
  then have t: "taken_once (cl_loops c i) (p # ps) (cl_left c i)" using ok by (metis workers_take_once_def)
  then have "taken_once (post_by (poster p) p (cl_loops c i)) ps (cl_left c i)" by (auto simp: taken_once_def)
  then show ?thesis using ok posts(1) by (simp add: workers_take_once_def)
next
  case (worker_moves i s)
  have "system_inv lib (cl_loops c i)" "taken_once (cl_loops c i) (cl_todo c i) (cl_left c i)"
    using inv ok worker_moves(2) by (simp_all add: cluster_inv_def workers_take_once_def)
  then have "taken_once s (cl_todo c i) (cl_left c i)"
    using worker_moves by (intro taken_once_progress [OF lib worker_moves(3)])
  then show ?thesis using ok worker_moves(1) by (simp add: workers_take_once_def)
next
  case (worker_calls i s p st)
  have "system_inv lib (cl_loops c i)" "taken_once (cl_loops c i) (cl_todo c i) (cl_left c i)"
    using inv ok worker_calls(2) by (simp_all add: cluster_inv_def workers_take_once_def)
  then have "taken_once s (cl_todo c i) (cl_left c i)"
    using worker_calls call_started [OF worker_calls(3,4)] by (intro taken_once_progress [OF lib worker_calls(3)]) simp_all
  then show ?thesis using ok worker_calls(1) by (simp add: workers_take_once_def)
next
  case (worker_leaves i)
  then show ?thesis using ok by (auto simp: workers_take_once_def taken_once_def)
qed (use ok in \<open>simp_all add: workers_take_once_def\<close>)

text \<open>Another event in its base, the server's timer, keeps the main thread in its loop.\<close>

definition main_kept :: "'l libevent \<Rightarrow> ev \<Rightarrow> ('f, 'l) cluster \<Rightarrow> bool" where
  "main_kept lib e c \<longleftrightarrow> is_pending lib e (cl_main c) \<and> \<not> cl_main_left c"

lemma post_by_pending [simp]: "is_pending lib e (post_by t p s) = is_pending lib e s"
  by (simp add: is_pending_def post_by_def post_locked_def)

lemma cluster_step_kept:
  assumes lib: "libevent_contract lib" and "cluster_step lib N c c'" and inv: "cluster_inv lib cfgs N m c"
    and e: "e \<notin> {post_cb, thread_local_delete_cb, deferred_delete_cb}" and kept: "main_kept lib e c"
  shows "main_kept lib e c'"
proof -
  have s: "system_inv lib (cl_main c)" using inv by (simp add: cluster_inv_def)
  show ?thesis using assms(2)
  proof cases
    case (main_moves s)
    then show ?thesis using kept progress_other [OF lib main_moves(2) s e] by (simp add: main_kept_def)
  next
    case (main_calls s u)
    then show ?thesis using kept progress_other [OF lib main_calls(2) s e] by (simp add: main_kept_def)
  next
    case main_leaves
    then show ?thesis using kept by (auto simp: main_kept_def base_empty_def)
  qed (use kept in \<open>simp_all add: main_kept_def\<close>)
qed

lemma cluster_run_kept:
  assumes lib: "libevent_contract lib" and inv: "cluster_inv lib cfgs N m c" and "(cluster_step lib N ^^ k) c c'"
    and e: "e \<notin> {post_cb, thread_local_delete_cb, deferred_delete_cb}" and "main_kept lib e c" and "workers_take_once N c"
  shows "main_kept lib e c' \<and> workers_take_once N c'"
  using assms(3)
proof (induction k arbitrary: c')
  case (Suc k)
  then obtain u where u: "(cluster_step lib N ^^ k) c u" and st: "cluster_step lib N u c'" by auto
  have "cluster_inv lib cfgs N m u" using cluster_run_work [OF lib inv u] by blast
  then show ?case
    using Suc.IH [OF u] cluster_step_kept [OF lib st _ e] cluster_step_take_once [OF lib st] by blast
qed (use assms(5,6) in simp)

section \<open>At rest\<close>

lemma rest_main:
  assumes "\<And>c'. \<not> cluster_step lib N c c'"
  shows "posting (cl_main c) = {}" and "\<not> cl_main_left c \<Longrightarrow> \<not> progress lib (cl_main c) s"
proof -
  show "posting (cl_main c) = {}"
  proof (rule ccontr)
    assume "posting (cl_main c) \<noteq> {}"
    then obtain t where t: "t \<in> posting (cl_main c)" by blast
    show False using assms main_moves [OF schedule_post [OF t, of lib]] t by force
  qed
  show "\<not> progress lib (cl_main c) s" if "\<not> cl_main_left c"
    using assms main_moves main_calls progress_called that by metis
qed

lemma rest_worker_free:
  assumes stuck: "\<And>c'. \<not> cluster_step lib N c c'" and i: "i < N" and "handing (cl_loops c i) = {}"
  shows "posting (cl_loops c i) = {}" and "free t (cl_loops c i)" and "cl_todo c i = []"
proof -
  let ?s = "cl_loops c i"
  show p: "posting ?s = {}"
  proof (rule ccontr)
    assume "posting ?s \<noteq> {}"
    then obtain t where t: "t \<in> posting ?s" by blast
    show False using stuck worker_moves [OF i schedule_post [OF t, of lib]] t by force
  qed
  then have f: "free t ?s" for t using assms(3) by (simp add: free_def)
  then show "free t ?s" .
  show "cl_todo c i = []" using stuck posts [OF i _ f] by (cases "cl_todo c i") blast+
qed

text \<open>A worker at rest has called its script as far as its handler goes.\<close>

lemma rest_worker:
  assumes lib: "libevent_contract lib" and inv: "cluster_inv lib cfgs N m c" and once: "workers_take_once N c"
    and stuck: "\<And>c'. \<not> cluster_step lib N c c'" and i: "i < N"
  shows "(case takes_listeners cfgs i of (h, n) \<Rightarrow>
            cl_states c i = (Some h, n) \<and> length (filter is_add (called (cl_loops c i))) = n)"
    and "snd (takes_listeners cfgs i) = length cfgs \<Longrightarrow> called (cl_loops c i) = worker_script cfgs"
proof -
  let ?s = "cl_loops c i" and ?h = "ConnectionHandlerImpl_new (Some (word_of_nat i))"
  have s: "system_inv lib ?s" "handing ?s = {}" "posted ?s @ cl_todo c i = worker_script cfgs"
    "run_worker_posts (called ?s) (Some ?h, 0) = Inr (cl_states c i)"
    using inv i by (simp_all add: cluster_inv_def)
  note rest = rest_worker_free [OF stuck i s(2)]
  consider "called ?s = worker_script cfgs"
    | s' q where "progress lib ?s s'" "called s' = called ?s @ [q]" "\<not> cl_left c i"
  proof (cases "cl_left c i \<or> (\<forall>s'. \<not> progress lib ?s s')")
    case True
    then have "called ?s = posted ?s"
    proof
      assume "cl_left c i"
      then have "pc ?s = Waiting" "post_callbacks (disp ?s) = []"
        using once i by (auto simp: workers_take_once_def taken_once_def)
      then show ?thesis using s(1) by (simp add: system_inv_defs)
    qed (use stuck_done [OF s(1)] in blast)
    then show thesis using s(3) rest(3) that(1) by simp
  next
    case False
    then obtain s' where s': "progress lib ?s s'" "\<not> cl_left c i" by blast
    have "called s' \<noteq> called ?s" using stuck worker_moves [OF i s'(1)] s'(2) rest(3) by blast
    then show thesis using progress_called [OF s'(1)] that(2) s' by blast
  qed
  then have both: "(case takes_listeners cfgs i of (h, n) \<Rightarrow>
            cl_states c i = (Some h, n) \<and> length (filter is_add (called (cl_loops c i))) = n)
    \<and> (snd (takes_listeners cfgs i) = length cfgs \<longrightarrow> called (cl_loops c i) = worker_script cfgs)"
  proof cases
    case 1
    then obtain h where "handler_add_all cfgs ?h = Inr h" "cl_states c i = (Some h, length cfgs)"
      using s(4) by (auto simp: worker_script_def run_adds res_bind_Inr_iff)
    then show ?thesis using 1 by (simp add: takes_listeners_def add_until_all script_adds)
  next
    case (2 s' q)
    have "free (Suc i) (cl_main c)" using rest_main(1) [OF stuck] inv by (simp add: free_def cluster_inv_def)
    then obtain e where e: "run_worker_posts [q] (cl_states c i) = Inl e"
      using stuck worker_calls [OF i 2] by (cases "run_worker_posts [q] (cl_states c i)") blast+
    have "posted s' @ cl_todo c i = worker_script cfgs" using progress_history [OF 2(1)] s(3) by simp
    then obtain rest where "worker_script cfgs = called ?s @ q # rest"
      using called_prefix [OF progress_inv [OF lib 2(1) s(1)] _ 2(2)] by blast
    from add_until_stops [OF this s(4) e] show ?thesis by (auto simp: takes_listeners_def split: prod.splits)
  qed
  show "(case takes_listeners cfgs i of (h, n) \<Rightarrow>
            cl_states c i = (Some h, n) \<and> length (filter is_add (called (cl_loops c i))) = n)"
    using both by (rule conjunct1)
  show "snd (takes_listeners cfgs i) = length cfgs \<Longrightarrow> called (cl_loops c i) = worker_script cfgs" using both by blast
qed



lemma cluster_reaches_rest:
  assumes "libevent_contract lib"
  shows "\<exists>k c. (cluster_step lib N ^^ k) (cluster_new cfgs N m now l lm) c \<and> \<not> (\<exists>c'. cluster_step lib N c c')"
proof (rule ccontr)
  assume never: "\<not> ?thesis"
  have "\<exists>c. (cluster_step lib N ^^ k) (cluster_new cfgs N m now l lm) c" for k
  proof (induction k)
    case (Suc k)
    then obtain c where "(cluster_step lib N ^^ k) (cluster_new cfgs N m now l lm) c" by blast
    then show ?case using never by (metis relpowp_Suc_I)
  qed simp
  then obtain c where
    "(cluster_step lib N ^^ Suc (cluster_work lib (length cfgs) N (cluster_new cfgs N m now l lm))) (cluster_new cfgs N m now l lm) c"
    by blast
  from cluster_run_work [OF assms cluster_new_inv this] show False by simp
qed

section \<open>Properties\<close>

text \<open>Property C5. Whatever the schedule, once a worker has reported its start (which is what \<open>startWorkers\<close> waits for) its
  handler is the one the sequential model computes: all the listeners have been added to it, in order. And the
  callback of \<open>startWorkers\<close> has been called at most once, never before every worker has added every listener.\<close>

theorem startup_refines_startWorkers:
  assumes "libevent_contract lib" and "(cluster_step lib N)\<^sup>*\<^sup>* (cluster_new cfgs N m now l lm) c"
    and "N * length cfgs < 2 ^ 64"
  shows "(\<forall>i<N. Worker_started \<in> set (called (cl_loops c i)) \<longrightarrow>
            run_worker_posts (worker_script cfgs) (Some (ConnectionHandlerImpl_new (Some (word_of_nat i))), 0)
            = Inr (cl_states c i))
       \<and> (callback_calls (cl_manager c) = callback_calls m
          \<or> callback_calls (cl_manager c) = Suc (callback_calls m)
            \<and> (\<forall>i<N. length (filter is_add (called (cl_loops c i))) = length cfgs))"
proof -
  have inv: "cluster_inv lib cfgs N m c" by (rule cluster_run_inv [OF assms(1,2) cluster_new_inv])
  have pre: "\<exists>rest. worker_script cfgs = called (cl_loops c i) @ rest" if "i < N" for i
    using inv that unfolding cluster_inv_def system_inv_def in_order_def by (metis append_assoc)
  have le: "length (filter is_add (called (cl_loops c i))) \<le> length cfgs" if "i < N" for i
    using pre [OF that] script_adds [of cfgs] by auto
  have 1: "called (cl_loops c i) = worker_script cfgs" if a: "i < N" and b: "Worker_started \<in> set (called (cl_loops c i))" for i
  proof -
    obtain rest where r: "worker_script cfgs = called (cl_loops c i) @ rest" using pre [OF a] by blast
    have "Worker_started \<notin> set (adds cfgs)" by (auto simp: adds_def)
    then show ?thesis
      using r b unfolding worker_script_def by (cases rest rule: rev_cases) auto
  qed
  let ?n = "N * length cfgs" and ?k = "length (called (cl_main c))"
  have "?k \<le> length (posted (cl_main c))" using inv by (simp add: cluster_inv_def system_inv_def in_order_def)
  then have k: "?k \<le> (\<Sum>i<N. length (filter is_add (called (cl_loops c i))))" using inv by (simp add: cluster_inv_def)
  have s: "(\<Sum>i<N. length (filter is_add (called (cl_loops c i)))) \<le> ?n"
    using sum_bounded_above [of "{..<N}" "\<lambda>i. length (filter is_add (called (cl_loops c i)))" "length cfgs"] le by simp
  have "cl_manager c = (run_completion ^^ ?k) (manager_started ?n m)" using inv by (simp add: cluster_inv_def)
  then have 2: "callback_calls (cl_manager c) = callback_calls m + (if 0 < ?k \<and> ?k = ?n then 1 else 0)"
    using completions_countdown [of "manager_started ?n m" ?n ?k] k s assms(3) by (simp add: manager_started_def)
  have 3: "\<forall>i<N. length (filter is_add (called (cl_loops c i))) = length cfgs" if "?k = ?n"
  proof (rule ccontr)
    assume "\<not> ?thesis"
    then obtain i where i: "i < N" "length (filter is_add (called (cl_loops c i))) < length cfgs"
      using le by (meson le_neq_implies_less)
    then have "(\<Sum>i<N. length (filter is_add (called (cl_loops c i)))) < (\<Sum>i<N. length cfgs)"
      using le by (intro sum_strict_mono_ex1) auto
    then show False using k that by simp
  qed
  show ?thesis using 1 2 3 inv by (auto simp: cluster_inv_def)
qed


section \<open>Witnesses\<close>

definition no_manager :: "nat manager" where
  "no_manager = ListenerManagerImpl_new 2"


lemma two_take:
  "snd (takes_listeners [cfg6, cfg4] 0) = 2" "snd (takes_listeners [cfg6, cfg4] 1) = 2"
  by code_simp+


lemma two_at_rest:
  "\<exists>k c. (cluster_step set_libevent 2 ^^ k) (cluster_new [cfg6, cfg4] 2 no_manager 0 [] [9]) c
     \<and> \<not> (\<exists>c'. cluster_step set_libevent 2 c c') \<and> called (cl_loops c 1) = worker_script [cfg6, cfg4]"
proof -
  let ?c0 = "cluster_new [cfg6, cfg4] 2 no_manager 0 [] [9]"
  obtain k c where c: "(cluster_step set_libevent 2 ^^ k) ?c0 c" "\<not> (\<exists>c'. cluster_step set_libevent 2 c c')"
    using cluster_reaches_rest [OF set_libevent_contract] by blast
  have inv: "cluster_inv set_libevent [cfg6, cfg4] 2 no_manager c"
    using cluster_run_work [OF set_libevent_contract cluster_new_inv c(1)] by blast
  have "main_kept set_libevent 9 ?c0" "workers_take_once 2 ?c0"
    by (simp_all add: main_kept_def workers_take_once_def taken_once_def is_pending_def cluster_new_def system_new_def
        DispatcherImpl_new_def set_libevent_def)
  from cluster_run_kept [OF set_libevent_contract cluster_new_inv c(1) _ this] have "workers_take_once 2 c"
    by (simp add: post_cb_def thread_local_delete_cb_def deferred_delete_cb_def)
  from rest_worker(2) [OF set_libevent_contract inv this, of 1] c(2) two_take(2)
  have "called (cl_loops c 1) = worker_script [cfg6, cfg4]" by simp
  then show ?thesis using c by blast
qed

theorem startup_refines_startWorkers_witness:
  "\<exists>c. (cluster_step set_libevent 2)\<^sup>*\<^sup>* (cluster_new [cfg6, cfg4] 2 no_manager 0 [] [9]) c
     \<and> run_worker_posts (worker_script [cfg6, cfg4]) (Some (ConnectionHandlerImpl_new (Some (word_of_nat 1))), 0)
       = Inr (cl_states c 1)"
proof -
  obtain k c where c: "(cluster_step set_libevent 2 ^^ k) (cluster_new [cfg6, cfg4] 2 no_manager 0 [] [9]) c"
    "called (cl_loops c 1) = worker_script [cfg6, cfg4]" using two_at_rest by blast
  have r: "(cluster_step set_libevent 2)\<^sup>*\<^sup>* (cluster_new [cfg6, cfg4] 2 no_manager 0 [] [9]) c"
    using c(1) by (rule relpowp_imp_rtranclp)
  have "Worker_started \<in> set (called (cl_loops c 1))" using c(2) by (simp add: worker_script_def)
  then have "run_worker_posts (worker_script [cfg6, cfg4]) (Some (ConnectionHandlerImpl_new (Some (word_of_nat 1))), 0)
      = Inr (cl_states c 1)"
    by (intro startup_refines_startWorkers [OF set_libevent_contract r, THEN conjunct1, THEN spec, THEN mp, THEN mp]) simp_all
  then show ?thesis using r by blast
qed


end
