(* ===== verification/CommonParts.thy ===== *)
theory CommonParts
  imports StringUtil Scheduling
begin

text \<open>
  Small parts of \<open>common/common\<close>: \<open>ClosedIntervalValue\<close> (\<open>Interval_value.h\<close>), the memory streams, \<open>InlineString\<close> and
  \<open>SetUtil\<close> of \<open>Utility.h\<close> and \<open>Utility.cpp\<close>; and the two watchers of \<open>LibeventScheduler\<close> that measure the loop
  (\<open>common/event/LibeventScheduler.cpp\<close>).
\<close>

section \<open>Closed intervals\<close>

text \<open>
  The template's interval is the pair of its bounds. The laws below are about exact arithmetic; the one instance in
  the tree, \<open>UnitFloat\<close>, rounds the subtraction of \<open>invert\<close>.
\<close>

datatype 'a closed_value = Closed_value (cv_value: 'a)

type_synonym 'a closed_interval = "'a \<times> 'a"

definition cv_new :: "'a::linorder closed_interval \<Rightarrow> 'a \<Rightarrow> 'a closed_value" where
  "cv_new I v = Closed_value (max (fst I) (min (snd I) v))"

definition cv_min :: "'a::linorder closed_interval \<Rightarrow> 'a closed_value" where "cv_min I = cv_new I (fst I)"
definition cv_max :: "'a::linorder closed_interval \<Rightarrow> 'a closed_value" where "cv_max I = cv_new I (snd I)"

definition cv_invert :: "'a::{linorder,minus} closed_interval \<Rightarrow> 'a closed_value \<Rightarrow> 'a closed_value" where
  "cv_invert I c =
     cv_new I (if cv_value c = snd I then fst I else if cv_value c = fst I then snd I
               else snd I - (cv_value c - fst I))"

text \<open>The comparisons compare the values.\<close>

definition cv_le :: "'a::linorder closed_value \<Rightarrow> 'a closed_value \<Rightarrow> bool" where
  "cv_le a b = (cv_value a \<le> cv_value b)"

definition cv_less :: "'a::linorder closed_value \<Rightarrow> 'a closed_value \<Rightarrow> bool" where
  "cv_less a b = (cv_value a < cv_value b)"

instantiation closed_value :: (linorder) linorder
begin

definition less_eq_closed_value :: "'a closed_value \<Rightarrow> 'a closed_value \<Rightarrow> bool" where
  "less_eq_closed_value = cv_le"

definition less_closed_value :: "'a closed_value \<Rightarrow> 'a closed_value \<Rightarrow> bool" where
  "less_closed_value = cv_less"

instance
  by standard (auto simp: less_eq_closed_value_def less_closed_value_def cv_le_def cv_less_def intro: closed_value.expand)

end

definition cv_in :: "'a::linorder closed_interval \<Rightarrow> 'a closed_value \<Rightarrow> bool" where
  "cv_in I c \<longleftrightarrow> fst I \<le> cv_value c \<and> cv_value c \<le> snd I"

lemma cv_new_in: "fst I \<le> snd I \<Longrightarrow> cv_in I (cv_new I v)"
  by (auto simp: cv_in_def cv_new_def max_def min_def)

lemma cv_new_value: "cv_in I (Closed_value v) \<Longrightarrow> cv_new I v = Closed_value v"
  by (simp add: cv_in_def cv_new_def)

lemma cv_invert_value:
  fixes I :: "'a::linordered_idom closed_interval"
  assumes "cv_in I c"
  shows "cv_invert I c = Closed_value (snd I - (cv_value c - fst I))"
proof -
  have "cv_in I (Closed_value (snd I - (cv_value c - fst I)))" using assms by (simp add: cv_in_def)
  from cv_new_value [OF this] show ?thesis using assms by (auto simp: cv_invert_def cv_in_def)
qed

lemma cv_laws:
  fixes I :: "'a::linordered_idom closed_interval"
  assumes "cv_in I a" and "cv_in I b"
  shows "cv_invert I (cv_invert I a) = a" and "cv_invert I a \<le> cv_invert I b \<longleftrightarrow> b \<le> a"
    and "cv_min I \<le> a" and "a \<le> cv_max I" and "cv_in I (cv_invert I a)"
proof -
  have in_inv: "cv_in I (Closed_value (snd I - (cv_value a - fst I)))" using assms by (simp add: cv_in_def)
  show "cv_invert I (cv_invert I a) = a"
    using cv_invert_value [OF in_inv] by (simp add: cv_invert_value [OF assms(1)])
  show "cv_invert I a \<le> cv_invert I b \<longleftrightarrow> b \<le> a"
    by (simp add: cv_invert_value [OF assms(1)] cv_invert_value [OF assms(2)] less_eq_closed_value_def cv_le_def)
  show "cv_min I \<le> a" and "a \<le> cv_max I"
    using assms(1) by (auto simp: cv_min_def cv_max_def cv_new_def cv_in_def less_eq_closed_value_def cv_le_def min_def max_def)
  show "cv_in I (cv_invert I a)" using in_inv by (simp add: cv_invert_value [OF assms(1)])
qed

section \<open>Memory streams\<close>

text \<open>
  An \<open>OutputBufferStream\<close> over \<open>size\<close> bytes: what has been written and whether the stream is still good. A string
  is copied as far as the put area goes; the rest meets \<open>overflow\<close>, which fails, and the stream goes bad for good.
\<close>

record output_stream =
  os_size :: nat
  os_written :: string
  os_good :: bool

definition OutputBufferStream_new :: "nat \<Rightarrow> output_stream" where
  "OutputBufferStream_new n = \<lparr>os_size = n, os_written = [], os_good = True\<rparr>"

definition os_write :: "string \<Rightarrow> output_stream \<Rightarrow> output_stream" where
  "os_write s os =
     (if \<not> os_good os then os
      else let room = os_size os - length (os_written os)
        in os\<lparr>os_written := os_written os @ take room s, os_good := (length s \<le> room)\<rparr>)"

definition bytesWritten :: "output_stream \<Rightarrow> nat" where "bytesWritten os = length (os_written os)"

definition os_contents :: "output_stream \<Rightarrow> string" where "os_contents os = take (bytesWritten os) (os_written os)"

text \<open>An \<open>InputConstMemoryStream\<close>: what is left to read.\<close>

definition InputConstMemoryStream_new :: "string \<Rightarrow> nat \<Rightarrow> string result" where
  "InputConstMemoryStream_new data n = (if n \<le> length data then Inr (take n data) else Inl Undefined_behaviour)"

definition is_read :: "nat \<Rightarrow> string \<Rightarrow> string \<times> string" where
  "is_read n s = (take n s, drop n s)"

definition os_inv :: "string \<Rightarrow> output_stream \<Rightarrow> bool" where
  "os_inv all os \<longleftrightarrow> os_written os = take (os_size os) all \<and> os_good os = (length all \<le> os_size os)"

lemma os_write_inv: "os_inv all os \<Longrightarrow> os_inv (all @ s) (os_write s os)"
  by (auto simp: os_inv_def os_write_def Let_def)

lemma os_write_size [simp]: "os_size (os_write s os) = os_size os"
  by (simp add: os_write_def Let_def)

lemma os_writes_inv: "os_inv all os \<Longrightarrow> os_inv (all @ concat ss) (fold os_write ss os) \<and> os_size (fold os_write ss os) = os_size os"
proof (induction ss arbitrary: all os)
  case (Cons s ss)
  then show ?case using Cons.IH [OF os_write_inv [OF Cons.prems]] by simp
qed simp

section \<open>Inline strings and sets\<close>

text \<open>The size is kept in 32 bits.\<close>

record inline_string =
  is_size :: u32
  is_data :: string

definition InlineString_create :: "string \<Rightarrow> inline_string" where
  "InlineString_create str = \<lparr>is_size = word_of_nat (length str), is_data = str\<rparr>"

definition InlineString_toString :: "inline_string \<Rightarrow> string" where
  "InlineString_toString s = take (unat (is_size s)) (is_data s)"

definition InlineString_toStringView :: "inline_string \<Rightarrow> string" where
  "InlineString_toStringView s = take (unat (is_size s)) (is_data s)"

lemma InlineString_roundtrip: "length str < 2 ^ 32 \<Longrightarrow> InlineString_toString (InlineString_create str) = str"
  by (simp add: InlineString_toString_def InlineString_create_def unat_of_nat take_bit_nat_eq_self)

lemma InlineString_wraps: "length str = 2 ^ 32 \<Longrightarrow> InlineString_toString (InlineString_create str) = []"
  by (simp add: InlineString_toString_def InlineString_create_def unat_of_nat)

definition setDifference :: "'a set \<Rightarrow> 'a set \<Rightarrow> 'a set \<Rightarrow> 'a set" where
  "setDifference original_set remove_set result_set = result_set \<union> Set.filter (\<lambda>v. v \<notin> remove_set) original_set"

section \<open>Tracked objects\<close>

text \<open>A \<open>ScopeTrackedObjectStack\<close>; \<open>dump\<close> is what an object writes to a stream at an indentation.\<close>

definition tracked_add :: "'o \<Rightarrow> 'o list \<Rightarrow> 'o list" where
  "tracked_add object stack = stack @ [object]"

definition tracked_dumpState :: "('o \<Rightarrow> int \<Rightarrow> string \<Rightarrow> string) \<Rightarrow> 'o list \<Rightarrow> int \<Rightarrow> string \<Rightarrow> string" where
  "tracked_dumpState dump stack indent_level os = fold (\<lambda>object. dump object indent_level) (rev stack) os"

lemma dumpState_innermost_first:
  "tracked_dumpState dump (tracked_add object stack) indent_level os =
     tracked_dumpState dump stack indent_level (dump object indent_level os)"
  by (simp add: tracked_dumpState_def tracked_add_def)

section \<open>Measuring the loop\<close>

record loop_watch =
  timeout_set :: bool
  lw_timeout :: timeval
  prepare_time :: timeval
  check_time :: timeval

definition loop_watch_new :: loop_watch where
  "loop_watch_new = \<lparr>timeout_set = False, lw_timeout = \<lparr>tv_sec = 0, tv_usec = 0\<rparr>,
     prepare_time = \<lparr>tv_sec = 0, tv_usec = 0\<rparr>, check_time = \<lparr>tv_sec = 0, tv_usec = 0\<rparr>\<rparr>"

definition evutil_timersub :: "timeval \<Rightarrow> timeval \<Rightarrow> timeval" where
  "evutil_timersub a b =
     (let s = tv_sec a - tv_sec b; u = tv_usec a - tv_usec b
      in if u < 0 then \<lparr>tv_sec = s - 1, tv_usec = u + 1000000\<rparr> else \<lparr>tv_sec = s, tv_usec = u\<rparr>)"

text \<open>The two hooks: the new state, and the duration that would be recorded (the recording is commented out). What
  libevent reports of the timeout, if it is set, and the time of day are arguments.\<close>

definition onPrepareForStats :: "timeval option \<Rightarrow> timeval \<Rightarrow> loop_watch \<Rightarrow> loop_watch \<times> timeval option" where
  "onPrepareForStats poll now w =
     (let w1 = w\<lparr>timeout_set := (poll \<noteq> None), lw_timeout := (case poll of None \<Rightarrow> lw_timeout w | Some t \<Rightarrow> t),
                 prepare_time := now\<rparr>
      in (w1, if tv_sec (check_time w) \<noteq> 0 then Some (evutil_timersub now (check_time w)) else None))"

definition onCheckForStats :: "timeval \<Rightarrow> loop_watch \<Rightarrow> loop_watch \<times> timeval option" where
  "onCheckForStats now w =
     (w\<lparr>check_time := now\<rparr>,
      if timeout_set w
      then let delta = evutil_timersub now (prepare_time w); delay = evutil_timersub delta (lw_timeout w)
        in if tv_sec delay \<ge> 0 then Some delay else None
      else None)"

definition usec :: "timeval \<Rightarrow> int" where "usec t = 1000000 * tv_sec t + tv_usec t"

definition tv_ok :: "timeval \<Rightarrow> bool" where "tv_ok t \<longleftrightarrow> 0 \<le> tv_usec t \<and> tv_usec t < 1000000"

lemma evutil_timersub_usec:
  "tv_ok a \<Longrightarrow> tv_ok b \<Longrightarrow> usec (evutil_timersub a b) = usec a - usec b \<and> tv_ok (evutil_timersub a b)"
  by (simp add: evutil_timersub_def usec_def tv_ok_def Let_def)

lemma tv_sec_nonneg: "tv_ok t \<Longrightarrow> 0 \<le> tv_sec t \<longleftrightarrow> 0 \<le> usec t"
  by (auto simp: usec_def tv_ok_def)

section \<open>Properties\<close>

text \<open>A memory stream of \<open>size\<close> bytes holds the first \<open>size\<close> bytes of all that was written to it, in however many
  pieces, and is good exactly as long as everything fits.\<close>

theorem output_stream_prefix:
  "os_contents (fold os_write ss (OutputBufferStream_new n)) = take n (concat ss)
   \<and> bytesWritten (fold os_write ss (OutputBufferStream_new n)) = min n (length (concat ss))
   \<and> os_good (fold os_write ss (OutputBufferStream_new n)) = (length (concat ss) \<le> n)"
proof -
  have "os_inv [] (OutputBufferStream_new n)" by (simp add: os_inv_def OutputBufferStream_new_def)
  from os_writes_inv [OF this, of ss] show ?thesis
    by (auto simp: os_inv_def os_contents_def bytesWritten_def OutputBufferStream_new_def min_def)
qed

text \<open>Over one turn of the loop the watchers measure what they should, to the microsecond: the poll delay is the time
  between prepare and check less the timeout that was set, and is dropped exactly when it is negative; the duration
  of the turn before is the time from its check to this prepare.\<close>

theorem loop_watch_measures:
  assumes "tv_ok timeout" and "tv_ok t1" and "tv_ok t2" and "tv_ok (check_time w)"
  shows "let (w1, duration) = onPrepareForStats (Some timeout) t1 w; (w2, delay) = onCheckForStats t2 w1 in
    map_option usec duration = (if tv_sec (check_time w) = 0 then None else Some (usec t1 - usec (check_time w)))
    \<and> map_option usec delay = (if usec t2 - usec t1 < usec timeout then None else Some (usec t2 - usec t1 - usec timeout))
    \<and> check_time w2 = t2"
proof -
  let ?d = "evutil_timersub t2 t1"
  have d: "usec ?d = usec t2 - usec t1" "tv_ok ?d" using evutil_timersub_usec [OF assms(3,2)] by simp_all
  have "usec (evutil_timersub ?d timeout) = usec t2 - usec t1 - usec timeout" "tv_ok (evutil_timersub ?d timeout)"
    using evutil_timersub_usec [OF d(2) assms(1)] d(1) by simp_all
  then show ?thesis
    using evutil_timersub_usec [OF assms(2,4)] tv_sec_nonneg [of "evutil_timersub ?d timeout"]
    by (simp add: onPrepareForStats_def onCheckForStats_def Let_def)
qed

theorem loop_watch_measures_witness:
  "let (w1, duration) = onPrepareForStats (Some \<lparr>tv_sec = 0, tv_usec = 300\<rparr>) \<lparr>tv_sec = 6, tv_usec = 900000\<rparr> loop_watch_new;
       (w2, delay) = onCheckForStats \<lparr>tv_sec = 7, tv_usec = 100\<rparr> w1
   in duration = None \<and> map_option usec delay = Some 99800"
  using loop_watch_measures [of "\<lparr>tv_sec = 0, tv_usec = 300\<rparr>" "\<lparr>tv_sec = 6, tv_usec = 900000\<rparr>" "\<lparr>tv_sec = 7, tv_usec = 100\<rparr>" loop_watch_new]
  by (simp add: tv_ok_def usec_def loop_watch_new_def case_prod_beta Let_def)

end
