(* ===== verification/NetSockets.thy ===== *)
theory NetSockets
  imports SocketOptions
begin

text \<open>
  The socket options the code names (\<open>common/network/SocketOptionImpl.h\<close>), as Linux and the C library define them; the
  socket type of a configured address (\<open>Utility::protobufAddressSocketType\<close>) and its name; and \<open>BaseListenerImpl\<close>.
\<close>

section \<open>Names of options\<close>

text \<open>\<open>ENVOY_MAKE_SOCKET_OPTION_NAME\<close> makes a name of the text of its arguments.\<close>

definition ENVOY_MAKE_SOCKET_OPTION_NAME :: "u32 \<Rightarrow> string \<Rightarrow> u32 \<Rightarrow> string \<Rightarrow> socket_option_name" where
  "ENVOY_MAKE_SOCKET_OPTION_NAME level level_text opt option_text = Some (level, opt, level_text @ ''/'' @ option_text)"

definition ENVOY_SOCKET_IP_TRANSPARENT :: socket_option_name where
  "ENVOY_SOCKET_IP_TRANSPARENT = ENVOY_MAKE_SOCKET_OPTION_NAME 0 ''IPPROTO_IP'' 19 ''IP_TRANSPARENT''"

definition ENVOY_SOCKET_IPV6_TRANSPARENT :: socket_option_name where
  "ENVOY_SOCKET_IPV6_TRANSPARENT = ENVOY_MAKE_SOCKET_OPTION_NAME 41 ''IPPROTO_IPV6'' 75 ''IPV6_TRANSPARENT''"

definition ENVOY_SOCKET_IP_FREEBIND :: socket_option_name where
  "ENVOY_SOCKET_IP_FREEBIND = ENVOY_MAKE_SOCKET_OPTION_NAME 0 ''IPPROTO_IP'' 15 ''IP_FREEBIND''"

definition ENVOY_SOCKET_IPV6_FREEBIND :: socket_option_name where
  "ENVOY_SOCKET_IPV6_FREEBIND = ENVOY_MAKE_SOCKET_OPTION_NAME 41 ''IPPROTO_IPV6'' 78 ''IPV6_FREEBIND''"

definition ENVOY_SOCKET_SO_KEEPALIVE :: socket_option_name where
  "ENVOY_SOCKET_SO_KEEPALIVE = ENVOY_MAKE_SOCKET_OPTION_NAME 1 ''SOL_SOCKET'' 9 ''SO_KEEPALIVE''"

definition ENVOY_SOCKET_SO_MARK :: socket_option_name where
  "ENVOY_SOCKET_SO_MARK = ENVOY_MAKE_SOCKET_OPTION_NAME 1 ''SOL_SOCKET'' 36 ''SO_MARK''"

text \<open>Linux has no \<open>SO_NOSIGPIPE\<close>.\<close>

definition ENVOY_SOCKET_SO_NOSIGPIPE :: socket_option_name where
  "ENVOY_SOCKET_SO_NOSIGPIPE = None"

definition ENVOY_SOCKET_SO_REUSEPORT :: socket_option_name where
  "ENVOY_SOCKET_SO_REUSEPORT = ENVOY_MAKE_SOCKET_OPTION_NAME 1 ''SOL_SOCKET'' 15 ''SO_REUSEPORT''"

definition ENVOY_SOCKET_SO_ORIGINAL_DST :: socket_option_name where
  "ENVOY_SOCKET_SO_ORIGINAL_DST = ENVOY_MAKE_SOCKET_OPTION_NAME 0 ''SOL_IP'' 80 ''SO_ORIGINAL_DST''"

definition ENVOY_SOCKET_IP6T_SO_ORIGINAL_DST :: socket_option_name where
  "ENVOY_SOCKET_IP6T_SO_ORIGINAL_DST = ENVOY_MAKE_SOCKET_OPTION_NAME 41 ''SOL_IPV6'' 80 ''IP6T_SO_ORIGINAL_DST''"

definition ENVOY_SOCKET_UDP_GRO :: socket_option_name where
  "ENVOY_SOCKET_UDP_GRO = ENVOY_MAKE_SOCKET_OPTION_NAME 17 ''SOL_UDP'' 104 ''UDP_GRO''"

definition ENVOY_SOCKET_TCP_KEEPCNT :: socket_option_name where
  "ENVOY_SOCKET_TCP_KEEPCNT = ENVOY_MAKE_SOCKET_OPTION_NAME 6 ''IPPROTO_TCP'' 6 ''TCP_KEEPCNT''"

definition ENVOY_SOCKET_TCP_KEEPIDLE :: socket_option_name where
  "ENVOY_SOCKET_TCP_KEEPIDLE = ENVOY_MAKE_SOCKET_OPTION_NAME 6 ''IPPROTO_TCP'' 4 ''TCP_KEEPIDLE''"

definition ENVOY_SOCKET_TCP_KEEPINTVL :: socket_option_name where
  "ENVOY_SOCKET_TCP_KEEPINTVL = ENVOY_MAKE_SOCKET_OPTION_NAME 6 ''IPPROTO_TCP'' 5 ''TCP_KEEPINTVL''"

definition ENVOY_SOCKET_TCP_FASTOPEN :: socket_option_name where
  "ENVOY_SOCKET_TCP_FASTOPEN = ENVOY_MAKE_SOCKET_OPTION_NAME 6 ''IPPROTO_TCP'' 23 ''TCP_FASTOPEN''"

definition ENVOY_SELF_IP_ADDR :: socket_option_name where
  "ENVOY_SELF_IP_ADDR = ENVOY_MAKE_SOCKET_OPTION_NAME 0 ''IPPROTO_IP'' 8 ''ENVOY_IP_PKTINFO''"

definition ENVOY_SELF_IPV6_ADDR :: socket_option_name where
  "ENVOY_SELF_IPV6_ADDR = ENVOY_MAKE_SOCKET_OPTION_NAME 41 ''IPPROTO_IPV6'' 49 ''IPV6_RECVPKTINFO''"

definition ENVOY_ATTACH_REUSEPORT_CBPF :: socket_option_name where
  "ENVOY_ATTACH_REUSEPORT_CBPF = ENVOY_MAKE_SOCKET_OPTION_NAME 1 ''SOL_SOCKET'' 51 ''SO_ATTACH_REUSEPORT_CBPF''"

definition known_options :: "socket_option_name list" where
  "known_options =
     [ENVOY_SOCKET_IP_TRANSPARENT,
      ENVOY_SOCKET_IPV6_TRANSPARENT,
      ENVOY_SOCKET_IP_FREEBIND,
      ENVOY_SOCKET_IPV6_FREEBIND,
      ENVOY_SOCKET_SO_KEEPALIVE,
      ENVOY_SOCKET_SO_MARK,
      ENVOY_SOCKET_SO_NOSIGPIPE,
      ENVOY_SOCKET_SO_REUSEPORT,
      ENVOY_SOCKET_SO_ORIGINAL_DST,
      ENVOY_SOCKET_IP6T_SO_ORIGINAL_DST,
      ENVOY_SOCKET_UDP_GRO,
      ENVOY_SOCKET_TCP_KEEPCNT,
      ENVOY_SOCKET_TCP_KEEPIDLE,
      ENVOY_SOCKET_TCP_KEEPINTVL,
      ENVOY_SOCKET_TCP_FASTOPEN,
      ENVOY_SELF_IP_ADDR,
      ENVOY_SELF_IPV6_ADDR,
      ENVOY_ATTACH_REUSEPORT_CBPF]"

lemmas option_defs = ENVOY_MAKE_SOCKET_OPTION_NAME_def ENVOY_SOCKET_IP_TRANSPARENT_def
  ENVOY_SOCKET_IPV6_TRANSPARENT_def
  ENVOY_SOCKET_IP_FREEBIND_def
  ENVOY_SOCKET_IPV6_FREEBIND_def
  ENVOY_SOCKET_SO_KEEPALIVE_def
  ENVOY_SOCKET_SO_MARK_def
  ENVOY_SOCKET_SO_NOSIGPIPE_def
  ENVOY_SOCKET_SO_REUSEPORT_def
  ENVOY_SOCKET_SO_ORIGINAL_DST_def
  ENVOY_SOCKET_IP6T_SO_ORIGINAL_DST_def
  ENVOY_SOCKET_UDP_GRO_def
  ENVOY_SOCKET_TCP_KEEPCNT_def
  ENVOY_SOCKET_TCP_KEEPIDLE_def
  ENVOY_SOCKET_TCP_KEEPINTVL_def
  ENVOY_SOCKET_TCP_FASTOPEN_def
  ENVOY_SELF_IP_ADDR_def
  ENVOY_SELF_IPV6_ADDR_def
  ENVOY_ATTACH_REUSEPORT_CBPF_def

section \<open>Types of sockets\<close>

definition socket_type_toString :: "socket_type \<Rightarrow> string" where
  "socket_type_toString t = (case t of Stream \<Rightarrow> ''SocketType::Stream'' | Datagram \<Rightarrow> ''SocketType::Datagram'')"

text \<open>The address of a configuration, by its case; the protocol of a socket address is an open enumeration, TCP is 0
  and UDP is 1. \<open>PANIC\<close> aborts.\<close>

datatype proto_address =
    kSocketAddress int
  | kPipe
  | kEnvoyInternalAddress
  | ADDRESS_NOT_SET
  | Other_case

definition protobufAddressSocketType :: "proto_address \<Rightarrow> socket_type result" where
  "protobufAddressSocketType a =
     (case a of
        kSocketAddress protocol \<Rightarrow>
          if protocol = 2147483647 \<or> protocol = - 2147483648 then Inl Release_assert_failed
          else if protocol = 0 then Inr Stream
          else if protocol = 1 then Inr Datagram
          else Inl Release_assert_failed
      | kPipe \<Rightarrow> Inr Stream
      | kEnvoyInternalAddress \<Rightarrow> Inr Stream
      | ADDRESS_NOT_SET \<Rightarrow> Inl Release_assert_failed
      | Other_case \<Rightarrow> Inl Release_assert_failed)"

section \<open>\<open>BaseListenerImpl\<close>\<close>

text \<open>\<open>local_address_\<close>: null when the socket's local address is an any address; the argument is what
  \<open>localAddress()\<close> gives, and a null pointer is dereferenced.\<close>

definition BaseListenerImpl_local_address :: "address option \<Rightarrow> address option result" where
  "BaseListenerImpl_local_address local_addr =
     (case local_addr of
        None \<Rightarrow> Inl Undefined_behaviour
      | Some a \<Rightarrow> Inr (if ip_version_of a \<noteq> None \<and> isAnyAddress a = Some True then None else Some a))"

section \<open>Lemmas\<close>

lemma option_ids_distinct: "distinct (map (map_option (\<lambda>(l, n, nm). (l, n))) known_options)"
  by (simp add: known_options_def option_defs)

lemma known_options_inj:
  assumes "a \<in> set known_options" and "b \<in> set known_options"
    and "map_option (\<lambda>(l, n, nm). (l, n)) a = map_option (\<lambda>(l, n, nm). (l, n)) b"
  shows "a = b"
  using option_ids_distinct assms unfolding distinct_map by (blast dest: inj_onD)

section \<open>Properties\<close>

text \<open>Two options of the table with values have the same hash key exactly when they are the same option with the same
  value: sockets are shared between connections only when their options agree.\<close>

theorem known_options_hash:
  assumes "optname a \<in> set known_options" and "optname b \<in> set known_options" and "isSupported a" and "isSupported b"
    and "opt_hashKey a key = Inr ka" and "opt_hashKey b key = Inr kb"
  shows "ka = kb \<longleftrightarrow> optname a = optname b \<and> opt_value a = opt_value b"
  using opt_hashKey_separates [OF assms(5,6,3,4)] known_options_inj [OF assms(1,2)] by metis

theorem known_options_hash_witness:
  "opt_hashKey (socket_option_of_int STATE_PREBIND ENVOY_SOCKET_SO_REUSEPORT 1 None) []
   \<noteq> opt_hashKey (socket_option_of_int STATE_PREBIND ENVOY_SOCKET_IP_FREEBIND 1 None) []"
proof -
  let ?a = "socket_option_of_int STATE_PREBIND ENVOY_SOCKET_SO_REUSEPORT 1 None"
  let ?b = "socket_option_of_int STATE_PREBIND ENVOY_SOCKET_IP_FREEBIND 1 None"
  have k: "optname ?a = ENVOY_SOCKET_SO_REUSEPORT" "optname ?b = ENVOY_SOCKET_IP_FREEBIND"
    by (simp_all add: socket_option_of_int_def socket_option_of_bytes_def)
  have s: "isSupported ?a" "isSupported ?b" unfolding isSupported_def k by (simp_all add: hasValue_def option_defs)
  obtain ka kb where h: "opt_hashKey ?a [] = Inr ka" "opt_hashKey ?b [] = Inr kb"
    unfolding opt_hashKey_def k by (simp add: hasValue_def opt_level_def opt_option_def option_defs)
  have "ka \<noteq> kb"
    using known_options_hash [OF _ _ s h] unfolding k by (simp add: known_options_def) (simp add: option_defs)
  then show ?thesis using h by simp
qed

end
