(* ===== verification/AddressTypes.thy ===== *)
theory AddressTypes
  imports NetAddress
begin

text \<open>
  What the classes of addresses (\<open>common/network/AddressImpl.h\<close>) promise whatever constructor made them: the family of
  the socket address is the class's, its length is the one the kernel expects, and the name is made of the parts.
\<close>

section \<open>The accessors of the classes\<close>

text \<open>\<open>ip()\<close>, \<open>pipe()\<close> and \<open>envoyInternalAddress()\<close>: whether they give a pointer that is not null.\<close>

fun has_ip :: "address \<Rightarrow> bool" where
  "has_ip (Ipv4Address i) = True"
| "has_ip (Ipv6Address i) = True"
| "has_ip (PipeAddress i) = False"
| "has_ip (InternalAddress i) = False"

fun has_pipe :: "address \<Rightarrow> bool" where
  "has_pipe (PipeAddress i) = True"
| "has_pipe _ = False"

fun has_internal :: "address \<Rightarrow> bool" where
  "has_internal (InternalAddress i) = True"
| "has_internal _ = False"

text \<open>The family of what \<open>sockAddr()\<close> points to; an internal address has none.\<close>

fun sock_family :: "address \<Rightarrow> address_family option" where
  "sock_family (Ipv4Address i) = Some (sin_family (v4_sockaddr i))"
| "sock_family (Ipv6Address i) = Some (sin6_family (v6_sockaddr i))"
| "sock_family (PipeAddress i) = Some (sun_family (pipe_sockaddr i))"
| "sock_family (InternalAddress i) = None"

fun addressType :: "address \<Rightarrow> string" where
  "addressType (InternalAddress i) = ''envoy_internal''"
| "addressType _ = ''default''"

fun ipv6_scopeId :: "address \<Rightarrow> u32 option" where
  "ipv6_scopeId (Ipv6Address i) = Some (sin6_scope_id (v6_sockaddr i))"
| "ipv6_scopeId _ = None"

fun ipv6_v6only :: "address \<Rightarrow> bool option" where
  "ipv6_v6only (Ipv6Address i) = Some (v6_v6only i)"
| "ipv6_v6only _ = None"

fun ipv6_address :: "address \<Rightarrow> u128 option" where
  "ipv6_address (Ipv6Address i) = Some (sin6_addr (v6_sockaddr i))"
| "ipv6_address _ = None"

section \<open>Constructed addresses\<close>

text \<open>A \<open>sockaddr_storage\<close> is read through the member its family field names.\<close>

fun storage_ok :: "sockaddr_storage \<Rightarrow> bool" where
  "storage_ok (Storage_in s) = (sin_family s = AF_INET)"
| "storage_ok (Storage_in6 s) = (sin6_family s = AF_INET6)"
| "storage_ok (Storage_un s) = (sun_family s = AF_UNIX)"
| "storage_ok (Storage_other n) = True"

inductive built :: "os_net \<Rightarrow> address \<Rightarrow> bool" for net where
  v4_sockaddr: "sin_family s = AF_INET \<Longrightarrow> Ipv4Instance_sockaddr s = Inr i \<Longrightarrow> built net (Ipv4Address i)"
| v4_string: "port < 65536 \<Longrightarrow> Ipv4Instance_string net str port = Inr i \<Longrightarrow> built net (Ipv4Address i)"
| v4_port: "port < 65536 \<Longrightarrow> Ipv4Instance_port port = Inr i \<Longrightarrow> built net (Ipv4Address i)"
| v6_sockaddr: "sin6_family s6 = AF_INET6 \<Longrightarrow> Ipv6Instance_sockaddr net s6 v6only = Inr i6 \<Longrightarrow> built net (Ipv6Address i6)"
| v6_string: "Ipv6Instance_string net str port v6only = Inr i6 \<Longrightarrow> built net (Ipv6Address i6)"
| v6_port: "Ipv6Instance_port net port = Inr i6 \<Longrightarrow> built net (Ipv6Address i6)"
| pipe_sockaddr: "sun_family su = AF_UNIX \<Longrightarrow> PipeInstance_sockaddr su len mode = Inr p \<Longrightarrow> built net (PipeAddress p)"
| pipe_path: "PipeInstance_path path mode = Inr p \<Longrightarrow> built net (PipeAddress p)"
| internal: "built net (EnvoyInternalInstance aid eid)"
| storage: "storage_ok ss \<Longrightarrow> addressFromSockAddr net ss len v6only = Inr (Inr a) \<Longrightarrow> built net a"
| v4_compatible: "built net (Ipv6Address i6) \<Longrightarrow> v4CompatibleAddress i6 = Inr (Some a) \<Longrightarrow> built net a"

definition expected_family :: "address \<Rightarrow> address_family option" where
  "expected_family a =
     (case addr_type a of
        Ip \<Rightarrow> if ip_version_of a = Some V4 then Some AF_INET else Some AF_INET6
      | Pipe \<Rightarrow> Some AF_UNIX
      | EnvoyInternal \<Rightarrow> None)"

definition expected_name :: "address \<Rightarrow> string option" where
  "expected_name a =
     (case (ip_version_of a, addressAsString a, ip_port a) of
        (Some V4, Some s, Some port) \<Rightarrow> Some (s @ '':'' @ decimal (unat port))
      | (Some V6, Some s, Some port) \<Rightarrow> Some (''['' @ s @ '']:'' @ decimal (unat port))
      | _ \<Rightarrow> None)"

definition address_typed :: "address \<Rightarrow> bool" where
  "address_typed a \<longleftrightarrow>
     sock_family a = expected_family a
     \<and> (has_ip a \<longleftrightarrow> addr_type a = Ip) \<and> (has_pipe a \<longleftrightarrow> addr_type a = Pipe) \<and> (has_internal a \<longleftrightarrow> addr_type a = EnvoyInternal)
     \<and> (has_ip a \<longrightarrow> expected_name a = Some (asString a) \<and> sockAddrLen a = (if sock_family a = Some AF_INET then 16 else 28))"

lemma ntohs_htons: "ntohs (htons w) = w"
  by (simp add: ntohs_def)

lemma ntohs_port: "(port :: u32) < 65536 \<Longrightarrow> unat (ntohs (htons (ucast port))) = unat port"
  by (simp add: ntohs_htons unsigned_ucast_eq word_less_nat_alt take_bit_nat_eq_self)

lemma typed_v4:
  "sin_family (v4_sockaddr i) = AF_INET \<Longrightarrow>
     v4_friendly_name i = v4_friendly_address i @ '':'' @ decimal (unat (ntohs (sin_port (v4_sockaddr i)))) \<Longrightarrow>
     address_typed (Ipv4Address i)"
  by (simp add: address_typed_def expected_family_def expected_name_def)

lemma typed_v6:
  "sin6_family (v6_sockaddr i) = AF_INET6 \<Longrightarrow>
     v6_friendly_name i = ''['' @ v6_friendly_address i @ '']:'' @ decimal (unat (ntohs (sin6_port (v6_sockaddr i)))) \<Longrightarrow>
     address_typed (Ipv6Address i)"
  by (simp add: address_typed_def expected_family_def expected_name_def)

lemma typed_pipe: "sun_family (pipe_sockaddr p) = AF_UNIX \<Longrightarrow> address_typed (PipeAddress p)"
  by (simp add: address_typed_def expected_family_def)

lemma pipe_initHelper_family: "pipe_initHelper su mode p0 = Inr (st, p) \<Longrightarrow> pipe_sockaddr p = su"
  by (auto simp: pipe_initHelper_def Let_def res_bind_Inr_iff split: if_splits)

lemma built_typed: "built net a \<Longrightarrow> address_typed a"
proof (induction rule: built.induct)
  case (v4_sockaddr s i)
  then show ?case
    by (intro typed_v4) (auto simp: Ipv4Instance_sockaddr_def throwOnError_status_def ipv4_initHelper_def res_bind_Inr_iff)
next
  case (v4_string port str i)
  then show ?case
    by (intro typed_v4)
      (auto simp: Ipv4Instance_string_def throwOnError_status_def ntohs_port Let_def split: option.splits)
next
  case (v4_port port i)
  then show ?case by (intro typed_v4) (auto simp: Ipv4Instance_port_def throwOnError_status_def ntohs_port)
next
  case (v6_sockaddr s6 v6only i6)
  then show ?case
    by (intro typed_v6) (auto simp: Ipv6Instance_sockaddr_def throwOnError_status_def ipv6_initHelper_def Let_def)
next
  case (v6_string str port v6only i6)
  then show ?case
    by (intro typed_v6)
      (auto simp: Ipv6Instance_string_def throwOnError_status_def ipv6_initHelper_def Let_def split: option.splits if_splits)
next
  case (v6_port port i6)
  then show ?case
    by (intro typed_v6)
      (auto simp: Ipv6Instance_port_def Ipv6Instance_string_def throwOnError_status_def ipv6_initHelper_def Let_def)
next
  case (pipe_sockaddr su len mode p)
  then show ?case
    by (intro typed_pipe) (auto simp: PipeInstance_sockaddr_def res_bind_Inr_iff dest: pipe_initHelper_family)
next
  case (pipe_path path mode p)
  then show ?case
    by (intro typed_pipe) (auto simp: PipeInstance_path_def Let_def res_bind_Inr_iff split: if_splits)
next
  case (internal aid eid)
  then show ?case by (simp add: address_typed_def EnvoyInternalInstance_def expected_family_def)
next
  case (storage ss len v6only a)
  then show ?case
    by (cases ss)
      (auto simp: addressFromSockAddr_def createInstancePtr_ipv4_def createInstancePtr_ipv6_def createInstancePtr_pipe_def
        ipv4_validateProtocolSupported_def ipv6_validateProtocolSupported_def res_bind_Inr_iff Let_def forceV6_def
        intro!: typed_pipe dest: pipe_initHelper_family split: if_splits)
next
  case (v4_compatible i6 a)
  then show ?case
    by (auto simp: v4CompatibleAddress_def createInstancePtr_ipv4_def ipv4_validateProtocolSupported_def res_bind_Inr_iff
        split: if_splits)
qed

section \<open>Properties\<close>

text \<open>Property C9. Every address that can be built, by whichever constructor or conversion, is of the type it says: the family of its
  socket address, its length, the one accessor that is not null and the name all agree with its class. (A port beyond
  65535 given to a constructor breaks this: the name keeps it, the socket address does not.)\<close>

theorem built_address_typed:
  assumes "built net a"
  shows "sock_family a = expected_family a
    \<and> (has_ip a \<longleftrightarrow> addr_type a = Ip) \<and> (has_pipe a \<longleftrightarrow> addr_type a = Pipe) \<and> (has_internal a \<longleftrightarrow> addr_type a = EnvoyInternal)
    \<and> (has_ip a \<longrightarrow> expected_name a = Some (asString a) \<and> sockAddrLen a = (if sock_family a = Some AF_INET then 16 else 28))"
  using built_typed [OF assms] by (simp add: address_typed_def)

theorem built_address_typed_witness:
  "\<exists>i. Ipv4Instance_port 80 = Inr i \<and> asString (Ipv4Address i) = ''0.0.0.0:80'' \<and> sock_family (Ipv4Address i) = Some AF_INET"
proof -
  obtain i where i: "Ipv4Instance_port 80 = Inr i" "v4_friendly_name i = ''0.0.0.0:80''"
    by (simp add: Ipv4Instance_port_def throwOnError_status_def decimal_def rev_digits.simps)
  have "built undefined (Ipv4Address i)" by (rule v4_port [OF _ i(1)]) simp
  then show ?thesis using built_address_typed i by (fastforce simp: expected_family_def)
qed

text \<open>A port that does not fit: the name says 65616, the socket address 80.\<close>

lemma big_port_mistyped:
  "\<exists>i. Ipv4Instance_port 65616 = Inr i \<and> ip_port (Ipv4Address i) = Some 80 \<and> asString (Ipv4Address i) = ''0.0.0.0:65616''"
proof -
  have "ucast (65616 :: u32) = (80 :: u16)" by simp
  then show ?thesis
    by (simp add: Ipv4Instance_port_def throwOnError_status_def ntohs_htons decimal_def rev_digits.simps)
qed

end
