(* ===== verification/ServerRun.thy ===== *)
theory ServerRun
  imports Factories EventSpec
begin

text \<open>
  \<open>Server::run\<close> (\<open>server/Server.cpp\<close>) up to the loop of its dispatcher, and the tags of
  \<open>ProdListenerComponentFactory\<close> (\<open>server/ListenerManagerImpl.h\<close>).
\<close>

text \<open>The two callbacks the main thread posts before it runs the loop.\<close>

datatype server_post = Notify_startup | Say_hello

record ('l) server =
  sv_dispatcher :: "(server_post, 'l) dispatcher"
  sv_workers_started :: bool
  sv_loop_timer :: "timer option"

definition Server_new :: "int \<Rightarrow> 'l \<Rightarrow> 'l server" where
  "Server_new now l = \<lparr>sv_dispatcher = DispatcherImpl_new now l, sv_workers_started = False, sv_loop_timer = None\<rparr>"

definition server_run :: "'l libevent \<Rightarrow> 'l scheduler option \<Rightarrow> ev \<Rightarrow> 'l server \<Rightarrow> 'l server result" where
  "server_run lib scheduler e sv =
     (let d1 = post lib Notify_startup (sv_dispatcher sv);
          d2 = post lib Say_hello d1
      in res_bind (infinit_loop lib scheduler e (sv_loop_timer sv, event_base d2)) (\<lambda>(t, l).
           Inr (sv\<lparr>sv_dispatcher := d2\<lparr>event_base := l\<rparr>, sv_loop_timer := t\<rparr>)))"

text \<open>The tag returned and the next one.\<close>

definition nextListenerTag :: "u64 \<Rightarrow> u64 \<times> u64" where
  "nextListenerTag next_listener_tag = (next_listener_tag, next_listener_tag + 1)"

fun listener_tags :: "nat \<Rightarrow> u64 \<Rightarrow> u64 list" where
  "listener_tags 0 tag = []"
| "listener_tags (Suc n) tag = (let (t, tag1) = nextListenerTag tag in t # listener_tags n tag1)"

lemma listener_tags_eq: "listener_tags n tag = map (\<lambda>i. tag + word_of_nat i) [0..<n]"
proof (induction n arbitrary: tag)
  case (Suc n)
  show ?case
    by (simp add: nextListenerTag_def Suc.IH map_upt_Suc add.assoc del: upt_Suc)
qed simp

lemma listener_tags_distinct: "n \<le> 2 ^ 64 \<Longrightarrow> distinct (listener_tags n tag)"
proof -
  assume n: "n \<le> 2 ^ 64"
  have "inj_on (\<lambda>i. tag + (word_of_nat i :: u64)) (set [0..<n])"
  proof (rule inj_onI)
    fix i j
    assume ij: "i \<in> set [0..<n]" "j \<in> set [0..<n]" "tag + (word_of_nat i :: u64) = tag + word_of_nat j"
    then have "unat (word_of_nat i :: u64) = unat (word_of_nat j :: u64)" by simp
    moreover have "i < 2 ^ LENGTH(64)" "j < 2 ^ LENGTH(64)" using ij(1,2) n by auto
    ultimately show "i = j" by (simp only: unat_of_nat take_bit_nat_eq_self take_bit_eq_mod mod_less)
  qed
  then show ?thesis by (simp add: listener_tags_eq distinct_map)
qed

section \<open>Properties\<close>

text \<open>Running a server on a time system that makes timers gives, before the loop turns for the first time: the two posted
  callbacks in order, which the loop will take together, the event that wakes the loop for them active, and
  the server's one timer armed; with \<open>myTime\<close>, whose scheduler is null, \<open>run\<close> is undefined.\<close>

theorem server_run_ready:
  assumes "libevent_contract lib" and "e \<noteq> post_cb" and "\<not> lib_pending lib e l"
  shows "(\<exists>sv. server_run lib (RealTimeSystem_createScheduler (libevent_createTimer lib)) e (Server_new now l) = Inr sv
        \<and> fst (take_posts (sv_dispatcher sv)) = [Notify_startup, Say_hello]
        \<and> lib_pending lib post_cb (event_base (sv_dispatcher sv))
        \<and> one_timer lib {e} (sv_loop_timer sv, event_base (sv_dispatcher sv)))
    \<and> server_run lib (myTime_createScheduler base) e (Server_new now l) = Inl Undefined_behaviour"
proof -
  let ?d = "post lib Say_hello (post lib Notify_startup (DispatcherImpl_new now l))"
  have d1: "post_callbacks ?d = [Notify_startup, Say_hello]"
    by (simp add: post_def post_locked_def disp_simps DispatcherImpl_new_def Let_def)
  have d2: "lib_pending lib e' (event_base ?d) \<longleftrightarrow> e' = post_cb \<or> lib_pending lib e' l" for e'
    by (simp add: post_def post_locked_def disp_simps DispatcherImpl_new_def Let_def schedule_pending [OF assms(1)])
  have "\<forall>e'\<in>{e}. lib_pending lib e' (event_base ?d) \<longrightarrow> (\<exists>old. None = Some old \<and> e' = tm_event old)"
    using d2 assms(2,3) by simp
  from infinit_loop_one [OF assms(1) _ this, of e] obtain t l1 where
    t: "infinit_loop lib (RealTimeSystem_createScheduler (libevent_createTimer lib)) e (None, event_base ?d) = Inr (t, l1)"
      "one_timer lib {e} (t, l1)" by auto
  have "lib_pending lib post_cb l1"
    using t(1) d2 assms(2) libevent_simps [OF assms(1)]
    by (auto simp: infinit_loop_def createTimer_def createTimerInternal_def RealTimeSystem_createScheduler_def
        libevent_createTimer_def TimerImpl_new_def enableTimer_def internalEnableTimer_def)
  then show ?thesis
    using t d1 by (simp add: server_run_def Server_new_def Let_def take_posts_def myTime_undefined)
qed

theorem server_run_ready_witness:
  "\<exists>sv. server_run set_libevent (RealTimeSystem_createScheduler (libevent_createTimer set_libevent)) 7 (Server_new 0 []) = Inr sv
     \<and> fst (take_posts (sv_dispatcher sv)) = [Notify_startup, Say_hello]"
proof -
  have "\<not> lib_pending set_libevent 7 []" by (simp add: set_libevent_def)
  then show ?thesis
    using server_run_ready [OF set_libevent_contract, of 7 "[]"] by (auto simp: post_cb_def)
qed

end
