(* ===== verification/RingMove.thy ===== *)
theory RingMove
  imports SliceDeque
begin

text \<open>
  The memory of a \<open>SliceDeque\<close>: the eight inline slots, the external array when the ring has grown, and the pointer
  \<open>ring_\<close> to the one in use. The theory \<open>SliceDeque\<close> models the array \<open>ring_\<close> points at; here are the constructors,
  \<open>growRing\<close>, the move operations and the destructor on both arrays, what becomes of the deque moved from, and a proof
  that every callback of a slice runs once whatever moves there are.
\<close>

section \<open>The two arrays and the pointer\<close>

text \<open>\<open>Foreign_ring\<close> is an array that another deque owns by now.\<close>

datatype ring_ptr = Inline_ring | External_ring | Foreign_ring

record ring_object =
  inline_ring :: "slice list"
  external_ring :: "slice list option"
  ring_at :: ring_ptr
  ring_start :: nat
  ring_size :: nat
  ring_capacity :: nat

definition ring_object_new :: ring_object where
  "ring_object_new = \<lparr>inline_ring = replicate InlineRingCapacity empty_slice, external_ring = None,
     ring_at = Inline_ring, ring_start = 0, ring_size = 0, ring_capacity = InlineRingCapacity\<rparr>"

text \<open>The array in use; there is none to speak of once another deque owns it.\<close>

definition ring_array :: "ring_object \<Rightarrow> slice list option" where
  "ring_array r =
     (case ring_at r of Inline_ring \<Rightarrow> Some (inline_ring r) | External_ring \<Rightarrow> external_ring r | Foreign_ring \<Rightarrow> None)"

definition ring_deque :: "ring_object \<Rightarrow> deque option" where
  "ring_deque r =
     map_option (\<lambda>a. \<lparr>dq_ring = a, dq_start = ring_start r, dq_size = ring_size r, dq_capacity = ring_capacity r\<rparr>)
       (ring_array r)"

section \<open>Growing\<close>

text \<open>The slots the copying loop of \<open>growRing\<close> leaves behind.\<close>

fun move_out :: "nat \<Rightarrow> nat \<Rightarrow> nat \<Rightarrow> slice list \<Rightarrow> slice list" where
  "move_out cap 0 src ring = ring"
| "move_out cap (Suc n) src ring = move_out cap n (if src + 1 = cap then 0 else src + 1) (ring[src := empty_slice])"

text \<open>What the destructor of an array of slices calls, from its end.\<close>

definition array_events :: "slice list \<Rightarrow> buf_event list" where
  "array_events a = concat (map release_events (rev a))"

definition external_events :: "slice list option \<Rightarrow> buf_event list" where
  "external_events e = (case e of None \<Rightarrow> [] | Some a \<Rightarrow> array_events a)"

definition ring_growRing :: "ring_object \<Rightarrow> (ring_object \<times> buf_event list) result" where
  "ring_growRing r =
     (if ring_size r < ring_capacity r then Inr (r, [])
      else case ring_array r of
        None \<Rightarrow> Inl Undefined_behaviour
      | Some a \<Rightarrow>
        let new_capacity = ring_capacity r * 2;
            new_ring = grow_copy a (ring_capacity r) (ring_size r) (ring_start r) 0 (replicate new_capacity empty_slice);
            left = move_out (ring_capacity r) (ring_size r) (ring_start r) a;
            r1 = (if ring_at r = Inline_ring then r\<lparr>inline_ring := left\<rparr> else r\<lparr>external_ring := Some left\<rparr>)
        in Inr (r1\<lparr>external_ring := Some new_ring, ring_at := External_ring, ring_start := 0, ring_capacity := new_capacity\<rparr>,
                external_events (external_ring r1)))"

section \<open>Moving and destroying\<close>

text \<open>\<open>std::move\<close> of the inline slots, the first to the last: the slots of both sides and what the overwritten ones call.\<close>

fun move_slots :: "slice list \<Rightarrow> slice list \<Rightarrow> slice list \<times> slice list \<times> buf_event list" where
  "move_slots (l # ls) (r # rs) =
     (let (l1, r1, ev) = slice_move_assign l r; (ls1, rs1, evs) = move_slots ls rs
      in (l1 # ls1, r1 # rs1, ev @ evs))"
| "move_slots ls rs = (ls, rs, [])"

definition taken_from :: "ring_object \<Rightarrow> slice list \<Rightarrow> ring_object" where
  "taken_from rhs left =
     rhs\<lparr>inline_ring := left, external_ring := None,
         ring_at := (if ring_at rhs = External_ring then Foreign_ring else ring_at rhs)\<rparr>"

definition ring_move_construct :: "ring_object \<Rightarrow> ring_object \<times> ring_object" where
  "ring_move_construct rhs =
     (let (slots, left, _) = move_slots (replicate InlineRingCapacity empty_slice) (inline_ring rhs)
      in (\<lparr>inline_ring = slots, external_ring = external_ring rhs,
           ring_at = (if external_ring rhs \<noteq> None then External_ring else Inline_ring),
           ring_start = ring_start rhs, ring_size = ring_size rhs, ring_capacity = ring_capacity rhs\<rparr>,
          taken_from rhs left))"

text \<open>The array of the left side is destroyed when its pointer takes over the one of the right side.\<close>

definition ring_move_assign :: "ring_object \<Rightarrow> ring_object \<Rightarrow> ring_object \<times> ring_object \<times> buf_event list" where
  "ring_move_assign lhs rhs =
     (let (slots, left, ev) = move_slots (inline_ring lhs) (inline_ring rhs)
      in (\<lparr>inline_ring = slots, external_ring = external_ring rhs,
           ring_at = (if external_ring rhs \<noteq> None then External_ring else Inline_ring),
           ring_start = ring_start rhs, ring_size = ring_size rhs, ring_capacity = ring_capacity rhs\<rparr>,
          taken_from rhs left, ev @ external_events (external_ring lhs)))"

text \<open>The members go in the reverse order of their declarations.\<close>

definition ring_destroy :: "ring_object \<Rightarrow> buf_event list" where
  "ring_destroy r = external_events (external_ring r) @ array_events (inline_ring r)"

section \<open>What a ring object is\<close>

definition ring_ok :: "ring_object \<Rightarrow> bool" where
  "ring_ok r \<longleftrightarrow> length (inline_ring r) = InlineRingCapacity \<and>
     (case external_ring r of
        None \<Rightarrow> ring_at r = Inline_ring \<and> ring_capacity r = InlineRingCapacity
      | Some a \<Rightarrow> ring_at r = External_ring \<and> inline_ring r = replicate InlineRingCapacity empty_slice) \<and>
     (\<exists>d. ring_deque r = Some d \<and> dq_wf d)"

lemma ring_deque_grown [simp]:
  "ring_deque \<lparr>inline_ring = i, external_ring = Some a, ring_at = External_ring, ring_start = s, ring_size = n,
     ring_capacity = c\<rparr> = Some \<lparr>dq_ring = a, dq_start = s, dq_size = n, dq_capacity = c\<rparr>"
  by (simp add: ring_deque_def ring_array_def)

lemma release_empty [simp]: "release_events empty_slice = []"
  by (simp add: release_events_def empty_slice_def)

lemma array_events_replicate [simp]: "array_events (replicate n empty_slice) = []"
  by (simp add: array_events_def)

lemma move_slots_eq:
  "length ls = length rs \<Longrightarrow>
     move_slots ls rs = (rs, replicate (length rs) empty_slice, concat (map release_events ls))"
  by (induction ls rs rule: list_induct2) (simp_all add: slice_move_assign_def)

lemma length_move_out [simp]: "length (move_out cap n src ring) = length ring"
  by (induction n arbitrary: src ring) auto

lemma move_out_nth:
  "src < cap \<Longrightarrow> n \<le> cap \<Longrightarrow> length ring = cap \<Longrightarrow> i < cap \<Longrightarrow>
     move_out cap n src ring ! i =
       (if (\<exists>k<n. i = (if src + k < cap then src + k else src + k - cap)) then empty_slice else ring ! i)"
proof (induction n arbitrary: src ring)
  case (Suc n)
  define at where "at = (\<lambda>s k. if s + k < cap then s + k else s + k - cap)"
  let ?src = "if src + 1 = cap then 0 else src + 1"
  have at: "at src 0 = src" "\<And>k. k < n \<Longrightarrow> at src (Suc k) = at ?src k"
    using Suc.prems(1,2) by (auto simp: at_def)
  have "(\<exists>k<Suc n. i = at src k) \<longleftrightarrow> i = src \<or> (\<exists>k<n. i = at ?src k)"
    unfolding Ex_less_Suc2 at(1) using at(2) by metis
  moreover have "move_out cap (Suc n) src ring ! i =
      (if \<exists>k<n. i = at ?src k then empty_slice else ring[src := empty_slice] ! i)"
    using Suc.IH [of ?src "ring[src := empty_slice]"] Suc.prems by (auto simp: at_def)
  ultimately show ?case using Suc.prems by (auto simp: nth_list_update at_def)
qed simp

text \<open>A full ring is moved out whole.\<close>

lemma move_out_all:
  assumes "src < cap" and "length ring = cap"
  shows "move_out cap cap src ring = replicate cap empty_slice"
proof (rule nth_equalityI)
  fix i assume "i < length (move_out cap cap src ring)"
  then have i: "i < cap" using assms by simp
  have "\<exists>k<cap. i = (if src + k < cap then src + k else src + k - cap)"
  proof (cases "src \<le> i")
    case True then show ?thesis using i by (intro exI [of _ "i - src"]) auto
  next
    case False then show ?thesis using i assms by (intro exI [of _ "cap + i - src"]) auto
  qed
  then show "move_out cap cap src ring ! i = replicate cap empty_slice ! i"
    using move_out_nth [OF assms(1) order_refl assms(2) i] i by simp
qed (use assms in simp)

section \<open>Growing and moving keep the list\<close>

lemma ring_ok_deque:
  assumes "ring_ok r"
  obtains a where "ring_array r = Some a" "ring_deque r = Some \<lparr>dq_ring = a, dq_start = ring_start r, dq_size = ring_size r, dq_capacity = ring_capacity r\<rparr>"
    "dq_wf \<lparr>dq_ring = a, dq_start = ring_start r, dq_size = ring_size r, dq_capacity = ring_capacity r\<rparr>"
  using assms by (auto simp: ring_ok_def ring_deque_def)

text \<open>\<open>growRing\<close> of the model of the array is the one on the memory, and it calls nothing.\<close>

lemma ring_growRing_refines:
  assumes "ring_ok r" and "ring_deque r = Some d"
  shows "\<exists>r'. ring_growRing r = Inr (r', []) \<and> ring_ok r' \<and> ring_deque r' = Some (growRing d)"
proof (cases "ring_size r < ring_capacity r")
  case True
  have "dq_size d = ring_size r" "dq_capacity d = ring_capacity r" using assms(2) by (auto simp: ring_deque_def)
  then show ?thesis using True assms by (simp add: ring_growRing_def growRing_def)
next
  case False
  obtain a where a: "ring_array r = Some a" "dq_wf d"
      "d = \<lparr>dq_ring = a, dq_start = ring_start r, dq_size = ring_size r, dq_capacity = ring_capacity r\<rparr>"
    using ring_ok_deque [OF assms(1)] assms(2) by force
  then have full: "ring_size r = ring_capacity r" "ring_start r < ring_capacity r" "length a = ring_capacity r"
    using False by (auto simp: dq_wf_def)
  have left: "move_out (ring_capacity r) (ring_size r) (ring_start r) a = replicate (ring_capacity r) empty_slice"
    using move_out_all [OF full(2,3)] full(1) by simp
  have wf: "dq_wf (growRing d)" using a(2) by (rule growRing_wf)
  have g: "growRing d = \<lparr>dq_ring = grow_copy a (ring_capacity r) (ring_size r) (ring_start r) 0
        (replicate (ring_capacity r * 2) empty_slice), dq_start = 0, dq_size = ring_size r,
        dq_capacity = ring_capacity r * 2\<rparr>"
    using False by (simp add: a(3) growRing_def Let_def)
  show ?thesis
    using False a(1) left wf assms(1) unfolding g
    by (cases "external_ring r")
      (auto simp: ring_growRing_def ring_ok_def ring_array_def ring_deque_def external_events_def Let_def)
qed

text \<open>Whoever is moved to has the list of the deque moved from, in the memory a ring has.\<close>

lemma moved_to_ok:
  assumes "ring_ok rhs"
  defines "lhs \<equiv> \<lparr>inline_ring = inline_ring rhs, external_ring = external_ring rhs,
           ring_at = (if external_ring rhs \<noteq> None then External_ring else Inline_ring),
           ring_start = ring_start rhs, ring_size = ring_size rhs, ring_capacity = ring_capacity rhs\<rparr>"
  shows "ring_ok lhs" "ring_deque lhs = ring_deque rhs"
  using assms(1) unfolding lhs_def
  by (cases "external_ring rhs"; simp add: ring_ok_def ring_deque_def ring_array_def)+

lemma ring_move_assign_moves:
  assumes "ring_ok lhs" and "ring_ok rhs"
  shows "\<exists>lhs' rhs' ev. ring_move_assign lhs rhs = (lhs', rhs', ev) \<and> ring_ok lhs' \<and> ring_deque lhs' = ring_deque rhs
     \<and> ev = concat (map release_events (inline_ring lhs)) @ external_events (external_ring lhs)"
proof -
  have "length (inline_ring lhs) = length (inline_ring rhs)" using assms by (simp add: ring_ok_def)
  from move_slots_eq [OF this] show ?thesis using moved_to_ok [OF assms(2)] by (simp add: ring_move_assign_def)
qed

text \<open>The deque moved from keeps its counters: it does not become empty. If its slots were inline they are empty
  slices; if it had grown, \<open>ring_\<close> points into the array that now belongs to the other deque.\<close>

lemma moved_from_not_empty:
  assumes "ring_ok lhs" and "ring_ok rhs" and "ring_move_assign lhs rhs = (lhs', rhs', ev)"
  shows "ring_size rhs' = ring_size rhs"
    "external_ring rhs = None \<Longrightarrow> \<exists>d. ring_deque rhs' = Some d \<and> dq_list d = replicate (ring_size rhs) empty_slice"
    "external_ring rhs \<noteq> None \<Longrightarrow> ring_deque rhs' = None"
proof -
  have len: "length (inline_ring lhs) = length (inline_ring rhs)" using assms(1,2) by (simp add: ring_ok_def)
  have r: "rhs' = taken_from rhs (replicate (length (inline_ring rhs)) empty_slice)"
    using assms(3) move_slots_eq [OF len] by (auto simp: ring_move_assign_def)
  show "ring_size rhs' = ring_size rhs" by (simp add: r taken_from_def)
  show "ring_deque rhs' = None" if "external_ring rhs \<noteq> None"
    using that assms(2) by (auto simp: r taken_from_def ring_deque_def ring_array_def ring_ok_def)
  assume n: "external_ring rhs = None"
  let ?d = "\<lparr>dq_ring = replicate InlineRingCapacity empty_slice, dq_start = ring_start rhs, dq_size = ring_size rhs,
    dq_capacity = InlineRingCapacity\<rparr>"
  have "ring_deque rhs' = Some ?d"
    using n assms(2) by (simp add: r taken_from_def ring_deque_def ring_array_def ring_ok_def)
  moreover have lt: "ring_start rhs < InlineRingCapacity" "ring_size rhs \<le> InlineRingCapacity"
    using n assms(2) by (auto simp: ring_ok_def ring_deque_def ring_array_def dq_wf_def)
  have "dq_nth ?d i = empty_slice" if "i < ring_size rhs" for i
    using internalIndex_less [of ?d i] lt that by (simp add: dq_nth_def)
  then have "dq_list ?d = replicate (ring_size rhs) empty_slice"
    by (intro nth_equalityI) (simp_all add: dq_list_def)
  ultimately show "\<exists>d. ring_deque rhs' = Some d \<and> dq_list d = replicate (ring_size rhs) empty_slice" by blast
qed

section \<open>Every callback once\<close>

lemma mset_array_events: "mset (array_events a) = mset (concat (map release_events a))"
  by (induction a) (simp_all add: array_events_def)

text \<open>Property C36. What a ring object holds is settled once, moved or not: the callbacks of the move and of both destructors
  together are those the two destructors would have made without it.\<close>

theorem ring_moves_settle_once:
  assumes "ring_ok lhs" and "ring_ok rhs" and "ring_move_assign lhs rhs = (lhs', rhs', ev)"
  shows "mset (ev @ ring_destroy lhs' @ ring_destroy rhs') = mset (ring_destroy lhs @ ring_destroy rhs)
    \<and> ring_ok lhs' \<and> ring_deque lhs' = ring_deque rhs \<and> ring_size rhs' = ring_size rhs"
proof -
  have len: "length (inline_ring lhs) = length (inline_ring rhs)" using assms(1,2) by (simp add: ring_ok_def)
  have r: "rhs' = taken_from rhs (replicate (length (inline_ring rhs)) empty_slice)"
      "inline_ring lhs' = inline_ring rhs" "external_ring lhs' = external_ring rhs"
      "ev = concat (map release_events (inline_ring lhs)) @ external_events (external_ring lhs)"
    using assms(3) move_slots_eq [OF len] by (auto simp: ring_move_assign_def)
  have "mset (ev @ ring_destroy lhs' @ ring_destroy rhs') = mset (ring_destroy lhs @ ring_destroy rhs)"
    by (simp add: r ring_destroy_def taken_from_def mset_array_events external_events_def del: mset_concat)
  moreover have "ring_ok lhs' \<and> ring_deque lhs' = ring_deque rhs"
    using ring_move_assign_moves [OF assms(1,2)] assms(3) by auto
  moreover have "ring_size rhs' = ring_size rhs" by (simp add: r taken_from_def)
  ultimately show ?thesis by blast
qed

lemma ring_object_new_ok: "ring_ok ring_object_new"
proof -
  have "ring_deque ring_object_new = Some deque_new"
    by (simp add: ring_deque_def ring_array_def ring_object_new_def deque_new_def)
  then show ?thesis using dq_wf_deque_new by (simp add: ring_ok_def) (simp add: ring_object_new_def)
qed

theorem ring_moves_settle_once_witness:
  "\<exists>r ev. ring_move_assign ring_object_new ring_object_new = (r, taken_from ring_object_new (replicate 8 empty_slice), ev)
     \<and> mset (ev @ ring_destroy r @ ring_destroy (taken_from ring_object_new (replicate 8 empty_slice))) = {#}"
proof -
  obtain r r' ev where r: "ring_move_assign ring_object_new ring_object_new = (r, r', ev)" by (cases "ring_move_assign ring_object_new ring_object_new")
  then have "r' = taken_from ring_object_new (replicate 8 empty_slice)"
    using move_slots_eq [of "inline_ring ring_object_new" "inline_ring ring_object_new"]
    by (auto simp: ring_move_assign_def) (simp add: ring_object_new_def InlineRingCapacity_def)
  moreover have "mset (ring_destroy ring_object_new) = {#}"
    by (simp add: ring_destroy_def ring_object_new_def external_events_def)
  ultimately show ?thesis using ring_moves_settle_once [OF ring_object_new_ok ring_object_new_ok r] r by auto
qed

end
