(* ===== verification/Fragments.thy ===== *)
theory Fragments
  imports BufferAdd
begin

text \<open>
  The buffer fragments of \<open>common/buffer/BufferImpl.h\<close>: memory a buffer refers to without copying, and a callback that
  gives it back. \<open>BufferFragmentImpl\<close> wraps the memory of a caller, \<open>OwnedBufferFragmentImpl\<close> a copy of it. A slice of a
  fragment has the fragment's \<open>done\<close> as a drain tracker (\<open>slice_of_fragment\<close>); here is what that tracker does.
\<close>

section \<open>The fragments\<close>

text \<open>A releasor (a \<open>std::function\<close>) is a number or empty; what it is called with is recorded.\<close>

record fragment_fields =
  fr_data :: "byte list"
  fr_size :: nat
  fr_releasor :: "nat option"

datatype buffer_fragment = Borrowed fragment_fields | Owned fragment_fields

datatype releasor_call = Releasor_called (rc_releasor: nat) (rc_data: "byte list") (rc_length: nat)

definition BufferFragmentImpl_new :: "byte list \<Rightarrow> nat option \<Rightarrow> buffer_fragment" where
  "BufferFragmentImpl_new data releasor = Borrowed \<lparr>fr_data = data, fr_size = length data, fr_releasor = releasor\<rparr>"

text \<open>The assertion that there is a releasor is commented out.\<close>

definition OwnedBufferFragmentImpl_create :: "byte list \<Rightarrow> nat option \<Rightarrow> buffer_fragment" where
  "OwnedBufferFragmentImpl_create data releasor = Owned \<lparr>fr_data = data, fr_size = length data, fr_releasor = releasor\<rparr>"

fun fragment_fields_of :: "buffer_fragment \<Rightarrow> fragment_fields" where
  "fragment_fields_of (Borrowed f) = f"
| "fragment_fields_of (Owned f) = f"

text \<open>\<open>data()\<close> up to \<open>size()\<close>.\<close>

definition fragment_data :: "buffer_fragment \<Rightarrow> byte list" where
  "fragment_data f = take (fr_size (fragment_fields_of f)) (fr_data (fragment_fields_of f))"

text \<open>\<open>done()\<close>: calling an empty \<open>std::function\<close> throws.\<close>

fun fragment_done :: "buffer_fragment \<Rightarrow> releasor_call list result" where
  "fragment_done (Borrowed f) =
     Inr (case fr_releasor f of None \<Rightarrow> [] | Some r \<Rightarrow> [Releasor_called r (fr_data f) (fr_size f)])"
| "fragment_done (Owned f) =
     (case fr_releasor f of
        None \<Rightarrow> Inl (Envoy_exception ''bad_function_call'')
      | Some r \<Rightarrow> Inr [Releasor_called r (fr_data f) (fr_size f)])"

definition add_fragment :: "buffer_fragment \<Rightarrow> tracker \<Rightarrow> owned \<Rightarrow> owned" where
  "add_fragment f t b = addBufferFragment (fragment_data f) t b"

section \<open>Running the drain trackers\<close>

text \<open>What the drain trackers called in a trace do, for those that are the \<open>done\<close> of a fragment.\<close>

fun run_done :: "(tracker \<rightharpoonup> buffer_fragment) \<Rightarrow> tracker list \<Rightarrow> releasor_call list result" where
  "run_done frs [] = Inr []"
| "run_done frs (t # ts) =
     (case frs t of
        None \<Rightarrow> run_done frs ts
      | Some f \<Rightarrow> res_bind (fragment_done f) (\<lambda>c. res_bind (run_done frs ts) (\<lambda>cs. Inr (c @ cs))))"

lemma run_done_one:
  assumes "fragment_done f = Inr cs"
  shows "run_done [t \<mapsto> f] ts = Inr (concat (replicate (count (mset ts) t) cs))"
  by (induction ts) (simp_all add: assms)

lemma run_done_throws:
  assumes "fragment_done f = Inl e" and "t \<in> set ts"
  shows "run_done [t \<mapsto> f] ts = Inl e"
  using assms(2) by (induction ts) (auto simp: assms(1))

text \<open>A fragment's \<open>done\<close> waits in the buffer until its bytes are drained, and then runs once.\<close>

lemma fragment_tracker_once:
  assumes "own_inv b" and "t \<notin># tracker_total b"
    and "length (content b) + length (fragment_data f) \<le> n"
  shows "count (mset (called (o_trace (add_fragment f t b)))) t = 0"
    and "count (mset (called (o_trace (own_drain n (add_fragment f t b))))) t = 1"
proof -
  note step = addBufferFragment_step [OF assms(1), of "fragment_data f" t, folded add_fragment_def]
  have tr: "o_trace (add_fragment f t b) = o_trace b"
    using own_invD(1) [OF assms(1)] by (simp add: add_fragment_def addBufferFragment_def owned_simps)
  show "count (mset (called (o_trace (add_fragment f t b)))) t = 0"
    using assms(2) unfolding tr by (simp add: tracker_total_def count_eq_zero_iff not_in_iff)
  have n: "length (content (add_fragment f t b)) \<le> n" using assms(3) step(2) by simp
  have "mset (called (o_trace (own_drain n (add_fragment f t b)))) = add_mset t (tracker_total b)"
    using drain_all_empties [OF step(1) n] step(3) by (simp add: keeps_books_def tracker_total_def)
  then show "count (mset (called (o_trace (own_drain n (add_fragment f t b))))) t = 1"
    using assms(2) by (simp add: not_in_iff)
qed

text \<open>The memory of a fragment is given back exactly once: not when it is added, but when the buffer has been drained,
  with the data and size it was made of; and an owned fragment without a releasor throws then.\<close>

theorem fragment_released_once:
  assumes "own_inv b" and "t \<notin># tracker_total b"
    and "length (content b) + length (fragment_data f) \<le> n"
  shows "content (add_fragment f t b) = content b @ fragment_data f
    \<and> run_done [t \<mapsto> f] (called (o_trace (add_fragment f t b))) = Inr []
    \<and> run_done [t \<mapsto> f] (called (o_trace (own_drain n (add_fragment f t b)))) = fragment_done f"
proof (intro conjI)
  note once = fragment_tracker_once [OF assms]
  show "content (add_fragment f t b) = content b @ fragment_data f"
    using addBufferFragment_step(2) [OF assms(1)] by (simp add: add_fragment_def)
  have no: "t \<notin> set (called (o_trace (add_fragment f t b)))" using once(1) by (simp add: count_eq_zero_iff)
  have "t \<notin> set ts \<Longrightarrow> run_done [t \<mapsto> f] ts = Inr []" for ts by (induction ts) simp_all
  then show "run_done [t \<mapsto> f] (called (o_trace (add_fragment f t b))) = Inr []" using no by blast
  show "run_done [t \<mapsto> f] (called (o_trace (own_drain n (add_fragment f t b)))) = fragment_done f"
  proof (cases "fragment_done f")
    case (Inl e)
    have "t \<in># mset (called (o_trace (own_drain n (add_fragment f t b))))"
      using once(2) by (metis count_eq_zero_iff zero_neq_one)
    then show ?thesis using run_done_throws [OF Inl] Inl by simp
  next
    case (Inr cs)
    show ?thesis unfolding run_done_one [OF Inr] once(2) by (simp add: Inr)
  qed
qed

theorem fragment_released_once_witness:
  "run_done [0 \<mapsto> OwnedBufferFragmentImpl_create [1, 2] (Some 5)]
     (called (o_trace (own_drain 2 (add_fragment (OwnedBufferFragmentImpl_create [1, 2] (Some 5)) 0 (owned_new None)))))
   = Inr [Releasor_called 5 [1, 2] 2]"
proof -
  have b: "own_inv (owned_new None)" "0 \<notin># tracker_total (owned_new None)" "content (owned_new None) = []"
    by simp_all (simp add: tracker_total_def owned_new_def)
  then show ?thesis
    using fragment_released_once [OF b(1,2), of "OwnedBufferFragmentImpl_create [1, 2] (Some 5)" 2]
    by (simp add: OwnedBufferFragmentImpl_create_def fragment_data_def)
qed

end
