(* ===== verification/Threads.thy ===== *)
theory Threads
  imports SupportSpec NetAddress
begin

text \<open>
  Threads and the assertions about them: \<open>ThreadId\<close> (\<open>include/thread/Thread.h\<close>), \<open>ThreadImplPosix\<close>
  (\<open>common/common/posix/ThreadImpl.cpp\<close>), \<open>CondVar::waitFor\<close> and the thread assertions (\<open>common/common/ThreadBase.h\<close>), and
  the macros \<open>ASSERT\<close>, \<open>RELEASE_ASSERT\<close>, \<open>PANIC\<close> and \<open>ENVOY_BUG\<close> (\<open>common/common/Assert.h\<close>). Creating a thread and
  joining it are calls of pthreads: whether \<open>pthread_create\<close> succeeds is a parameter, and joining twice, or joining
  what was not created, is undefined.
\<close>

section \<open>Identifiers\<close>

datatype thread_id = ThreadId (getId: int)

definition ThreadId_empty :: thread_id where
  "ThreadId_empty = ThreadId (- (2 ^ 63))"

definition tid_isEmpty :: "thread_id \<Rightarrow> bool" where
  "tid_isEmpty t = (t = ThreadId_empty)"

definition tid_debugString :: "thread_id \<Rightarrow> string" where
  "tid_debugString t = fmt_int (getId t)"

definition currentThreadId :: "int \<Rightarrow> thread_id" where
  "currentThreadId gettid = ThreadId gettid"

text \<open>The kernel's identifiers are positive, so no thread has the empty one.\<close>

lemma currentThreadId_not_empty: "0 < gettid \<Longrightarrow> \<not> tid_isEmpty (currentThreadId gettid)"
  by (simp add: tid_isEmpty_def currentThreadId_def ThreadId_empty_def)

section \<open>POSIX threads\<close>

definition PTHREAD_MAX_THREADNAME_LEN_INCLUDING_NULL_BYTE :: nat where
  "PTHREAD_MAX_THREADNAME_LEN_INCLUDING_NULL_BYTE = 16"

record posix_thread =
  pt_name :: string
  pt_created :: bool
  pt_joined :: bool

text \<open>The constructor: \<open>created\<close> is the success of \<open>pthread_create\<close>, whose result the code drops. The file does not
  include \<open>Platform.h\<close>, so \<open>SUPPORTS_PTHREAD_NAMING\<close> is not defined in it and the kernel is not told the name.\<close>

definition createThread :: "bool \<Rightarrow> string option \<Rightarrow> posix_thread" where
  "createThread created options =
     \<lparr>pt_name = (case options of None \<Rightarrow> []
        | Some name \<Rightarrow> take (PTHREAD_MAX_THREADNAME_LEN_INCLUDING_NULL_BYTE - 1) name),
      pt_created = created, pt_joined = False\<rparr>"

definition thread_join :: "posix_thread \<Rightarrow> posix_thread result" where
  "thread_join t =
     (if pt_created t \<and> \<not> pt_joined t then Inr (t\<lparr>pt_joined := True\<rparr>) else Inl Undefined_behaviour)"

lemma thread_join_once:
  "createThread created options = t \<Longrightarrow> (thread_join t = Inr (t\<lparr>pt_joined := True\<rparr>)) = created"
  "thread_join t = Inr t' \<Longrightarrow> thread_join t' = Inl Undefined_behaviour"
  by (auto simp: thread_join_def createThread_def split: if_splits)

lemma thread_name_fits: "length (pt_name (createThread created options)) < PTHREAD_MAX_THREADNAME_LEN_INCLUDING_NULL_BYTE"
  by (auto simp: createThread_def PTHREAD_MAX_THREADNAME_LEN_INCLUDING_NULL_BYTE_def split: option.splits)

datatype wait_status = Timeout | NoTimeout

definition cond_waitFor :: "bool \<Rightarrow> wait_status" where
  "cond_waitFor timed_out = (if timed_out then Timeout else NoTimeout)"

section \<open>Assertions\<close>

text \<open>\<open>_ASSERT_IMPL\<close>: the action of a failing condition, which returns or does not. With \<open>NDEBUG\<close> an \<open>ASSERT\<close> does
  nothing.\<close>

definition ASSERT_IMPL :: "bool \<Rightarrow> 's result \<Rightarrow> 's \<Rightarrow> 's result" where
  "ASSERT_IMPL condition action s = (if \<not> condition then action else Inr s)"

definition ASSERT :: "bool \<Rightarrow> bool \<Rightarrow> 's \<Rightarrow> 's result" where
  "ASSERT ndebug condition s = (if ndebug then Inr s else ASSERT_IMPL condition (Inl Assert_failed) s)"

definition RELEASE_ASSERT :: "bool \<Rightarrow> 's \<Rightarrow> 's result" where
  "RELEASE_ASSERT condition s = ASSERT_IMPL condition (Inl Release_assert_failed) s"

text \<open>The model's steps \<open>assert_then\<close> and \<open>release_assert_then\<close> are these macros before what follows.\<close>

lemma assert_then_is_ASSERT:
  "assert_then c m = res_bind (ASSERT False c ()) (\<lambda>_. m)"
  "release_assert_then c m = res_bind (RELEASE_ASSERT c ()) (\<lambda>_. m)"
  by (cases c; simp add: ASSERT_def RELEASE_ASSERT_def ASSERT_IMPL_def)+

text \<open>The assertions about the calling thread \<open>t\<close> of the process \<open>pid\<close>; \<open>n\<close> \<open>SkipAsserts\<close> objects are alive.\<close>

definition isTestThread :: "thread \<Rightarrow> thread \<Rightarrow> bool" where
  "isTestThread pid t = (pid = t)"

definition ASSERT_IS_TEST_THREAD :: "u32 \<Rightarrow> thread \<Rightarrow> thread \<Rightarrow> unit result" where
  "ASSERT_IS_TEST_THREAD n pid t = ASSERT False (skipAsserts n \<or> isTestThread pid t) ()"

definition ASSERT_IS_MAIN_OR_TEST_THREAD :: "u32 \<Rightarrow> thread \<Rightarrow> thread \<Rightarrow> thread_ids \<Rightarrow> unit result" where
  "ASSERT_IS_MAIN_OR_TEST_THREAD n pid t ids =
     ASSERT False (skipAsserts n \<or> isTestThread pid t \<or> inMainThread t ids) ()"

definition ASSERT_IS_NOT_TEST_THREAD :: "u32 \<Rightarrow> thread \<Rightarrow> thread \<Rightarrow> unit result" where
  "ASSERT_IS_NOT_TEST_THREAD n pid t = ASSERT False (skipAsserts n \<or> \<not> isTestThread pid t) ()"

definition ASSERT_IS_NOT_MAIN_OR_TEST_THREAD :: "u32 \<Rightarrow> thread \<Rightarrow> thread \<Rightarrow> thread_ids \<Rightarrow> unit result" where
  "ASSERT_IS_NOT_MAIN_OR_TEST_THREAD n pid t ids =
     ASSERT False (skipAsserts n \<or> (\<not> inMainThread t ids \<and> \<not> isTestThread pid t)) ()"

text \<open>Exactly one of a pair of opposite assertions holds, unless assertions are skipped, when both do.\<close>

lemma thread_assertions:
  "(ASSERT_IS_MAIN_OR_TEST_THREAD n pid t ids = Inr ()) = (skipAsserts n \<or> isMainOrTestThread pid t ids)"
  "(ASSERT_IS_NOT_MAIN_OR_TEST_THREAD n pid t ids = Inr ()) = (skipAsserts n \<or> \<not> isMainOrTestThread pid t ids)"
  "(ASSERT_IS_TEST_THREAD n pid t = Inr ()) = (skipAsserts n \<or> pid = t)"
  "(ASSERT_IS_NOT_TEST_THREAD n pid t = Inr ()) = (skipAsserts n \<or> pid \<noteq> t)"
  by (auto simp: ASSERT_IS_MAIN_OR_TEST_THREAD_def ASSERT_IS_NOT_MAIN_OR_TEST_THREAD_def ASSERT_IS_TEST_THREAD_def
      ASSERT_IS_NOT_TEST_THREAD_def ASSERT_def ASSERT_IMPL_def isMainOrTestThread_def isTestThread_def split: if_splits)

text \<open>Opening and closing \<open>SkipAsserts\<close> scopes around a thread leaves the assertions as they were.\<close>

lemma skip_scope: "decSkipAsserts (incSkipAsserts n) = n" "n \<noteq> - 1 \<Longrightarrow> skipAsserts (incSkipAsserts n)"
  by (auto simp: decSkipAsserts_def incSkipAsserts_def skipAsserts_def word_neq_0_conv [symmetric] eq_neg_iff_add_eq_0)

section \<open>Bugs\<close>

text \<open>\<open>ENVOY_BUG\<close> at a place of the source: a debug build aborts, any other runs the registered actions.\<close>

definition ENVOY_BUG ::
  "bool \<Rightarrow> ('a \<Rightarrow> 's \<Rightarrow> 's) \<Rightarrow> 'a list \<Rightarrow> string \<Rightarrow> bool \<Rightarrow> bug_counters \<times> 's \<Rightarrow> (bug_counters \<times> 's) result" where
  "ENVOY_BUG ndebug act actions place condition st =
     (let (cs, s) = st in
      if condition then Inr (cs, s)
      else let (log, cs1) = shouldLogAndInvoke place cs in
        if \<not> log then Inr (cs1, s)
        else if \<not> ndebug then Inl Assert_failed
        else Inr (cs1, invoke_chain act actions s))"

fun bugs_at :: "('a \<Rightarrow> 's \<Rightarrow> 's) \<Rightarrow> 'a list \<Rightarrow> string list \<Rightarrow> bug_counters \<times> 's \<Rightarrow> (bug_counters \<times> 's) result" where
  "bugs_at act actions [] st = Inr st"
| "bugs_at act actions (p # ps) st =
     res_bind (ENVOY_BUG True act actions p False st) (bugs_at act actions ps)"

lemma bugs_at_snoc:
  "bugs_at act actions (ps @ [p]) st = res_bind (bugs_at act actions ps st) (ENVOY_BUG True act actions p False)"
  by (induction ps arbitrary: st) (simp_all add: res_bind_def split: sum.splits)

lemma log_calls_snoc: "log_calls (bs @ [b]) cs = snd (shouldLogAndInvoke b (log_calls bs cs))"
  by (induction bs arbitrary: cs) simp_all

text \<open>How many of the bugs so far were logged: at each place as often as there are powers of two to its count.\<close>

definition powers_to :: "nat \<Rightarrow> nat" where
  "powers_to n = card {k. (2::nat) ^ k \<le> n}"

lemma powers_finite: "finite {k. (2::nat) ^ k \<le> n}"
proof (rule finite_subset)
  show "{k. (2::nat) ^ k \<le> n} \<subseteq> {..n}"
  proof
    fix k assume "k \<in> {k. (2::nat) ^ k \<le> n}"
    then have "2 ^ k \<le> n" by simp
    then have "k < n" by (rule order.strict_trans2 [OF less_exp])
    then show "k \<in> {..n}" by simp
  qed
qed simp

lemma powers_to_0: "powers_to 0 = 0"
  by (simp add: powers_to_def)

lemma powers_to_Suc: "powers_to (Suc n) = powers_to n + (if \<exists>k. Suc n = 2 ^ k then 1 else 0)"
proof (cases "\<exists>k. Suc n = 2 ^ k")
  case True
  then obtain k where k: "Suc n = 2 ^ k" by blast
  have "{j. (2::nat) ^ j \<le> Suc n} = {..k}" unfolding k by auto
  moreover have "2 ^ j \<le> n \<longleftrightarrow> j < k" for j
  proof -
    have "2 ^ j \<le> n \<longleftrightarrow> (2::nat) ^ j < 2 ^ k" using k by linarith
    then show ?thesis by simp
  qed
  then have "{j. (2::nat) ^ j \<le> n} = {..<k}" by auto
  ultimately show ?thesis using True by (simp add: powers_to_def)
next
  case False
  then have "{j. (2::nat) ^ j \<le> Suc n} = {j. 2 ^ j \<le> n}" by (auto simp: le_Suc_eq) (metis)
  then show ?thesis using False by (simp add: powers_to_def)
qed

definition logged :: "string list \<Rightarrow> nat" where
  "logged ps = (\<Sum>p\<in>set ps. powers_to (count_list ps p))"

lemma logged_snoc: "logged (ps @ [p]) = logged ps + (if \<exists>k. count_list ps p + 1 = 2 ^ k then 1 else 0)"
proof -
  let ?new = "if \<exists>k. count_list ps p + 1 = 2 ^ k then 1 else (0::nat)"
  have c: "powers_to (count_list (ps @ [p]) q) = powers_to (count_list ps q) + (if q = p then ?new else 0)" for q
    using powers_to_Suc [of "count_list ps p"] by auto
  have "logged (ps @ [p]) = (\<Sum>q\<in>insert p (set ps). powers_to (count_list ps q) + (if q = p then ?new else 0))"
    unfolding logged_def c by simp
  also have "\<dots> = (\<Sum>q\<in>insert p (set ps). powers_to (count_list ps q)) + ?new"
    unfolding sum.distrib by (simp add: sum.delta)
  also have "(\<Sum>q\<in>insert p (set ps). powers_to (count_list ps q)) = logged ps"
    by (cases "p \<in> set ps") (simp_all add: logged_def insert_absorb powers_to_0 count_list_0_iff)
  finally show ?thesis .
qed

text \<open>In a debug build the first bug aborts; otherwise, whatever bugs there are at whatever places, the registered
  actions run once for every power of two up to the number of bugs at each place, and the program goes on.\<close>

theorem envoy_bug_logarithmic:
  assumes "length ps < 2 ^ 64 - 1"
  shows "bugs_at act actions ps (Map.empty, s) = Inr (log_calls ps Map.empty, (invoke_chain act actions ^^ logged ps) s)
    \<and> ENVOY_BUG False act actions p False (Map.empty, s) = Inl Assert_failed"
proof
  show "bugs_at act actions ps (Map.empty, s) = Inr (log_calls ps Map.empty, (invoke_chain act actions ^^ logged ps) s)"
    using assms
  proof (induction ps rule: rev_induct)
    case (snoc p ps)
    have log: "fst (shouldLogAndInvoke p (log_calls ps Map.empty)) \<longleftrightarrow> (\<exists>k. count_list ps p + 1 = 2 ^ k)"
      using snoc.prems by (intro shouldLogAndInvoke_powers_of_two) simp
    have "bugs_at act actions ps (Map.empty, s) = Inr (log_calls ps Map.empty, (invoke_chain act actions ^^ logged ps) s)"
      using snoc by simp
    then show ?case
      unfolding bugs_at_snoc log_calls_snoc logged_snoc
      by (cases "shouldLogAndInvoke p (log_calls ps Map.empty)") (use log in \<open>auto simp: ENVOY_BUG_def\<close>)
  qed (simp add: logged_def)
  have "fst (shouldLogAndInvoke p Map.empty)"
    by (simp add: shouldLogAndInvoke_def bug_inc_def)
  then show "ENVOY_BUG False act actions p False (Map.empty, s) = Inl Assert_failed"
    by (cases "shouldLogAndInvoke p Map.empty") (simp add: ENVOY_BUG_def)
qed

lemma powers_to_4: "powers_to (Suc 0) = 1" "powers_to (Suc (Suc (Suc (Suc 0)))) = 3"
proof -
  have 1: "\<exists>k. Suc 0 = 2 ^ k" by (rule exI [of _ 0]) simp
  have 2: "\<exists>k. Suc (Suc 0) = 2 ^ k" by (rule exI [of _ 1]) simp
  have 3: "\<not> (\<exists>k. Suc (Suc (Suc 0)) = 2 ^ k)"
  proof
    assume "\<exists>k. Suc (Suc (Suc 0)) = 2 ^ k"
    then obtain k where "Suc (Suc (Suc 0)) = 2 ^ k" by blast
    then show False by (cases k) (simp_all, presburger)
  qed
  have 4: "\<exists>k. Suc (Suc (Suc (Suc 0))) = 2 ^ k" by (rule exI [of _ 2]) simp
  show "powers_to (Suc 0) = 1" "powers_to (Suc (Suc (Suc (Suc 0)))) = 3"
    using 1 2 3 4 by (simp_all only: powers_to_Suc powers_to_0 if_True if_False)
qed

theorem envoy_bug_logarithmic_witness:
  "bugs_at (\<lambda>a s. s + a) [1] [''a'', ''b'', ''a'', ''a'', ''a''] (Map.empty, 0 :: nat) =
     Inr (log_calls [''a'', ''b'', ''a'', ''a'', ''a''] Map.empty, 4)"
proof -
  have l: "logged [''a'', ''b'', ''a'', ''a'', ''a''] = Suc (Suc (Suc (Suc 0)))"
    by (simp add: logged_def insert_commute powers_to_4)
  have n: "(invoke_chain (\<lambda>a s. s + a) [1] ^^ logged [''a'', ''b'', ''a'', ''a'', ''a'']) (0 :: nat) = 4"
    unfolding l by simp
  have "length [''a'', ''b'', ''a'', ''a'', ''a''] < 2 ^ 64 - 1" by simp
  from envoy_bug_logarithmic [OF this, of "\<lambda>a s. s + a" "[1]" "0 :: nat", THEN conjunct1] show ?thesis
    unfolding n .
qed

end
