(* ===== verification/ListenSockets.thy ===== *)
theory ListenSockets
  imports Listener SocketOptions
begin

text \<open>
  What \<open>server/ListenerImpl.h\<close> defines of \<open>ListenSocketFactoryImpl\<close>, its fields and inline methods, and
  \<open>ListenerImpl::closeAllSockets\<close>. The constructors of the factory are declared and defined nowhere, so they stay
  parameters (\<open>factory_ops\<close> of \<open>Listener\<close>). A socket is a value of type \<open>'s\<close>; closing one is a parameter, what it does
  to the state of the sockets.
\<close>

section \<open>Socket factories\<close>

record 's listen_socket_factory =
  lf_local_address :: address
  lf_socket_type :: socket_type
  lf_options :: "socket_option list option"
  lf_listener_name :: string
  lf_tcp_backlog_size :: u32
  lf_bind_type :: bind_type
  lf_sockets :: "'s list"

definition factory_socketType :: "'s listen_socket_factory \<Rightarrow> socket_type" where
  "factory_socketType f = lf_socket_type f"

definition factory_localAddress :: "'s listen_socket_factory \<Rightarrow> address" where
  "factory_localAddress f = lf_local_address f"

fun close_sockets :: "('s \<Rightarrow> 'e \<Rightarrow> 'e) \<Rightarrow> 's list \<Rightarrow> 'e \<Rightarrow> 'e" where
  "close_sockets close [] e = e"
| "close_sockets close (s # ss) e = close_sockets close ss (close s e)"

definition factory_closeAllSockets :: "('s \<Rightarrow> 'e \<Rightarrow> 'e) \<Rightarrow> 's listen_socket_factory \<Rightarrow> 'e \<Rightarrow> 'e" where
  "factory_closeAllSockets close f e = close_sockets close (lf_sockets f) e"

text \<open>The factories the code has: the observers are the inline methods, the constructors parameters.\<close>

definition listen_socket_factory_ops ::
  "(address \<Rightarrow> socket_type \<Rightarrow> string \<Rightarrow> bind_type \<Rightarrow> bool \<Rightarrow> 's listen_socket_factory) \<Rightarrow>
   ('s listen_socket_factory \<Rightarrow> 's listen_socket_factory) \<Rightarrow> 's listen_socket_factory factory_ops" where
  "listen_socket_factory_ops create copy =
     \<lparr>ff_create = create, ff_clone = copy, ff_localAddress = factory_localAddress, ff_socketType = factory_socketType\<rparr>"

section \<open>All sockets of a listener\<close>

fun close_factories :: "('s \<Rightarrow> 'e \<Rightarrow> 'e) \<Rightarrow> 's listen_socket_factory list \<Rightarrow> 'e \<Rightarrow> 'e" where
  "close_factories close [] e = e"
| "close_factories close (f # fs) e = close_factories close fs (factory_closeAllSockets close f e)"

definition listener_closeAllSockets :: "('s \<Rightarrow> 'e \<Rightarrow> 'e) \<Rightarrow> 's listen_socket_factory listener \<Rightarrow> 'e \<Rightarrow> 'e" where
  "listener_closeAllSockets close l e = close_factories close (lst_socket_factories l) e"

definition listener_sockets :: "'s listen_socket_factory listener \<Rightarrow> 's list" where
  "listener_sockets l = concat (map lf_sockets (lst_socket_factories l))"

lemma close_sockets_append: "close_sockets close (xs @ ys) e = close_sockets close ys (close_sockets close xs e)"
  by (induction xs arbitrary: e) simp_all

lemma close_factories_concat: "close_factories close fs e = close_sockets close (concat (map lf_sockets fs)) e"
  by (induction fs arbitrary: e) (simp_all add: factory_closeAllSockets_def close_sockets_append)

text \<open>Every socket of every factory is closed, once and in the order of the factories; sockets that were added by cloning
  the factories of another listener come after its own.\<close>

lemma closeAllSockets_closes: "listener_closeAllSockets close l e = close_sockets close (listener_sockets l) e"
  by (simp add: listener_closeAllSockets_def listener_sockets_def close_factories_concat)

lemma added_factories:
  "lst_socket_factories (fold (\<lambda>f. addSocketFactory (g f)) fs l) = lst_socket_factories l @ map g fs"
  by (induction fs arbitrary: l) (simp_all add: addSocketFactory_def)

theorem closeAllSockets_after_clone:
  "listener_closeAllSockets (\<lambda>s trace. trace @ [s]) (cloneSocketFactoryFrom ops other l) [] =
     listener_sockets l @ concat (map (\<lambda>f. lf_sockets (ff_clone ops f)) (lst_socket_factories other))"
proof -
  have trace: "close_sockets (\<lambda>s trace. trace @ [s]) ss t = t @ ss" for ss t
    by (induction ss arbitrary: t) simp_all
  show ?thesis
    by (simp add: closeAllSockets_closes trace listener_sockets_def cloneSocketFactoryFrom_def added_factories comp_def)
qed

end
