(* ===== verification/EventObjects.thy ===== *)
theory EventObjects
  imports Factories EventSpec
begin

text \<open>
  The objects that own libevent events, from construction to destruction: \<open>TimerImpl\<close>, \<open>SchedulableCallbackImpl\<close>,
  \<open>FileEventImpl\<close> and \<open>SignalEventImpl\<close> (\<open>common/event/posix/SignalImpl.cpp\<close>), all over \<open>ImplBase\<close>, whose destructor takes
  the event out of libevent. libevent calls back through a pointer to the object, so an event must not outlive it.
\<close>

section \<open>Signals\<close>

definition EV_SIGNAL :: u32 where "EV_SIGNAL = 8"

record signal_event =
  sg_event :: ev
  sg_signal :: int

definition SignalEventImpl_new :: "'l libevent \<Rightarrow> ev \<Rightarrow> int \<Rightarrow> 'l \<Rightarrow> signal_event \<times> 'l" where
  "SignalEventImpl_new lib e signal_num l =
     (\<lparr>sg_event = e, sg_signal = signal_num\<rparr>, lib_add lib e None (lib_assign lib e (EV_SIGNAL OR EV_PERSIST) l))"

definition listenForSignal :: "'l libevent \<Rightarrow> ev \<Rightarrow> int \<Rightarrow> 'l \<Rightarrow> signal_event \<times> 'l" where
  "listenForSignal lib e signal_num l = SignalEventImpl_new lib e signal_num l"

section \<open>Objects\<close>

datatype event_object =
    Timer_object timer
  | Callback_object ev
  | File_object file_event
  | Signal_object signal_event

text \<open>The events of an object, in the order its destructor destroys them: a file event's activation callback is a member,
  destroyed before the base of the object.\<close>

fun object_events :: "event_object \<Rightarrow> ev list" where
  "object_events (Timer_object t) = [tm_event t]"
| "object_events (Callback_object e) = [e]"
| "object_events (File_object fe) = [fe_activation fe, fe_event fe]"
| "object_events (Signal_object sg) = [sg_event sg]"

definition destroy_object :: "'l libevent \<Rightarrow> event_object \<Rightarrow> 'l \<Rightarrow> 'l" where
  "destroy_object lib ob l = fold (ImplBase_destroy lib) (object_events ob) l"

text \<open>Events that stay registered when they fire.\<close>

fun persistent_events :: "event_object \<Rightarrow> ev list" where
  "persistent_events (File_object fe) = [fe_event fe]"
| "persistent_events (Signal_object sg) = [sg_event sg]"
| "persistent_events _ = []"

datatype object_op =
    Enable int "nat option"
  | Enable_HR int "nat option"
  | Disable
  | Schedule_current
  | Schedule_next
  | Cancel
  | On_file file_op

fun operate :: "'l libevent \<Rightarrow> object_op \<Rightarrow> event_object \<Rightarrow> 'l \<Rightarrow> event_object \<times> 'l" where
  "operate lib (Enable ms obj) (Timer_object t) l = map_prod Timer_object id (enableTimer lib ms obj (t, l))"
| "operate lib (Enable_HR us obj) (Timer_object t) l = map_prod Timer_object id (enableHRTimer lib us obj (t, l))"
| "operate lib Disable (Timer_object t) l = map_prod Timer_object id (disableTimer lib (t, l))"
| "operate lib Schedule_current (Callback_object e) l = (Callback_object e, scheduleCallbackCurrentIteration lib e l)"
| "operate lib Schedule_next (Callback_object e) l = (Callback_object e, scheduleCallbackNextIteration lib e l)"
| "operate lib Cancel (Callback_object e) l = (Callback_object e, scb_cancel lib e l)"
| "operate lib (On_file op) (File_object fe) l = map_prod File_object id (fst (file_step lib op ((fe, l), [])))"
| "operate lib _ ob l = (ob, l)"

definition owned :: "event_object list \<Rightarrow> ev list" where
  "owned obs = concat (map object_events obs)"

definition persistent :: "event_object list \<Rightarrow> ev list" where
  "persistent obs = concat (map persistent_events obs)"

section \<open>A dispatcher's thread and its objects\<close>

text \<open>The thread makes objects at addresses that are free, uses them, runs what fires, and destroys them, in any order;
  a persistent event that fires changes nothing here but through the file event's callback, \<open>On_file (Ready what)\<close>.\<close>

inductive object_step :: "'l libevent \<Rightarrow> event_object list \<times> 'l \<Rightarrow> event_object list \<times> 'l \<Rightarrow> bool" for lib where
  make_timer:
    "e \<notin> set (owned obs) \<Longrightarrow> libevent_createTimer lib e l = (t, l1) \<Longrightarrow>
     object_step lib (obs, l) (obs @ [Timer_object t], l1)"
| make_callback:
    "e \<notin> set (owned obs) \<Longrightarrow> object_step lib (obs, l) (obs @ [Callback_object e], createSchedulableCallback lib e l)"
| make_file:
    "e \<notin> set (owned obs) \<Longrightarrow> act \<notin> set (owned obs) \<Longrightarrow> e \<noteq> act \<Longrightarrow>
     createFileEvent lib e act trigger events l = (fe, l1) \<Longrightarrow> object_step lib (obs, l) (obs @ [File_object fe], l1)"
| make_signal:
    "e \<notin> set (owned obs) \<Longrightarrow> listenForSignal lib e signal_num l = (sg, l1) \<Longrightarrow>
     object_step lib (obs, l) (obs @ [Signal_object sg], l1)"
| use:
    "operate lib op ob l = (ob1, l1) \<Longrightarrow> object_step lib (obs @ ob # obs', l) (obs @ ob1 # obs', l1)"
| fire:
    "lib_pending lib e l \<Longrightarrow> e \<notin> set (persistent obs) \<Longrightarrow> object_step lib (obs, l) (obs, lib_fire lib e l)"
| destroy:
    "object_step lib (obs @ ob # obs', l) (obs @ obs', destroy_object lib ob l)"

inductive objects_reachable :: "'l libevent \<Rightarrow> event_object list \<times> 'l \<Rightarrow> bool" for lib where
  objects_none: "(\<And>e. \<not> lib_pending lib e l) \<Longrightarrow> objects_reachable lib ([], l)"
| objects_step: "objects_reachable lib s \<Longrightarrow> object_step lib s s' \<Longrightarrow> objects_reachable lib s'"

definition objects_inv :: "'l libevent \<Rightarrow> event_object list \<times> 'l \<Rightarrow> bool" where
  "objects_inv lib s \<longleftrightarrow> (case s of (obs, l) \<Rightarrow>
     distinct (owned obs) \<and> (\<forall>e. lib_pending lib e l \<longrightarrow> e \<in> set (owned obs))
     \<and> (\<forall>e \<in> set (persistent obs). lib_pending lib e l))"

lemma owned_simps [simp]:
  "owned [] = []" "owned (obs @ obs') = owned obs @ owned obs'" "owned (ob # obs) = object_events ob @ owned obs"
  "persistent [] = []" "persistent (obs @ obs') = persistent obs @ persistent obs'"
  "persistent (ob # obs) = persistent_events ob @ persistent obs"
  by (simp_all add: owned_def persistent_def)

lemma persistent_owned: "e \<in> set (persistent_events ob) \<Longrightarrow> e \<in> set (object_events ob)"
  by (cases ob) auto

lemma persistent_subset: "e \<in> set (persistent obs) \<Longrightarrow> e \<in> set (owned obs)"
  by (auto simp: persistent_def owned_def intro: persistent_owned)

lemma destroy_pending:
  assumes "libevent_contract lib"
  shows "lib_pending lib e (destroy_object lib ob l) \<longleftrightarrow> e \<notin> set (object_events ob) \<and> lib_pending lib e l"
  using libevent_simps [OF assms] by (cases ob) (auto simp: destroy_object_def ImplBase_destroy_def)

text \<open>An operation keeps the events of its object, touches no other, and leaves the persistent ones registered.\<close>

lemmas timer_defs = enableTimer_def enableHRTimer_def disableTimer_def internalEnableTimer_def
  scheduleCallbackCurrentIteration_def

lemma file_step_events:
  assumes lib: "libevent_contract lib" and "file_step lib op ((fe, l), []) = ((fe1, l1), out)"
  shows "fe_event fe1 = fe_event fe \<and> fe_activation fe1 = fe_activation fe
    \<and> (lib_pending lib (fe_event fe) l \<and> fe_event fe \<noteq> fe_activation fe \<longrightarrow> lib_pending lib (fe_event fe) l1)
    \<and> (\<forall>e. e \<noteq> fe_event fe \<and> e \<noteq> fe_activation fe \<longrightarrow> lib_pending lib e l1 = lib_pending lib e l)"
  using assms(2) by (cases op) (auto simp: file_defs libevent_simps [OF lib] Let_def split: if_splits)

lemma operate_events:
  assumes lib: "libevent_contract lib" and "operate lib op ob l = (ob1, l1)"
  shows "object_events ob1 = object_events ob \<and> persistent_events ob1 = persistent_events ob
    \<and> (distinct (object_events ob) \<and> (\<forall>e \<in> set (persistent_events ob). lib_pending lib e l)
        \<longrightarrow> (\<forall>e \<in> set (persistent_events ob). lib_pending lib e l1))
    \<and> (\<forall>e. e \<notin> set (object_events ob) \<longrightarrow> lib_pending lib e l1 = lib_pending lib e l)"
proof (cases "\<exists>fop fe. op = On_file fop \<and> ob = File_object fe")
  case True
  then obtain fop fe where o: "op = On_file fop" "ob = File_object fe" by blast
  obtain fe1 l2 out where s: "file_step lib fop ((fe, l), []) = ((fe1, l2), out)" by (metis surj_pair)
  show ?thesis using assms(2) file_step_events [OF lib s] by (auto simp: o s)
next
  case False
  then show ?thesis
    using assms(2) libevent_simps [OF lib]
    by (cases op; cases ob)
      (auto simp: timer_defs scheduleCallbackNextIteration_def scb_cancel_def split: if_splits)
qed

lemma object_step_inv:
  assumes lib: "libevent_contract lib" and "object_step lib s s'" and "objects_inv lib s"
  shows "objects_inv lib s'"
  using assms(2)
proof cases
  case (use op ob l ob1 l1 obs obs')
  have "e \<notin> set (object_events ob)" if "e \<in> set (persistent obs) \<union> set (persistent obs')" for e
    using assms(3) that persistent_subset [of e obs] persistent_subset [of e obs'] by (auto simp: objects_inv_def use(1,2))
  then show ?thesis using assms(3) operate_events [OF lib use(3)] by (auto simp: objects_inv_def use(1,2))
next
  case (destroy obs ob obs' l)
  then show ?thesis
    using assms(3) persistent_subset [of _ obs] persistent_subset [of _ obs']
    by (auto simp: objects_inv_def destroy_pending [OF lib])
qed (use assms(3) libevent_simps [OF lib] persistent_subset made_not_pending [OF lib] in
  \<open>auto simp: objects_inv_def libevent_createTimer_def TimerImpl_new_def createSchedulableCallback_def
      SchedulableCallbackImpl_new_def listenForSignal_def SignalEventImpl_new_def createFileEvent_def
      FileEventImpl_new_def assignEvents_def\<close>)

lemma objects_reachable_inv:
  assumes "libevent_contract lib" and "objects_reachable lib s"
  shows "objects_inv lib s"
  using assms(2)
  by induction (simp add: objects_inv_def, rule object_step_inv [OF assms(1)])

lemma concat_index_unique:
  "distinct (concat xss) \<Longrightarrow> i < length xss \<Longrightarrow> j < length xss \<Longrightarrow> e \<in> set (xss ! i) \<Longrightarrow> e \<in> set (xss ! j) \<Longrightarrow> i = j"
proof (induction xss arbitrary: i j)
  case (Cons xs xss)
  have "e \<notin> set xs" if "k < length xss" "e \<in> set (xss ! k)" for k using Cons.prems(1) that nth_mem by fastforce
  then show ?case using Cons by (cases i; cases j) auto
qed simp

section \<open>Property\<close>

text \<open>Property C7. However a thread makes, uses, fires and destroys its timers, callbacks, file events and signals, libevent holds no
  event whose object is gone: every pending event belongs to exactly one live object, and destroying an object takes its
  events out and no other's. File events and signals stay registered until they are destroyed.\<close>

theorem no_event_outlives_its_object:
  assumes "libevent_contract lib" and "objects_reachable lib (obs, l)"
  shows "(\<forall>e. lib_pending lib e l \<longrightarrow> (\<exists>!i. i < length obs \<and> e \<in> set (object_events (obs ! i))))
    \<and> (\<forall>e \<in> set (persistent obs). lib_pending lib e l)
    \<and> (\<forall>e ob. lib_pending lib e (destroy_object lib ob l) \<longleftrightarrow> e \<notin> set (object_events ob) \<and> lib_pending lib e l)"
proof (intro conjI allI impI)
  have inv: "distinct (owned obs)" "\<And>e. lib_pending lib e l \<Longrightarrow> e \<in> set (owned obs)"
    "\<forall>e \<in> set (persistent obs). lib_pending lib e l"
    using objects_reachable_inv [OF assms] by (auto simp: objects_inv_def)
  show "\<forall>e \<in> set (persistent obs). lib_pending lib e l" by (rule inv(3))
  fix e
  assume "lib_pending lib e l"
  then have "e \<in> set (owned obs)" by (rule inv(2))
  then obtain i where i: "i < length obs" "e \<in> set (object_events (obs ! i))"
    by (auto simp: owned_def in_set_conv_nth [of _ obs])
  have "j = i" if j: "j < length obs" "e \<in> set (object_events (obs ! j))" for j
    using concat_index_unique [of "map object_events obs" i j e] inv(1) i j by (auto simp: owned_def)
  then show "\<exists>!i. i < length obs \<and> e \<in> set (object_events (obs ! i))" using i by blast
qed (simp add: destroy_pending [OF assms(1)])

theorem no_event_outlives_its_object_witness:
  "\<exists>l. objects_reachable set_libevent
       ([Callback_object 5, Signal_object \<lparr>sg_event = 7, sg_signal = 15\<rparr>], l)
     \<and> lib_pending set_libevent 5 l \<and> lib_pending set_libevent 7 l
     \<and> \<not> lib_pending set_libevent 5 (destroy_object set_libevent (Callback_object 5) l)"
proof -
  let ?sg = "\<lparr>sg_event = 7, sg_signal = 15\<rparr>"
  have "objects_reachable set_libevent ([], [])" by (rule objects_none) (simp add: set_libevent_def)
  from objects_step [OF this make_callback [of 5]]
  have "objects_reachable set_libevent ([Callback_object 5], [])"
    by (simp add: createSchedulableCallback_def SchedulableCallbackImpl_new_def set_libevent_def)
  from objects_step [OF this use [where obs = "[]" and obs' = "[]" and op = Schedule_next, simplified]]
  have "objects_reachable set_libevent ([Callback_object 5], [5])"
    by (simp add: scheduleCallbackNextIteration_def scb_enabled_def set_libevent_def)
  from objects_step [OF this make_signal [where e = 7 and sg = ?sg and signal_num = 15 and ?l1.0 = "[7, 5]"]]
  have r: "objects_reachable set_libevent ([Callback_object 5, Signal_object ?sg], [7, 5])"
    by (simp add: listenForSignal_def SignalEventImpl_new_def set_libevent_def)
  moreover have "lib_pending set_libevent 5 [7, 5]" "lib_pending set_libevent 7 [7, 5]"
    by (simp_all add: set_libevent_def)
  ultimately show ?thesis using no_event_outlives_its_object [OF set_libevent_contract r] by auto
qed

end
