(* ===== verification/Chances.thy ===== *)
theory Chances
  imports Complex_Main Support CommonParts
begin

text \<open>
  Code of the tree that computes with fractions: \<open>RandomGenerator::bernoulli\<close> (\<open>include/common/RandomGenerator.h\<close>), the
  minimum of a scaled timer (\<open>include/event/ScaledTimer.h\<close>) and \<open>WelfordStandardDeviation\<close> (\<open>common/common/Utility.cpp\<close>).

  A finite float is a rational number. Multiplying one of \<open>[0, 1)\<close> by \<open>2 ^ 64\<close>, which is what \<open>max()\<close> is as a float, is
  exact, so \<open>bernoulli\<close> is modelled without rounding. The other two round; there the arithmetic of the machine is a
  parameter.
\<close>

section \<open>Chances\<close>

text \<open>\<open>UnitFloat\<close>, a \<open>ClosedIntervalValue\<close> between 0 and 1.\<close>

definition unit_interval :: "rat closed_interval" where
  "unit_interval = (0, 1)"

definition UnitFloat_new :: "rat \<Rightarrow> rat closed_value" where
  "UnitFloat_new v = cv_new unit_interval v"

definition random_max_float :: rat where
  "random_max_float = 2 ^ 64"

text \<open>Truncation to an unsigned integer.\<close>

definition to_u64 :: "rat \<Rightarrow> u64" where
  "to_u64 x = word_of_int \<lfloor>x\<rfloor>"

text \<open>\<open>random\<close> is called for the probabilities strictly between the ends only.\<close>

definition bernoulli :: "('g \<Rightarrow> u64 \<times> 'g) \<Rightarrow> rat closed_value \<Rightarrow> 'g \<Rightarrow> bool \<times> 'g" where
  "bernoulli random p g =
     (if p = cv_min unit_interval then (False, g)
      else if p = cv_max unit_interval then (True, g)
      else let (r, g1) = random g in (r < to_u64 (cv_value p * random_max_float), g1))"

text \<open>With a generator that gives the number \<open>r\<close>.\<close>

definition hit :: "rat closed_value \<Rightarrow> u64 \<Rightarrow> bool" where
  "hit p r = fst (bernoulli (\<lambda>g. (r, g)) p ())"

lemma unit_in: "cv_in unit_interval p \<longleftrightarrow> 0 \<le> cv_value p \<and> cv_value p \<le> 1"
  by (simp add: cv_in_def unit_interval_def)

lemma unit_ends: "p = cv_min unit_interval \<longleftrightarrow> cv_value p = 0" "p = cv_max unit_interval \<longleftrightarrow> cv_value p = 1"
  by (cases p; simp add: cv_min_def cv_max_def cv_new_def unit_interval_def)+

lemma words_below: "card {r :: u64. unat r < n} = n" if "n \<le> 2 ^ 64"
proof -
  have "bij_betw unat {r :: u64. unat r < n} {..<n}"
  proof (rule bij_betw_imageI)
    show "inj_on unat {r :: u64. unat r < n}" by (rule inj_onI) (simp add: word_unat_eq_iff)
    show "unat ` {r :: u64. unat r < n} = {..<n}"
    proof
      show "{..<n} \<subseteq> unat ` {r :: u64. unat r < n}"
      proof
        fix k assume "k \<in> {..<n}"
        then have "unat (word_of_nat k :: u64) = k" "k < n"
          using that by (simp_all add: unat_of_nat take_bit_nat_eq_self_iff)
        then show "k \<in> unat ` {r :: u64. unat r < n}" by (metis imageI mem_Collect_eq)
      qed
    qed auto
  qed
  then show ?thesis by (simp add: bij_betw_same_card)
qed

lemma hit_iff:
  assumes "0 < cv_value p" and "cv_value p < 1"
  shows "hit p r \<longleftrightarrow> unat r < nat \<lfloor>cv_value p * 2 ^ 64\<rfloor>"
proof -
  let ?n = "\<lfloor>cv_value p * 2 ^ 64\<rfloor>"
  have "0 \<le> ?n" using assms by simp
  moreover have "?n < 2 ^ 64" using assms by (simp add: floor_less_iff)
  ultimately have "unat (word_of_int ?n :: u64) = nat ?n"
    by (simp add: unsigned_of_int take_bit_int_eq_self)
  then show ?thesis
    using assms unit_ends [of p]
    by (simp add: hit_def bernoulli_def to_u64_def random_max_float_def word_less_nat_alt)
qed

lemma hits_card:
  assumes "cv_in unit_interval p"
  shows "card {r. hit p r} = nat \<lfloor>cv_value p * 2 ^ 64\<rfloor>"
proof -
  consider "cv_value p = 0" | "cv_value p = 1" | "0 < cv_value p" "cv_value p < 1"
    using assms unfolding unit_in by linarith
  then show ?thesis
  proof cases
    case 1
    then show ?thesis using unit_ends(1) [of p] by (simp add: hit_def bernoulli_def)
  next
    case 2
    then have "hit p r" for r using unit_ends [of p] by (simp add: hit_def bernoulli_def)
    then have "{r. hit p r} = {r :: u64. unat r < 2 ^ 64}"
      using unsigned_less [where 'b = 64 and 'a = nat] by auto
    then show ?thesis using words_below [of "2 ^ 64"] 2 by simp
  next
    case 3
    have "nat \<lfloor>cv_value p * 2 ^ 64\<rfloor> \<le> 2 ^ 64" using 3 by (simp add: nat_le_iff floor_le_iff)
    then show ?thesis using words_below hit_iff [OF 3] by simp
  qed
qed

section \<open>Scaled timers\<close>

datatype scaled_timer_minimum = ScaledMinimum "rat closed_value" | AbsoluteMinimum int

datatype scaled_timer_type =
    UnscaledRealTimerForTest
  | HttpDownstreamIdleConnectionTimeout
  | HttpDownstreamIdleStreamTimeout
  | TransportSocketConnectTimeout

text \<open>\<open>duration_cast\<close> to whole milliseconds cuts towards zero.\<close>

definition to_milliseconds :: "rat \<Rightarrow> int" where
  "to_milliseconds x = (if x < 0 then \<lceil>x\<rceil> else \<lfloor>x\<rfloor>)"

text \<open>\<open>fmul\<close> is the machine's product of a float and a count of milliseconds.\<close>

definition computeMinimum :: "(rat \<Rightarrow> int \<Rightarrow> rat) \<Rightarrow> scaled_timer_minimum \<Rightarrow> int \<Rightarrow> int" where
  "computeMinimum fmul m maximum =
     (case m of
        ScaledMinimum scale_factor \<Rightarrow> to_milliseconds (fmul (cv_value scale_factor) maximum)
      | AbsoluteMinimum value \<Rightarrow> value)"

text \<open>What IEEE 754 says of a product of floats: it is monotone in a factor, exact with 0, and with 1 exact for the
  integers a float can represent.\<close>

definition float_mult_contract :: "(rat \<Rightarrow> int \<Rightarrow> rat) \<Rightarrow> bool" where
  "float_mult_contract fmul \<longleftrightarrow>
     (\<forall>p q n. 0 \<le> n \<longrightarrow> p \<le> q \<longrightarrow> fmul p n \<le> fmul q n)
     \<and> (\<forall>n. fmul 0 n = 0)
     \<and> (\<forall>n. \<bar>n\<bar> \<le> 2 ^ 24 \<longrightarrow> fmul 1 n = of_int n)"

lemma scaled_minimum_bounds:
  assumes "float_mult_contract fmul" and "cv_in unit_interval p" and "0 \<le> maximum" and "maximum \<le> 2 ^ 24"
  shows "0 \<le> computeMinimum fmul (ScaledMinimum p) maximum"
    and "computeMinimum fmul (ScaledMinimum p) maximum \<le> maximum"
proof -
  have p: "0 \<le> cv_value p" "cv_value p \<le> 1" using assms(2) by (simp_all add: unit_in)
  have "fmul a maximum \<le> fmul b maximum" if "a \<le> b" for a b
    using assms(1,3) that unfolding float_mult_contract_def by blast
  then have "fmul 0 maximum \<le> fmul (cv_value p) maximum" "fmul (cv_value p) maximum \<le> fmul 1 maximum"
    using p by blast+
  moreover have "fmul 0 maximum = 0" "fmul 1 maximum = of_int maximum"
    using assms(1,3,4) by (simp_all add: float_mult_contract_def)
  ultimately have b: "0 \<le> fmul (cv_value p) maximum" "fmul (cv_value p) maximum \<le> of_int maximum" by simp_all
  show "0 \<le> computeMinimum fmul (ScaledMinimum p) maximum"
    using b(1) by (simp add: computeMinimum_def to_milliseconds_def)
  show "computeMinimum fmul (ScaledMinimum p) maximum \<le> maximum"
    using b floor_mono [OF b(2)] by (simp add: computeMinimum_def to_milliseconds_def)
qed

section \<open>Standard deviation\<close>

text \<open>The arithmetic of \<open>double\<close>.\<close>

record 'd double_ops =
  d_of_count :: "u64 \<Rightarrow> 'd"
  d_add :: "'d \<Rightarrow> 'd \<Rightarrow> 'd"
  d_sub :: "'d \<Rightarrow> 'd \<Rightarrow> 'd"
  d_mul :: "'d \<Rightarrow> 'd \<Rightarrow> 'd"
  d_div :: "'d \<Rightarrow> 'd \<Rightarrow> 'd"
  d_sqrt :: "'d \<Rightarrow> 'd"
  d_nan :: 'd
  d_isnan :: "'d \<Rightarrow> bool"
  d_negative :: "'d \<Rightarrow> bool"

record 'd welford =
  wf_count :: u64
  wf_mean :: 'd
  wf_m2 :: 'd

definition welford_new :: "'d double_ops \<Rightarrow> 'd welford" where
  "welford_new D = \<lparr>wf_count = 0, wf_mean = d_of_count D 0, wf_m2 = d_of_count D 0\<rparr>"

definition welford_update :: "'d double_ops \<Rightarrow> 'd \<Rightarrow> 'd welford \<Rightarrow> 'd welford" where
  "welford_update D new_value w =
     (let count1 = wf_count w + 1;
          delta = d_sub D new_value (wf_mean w);
          mean1 = d_add D (wf_mean w) (d_div D delta (d_of_count D count1));
          delta2 = d_sub D new_value mean1
      in \<lparr>wf_count = count1, wf_mean = mean1, wf_m2 = d_add D (wf_m2 w) (d_mul D delta delta2)\<rparr>)"

definition computeVariance :: "'d double_ops \<Rightarrow> 'd welford \<Rightarrow> 'd" where
  "computeVariance D w =
     (if wf_count w < 2 then d_nan D else d_div D (wf_m2 w) (d_of_count D (wf_count w - 1)))"

definition computeStandardDeviation :: "'d double_ops \<Rightarrow> 'd welford \<Rightarrow> 'd" where
  "computeStandardDeviation D w =
     (let variance = computeVariance D w
      in if d_isnan D variance \<or> d_negative D variance then d_nan D else d_sqrt D variance)"

text \<open>Exact arithmetic on rational numbers and a value for everything else.\<close>

definition exact_ops :: "(rat \<Rightarrow> rat option) \<Rightarrow> rat option double_ops" where
  "exact_ops rt =
     \<lparr>d_of_count = (\<lambda>n. Some (of_nat (unat n))),
      d_add = (\<lambda>a b. case (a, b) of (Some x, Some y) \<Rightarrow> Some (x + y) | _ \<Rightarrow> None),
      d_sub = (\<lambda>a b. case (a, b) of (Some x, Some y) \<Rightarrow> Some (x - y) | _ \<Rightarrow> None),
      d_mul = (\<lambda>a b. case (a, b) of (Some x, Some y) \<Rightarrow> Some (x * y) | _ \<Rightarrow> None),
      d_div = (\<lambda>a b. case (a, b) of (Some x, Some y) \<Rightarrow> Some (x / y) | _ \<Rightarrow> None),
      d_sqrt = (\<lambda>a. case a of Some x \<Rightarrow> rt x | _ \<Rightarrow> None),
      d_nan = None, d_isnan = (\<lambda>a. a = None),
      d_negative = (\<lambda>a. case a of Some x \<Rightarrow> x < 0 | None \<Rightarrow> False)\<rparr>"

lemma exact_count: "unat n = k \<Longrightarrow> d_of_count (exact_ops rt) n = Some (of_nat k)"
  by (simp add: exact_ops_def del: of_nat_unat)

lemma exact_simps [simp]:
  "d_add (exact_ops rt) (Some x) (Some y) = Some (x + y)"
  "d_sub (exact_ops rt) (Some x) (Some y) = Some (x - y)"
  "d_mul (exact_ops rt) (Some x) (Some y) = Some (x * y)"
  "d_div (exact_ops rt) (Some x) (Some y) = Some (x / y)"
  "d_nan (exact_ops rt) = None"
  by (simp_all add: exact_ops_def)

lemma exact_update:
  "unat (k + 1) = n \<Longrightarrow>
     welford_update (exact_ops rt) (Some x) \<lparr>wf_count = k, wf_mean = Some m, wf_m2 = Some s\<rparr> =
       (let m1 = m + (x - m) / of_nat n in \<lparr>wf_count = k + 1, wf_mean = Some m1, wf_m2 = Some (s + (x - m) * (x - m1))\<rparr>)"
  using exact_count [of "k + 1" n rt] by (simp add: welford_update_def Let_def)

definition mean_of :: "rat list \<Rightarrow> rat" where
  "mean_of xs = sum_list xs / of_nat (length xs)"

definition squares_around :: "rat \<Rightarrow> rat list \<Rightarrow> rat" where
  "squares_around m xs = (\<Sum>x\<leftarrow>xs. (x - m) ^ 2)"

lemma squares_expand: "squares_around m xs = (\<Sum>x\<leftarrow>xs. x ^ 2) - 2 * m * sum_list xs + of_nat (length xs) * m ^ 2"
  by (induction xs) (simp_all add: squares_around_def power2_eq_square algebra_simps)

lemma squares_at_mean:
  "squares_around (mean_of xs) xs = (\<Sum>x\<leftarrow>xs. x ^ 2) - (sum_list xs) ^ 2 / of_nat (length xs)"
  by (cases "xs = []") (simp_all add: squares_expand mean_of_def power2_eq_square field_simps)

lemma mean_algebra:
  fixes n :: rat
  assumes "n \<noteq> 0" and "1 + n \<noteq> 0"
  shows "(S + x) / (1 + n) = S / n + (x - S / n) / (1 + n)"
proof -
  have "S / n + (x - S / n) / (1 + n) = (S / n * (1 + n) + (x - S / n)) / (1 + n)"
    using assms(2) by (simp add: add_divide_distrib)
  also have "S / n * (1 + n) + (x - S / n) = S + x"
    using assms(1) by (simp add: distrib_left)
  finally show ?thesis by simp
qed

lemma squares_algebra:
  fixes n :: rat
  assumes "n \<noteq> 0" and "1 + n \<noteq> 0"
  shows "S ^ 2 / n - (S + x) ^ 2 / (1 + n) + x ^ 2 = (x - S / n) * (x - (S + x) / (1 + n))"
proof -
  define m where "m = S / n"
  define k where "k = (S + x) / (1 + n)"
  have S: "S = m * n" using assms(1) by (simp add: m_def)
  have k: "k * (1 + n) = m * n + x" using assms(2) by (simp add: k_def S)
  have "S ^ 2 / n = m * m * n" using assms(1) by (simp add: S power2_eq_square)
  moreover have "(S + x) ^ 2 / (1 + n) = k * (m * n + x)" by (simp add: k_def S power2_eq_square)
  moreover have "m * m * n - k * (m * n + x) + x ^ 2 = (x - m) * (x - k)"
  proof -
    have "m * (m * n + x) = m * (k * (1 + n))" by (simp add: k)
    then have "m * m * n = m * k * (1 + n) - m * x" by (simp add: algebra_simps)
    moreover have "k * (m * n + x) = k * m * n + k * x" by (simp add: algebra_simps)
    ultimately show ?thesis by (simp add: power2_eq_square algebra_simps)
  qed
  ultimately show ?thesis by (simp add: m_def [symmetric] k_def [symmetric])
qed

lemma length_nonzero: "xs \<noteq> [] \<Longrightarrow> (of_nat (length xs) :: rat) \<noteq> 0 \<and> 1 + (of_nat (length xs) :: rat) \<noteq> 0"
  using of_nat_0_le_iff [of "length xs", where 'a = rat] by (auto simp del: of_nat_0_le_iff)

lemma mean_step:
  "mean_of (xs @ [x]) = mean_of xs + (x - mean_of xs) / of_nat (length xs + 1)"
proof (cases "xs = []")
  case False
  from mean_algebra [OF length_nonzero [OF this, THEN conjunct1] length_nonzero [OF this, THEN conjunct2], of "sum_list xs" x]
  show ?thesis by (simp add: mean_of_def)
qed (simp add: mean_of_def)

lemma squares_step:
  "squares_around (mean_of (xs @ [x])) (xs @ [x]) =
     squares_around (mean_of xs) xs + (x - mean_of xs) * (x - mean_of (xs @ [x]))"
proof (cases "xs = []")
  case False
  from squares_algebra [OF length_nonzero [OF this, THEN conjunct1] length_nonzero [OF this, THEN conjunct2], of "sum_list xs" x]
  show ?thesis unfolding squares_at_mean by (simp add: mean_of_def)
qed (simp add: squares_around_def mean_of_def)

text \<open>Without rounding, the running values are the mean and the sum of squares of what was put in.\<close>

lemma welford_run:
  assumes "length xs < 2 ^ 64"
  shows "fold (welford_update (exact_ops rt)) (map Some xs) (welford_new (exact_ops rt)) =
     \<lparr>wf_count = word_of_nat (length xs), wf_mean = Some (mean_of xs), wf_m2 = Some (squares_around (mean_of xs) xs)\<rparr>"
  using assms
proof (induction xs rule: rev_induct)
  case Nil
  then show ?case by (simp add: welford_new_def exact_count [of 0 0] mean_of_def squares_around_def)
next
  case (snoc x xs)
  have c: "unat (word_of_nat (length xs) + 1 :: u64) = length xs + 1"
  proof -
    have "unat (word_of_nat (length xs + 1) :: u64) = length xs + 1"
      using snoc.prems by (simp add: unat_of_nat take_bit_nat_eq_self_iff del: of_nat_add of_nat_Suc)
    then show ?thesis by (simp add: add.commute)
  qed
  have ih: "fold (welford_update (exact_ops rt)) (map Some xs) (welford_new (exact_ops rt)) =
      \<lparr>wf_count = word_of_nat (length xs), wf_mean = Some (mean_of xs), wf_m2 = Some (squares_around (mean_of xs) xs)\<rparr>"
    using snoc by simp
  show ?case
    using mean_step [of xs x] squares_step [of xs x]
    by (simp add: ih exact_update [OF c] Let_def add.commute [of 1])
qed

section \<open>Properties\<close>

text \<open>Property C39. The chance that \<open>bernoulli(p)\<close> is true on a number drawn uniformly is \<open>p\<close>, short of less than \<open>2 ^ (-64)\<close>: of the
  \<open>2 ^ 64\<close> numbers, \<open>p * 2 ^ 64\<close> rounded down say so, none when \<open>p\<close> is 0 and all when it is 1.\<close>

theorem bernoulli_chance:
  assumes "0 \<le> v" and "v \<le> 1"
  shows "of_nat (card {r. hit (UnitFloat_new v) r}) \<le> v * 2 ^ 64
    \<and> v * 2 ^ 64 < of_nat (card {r. hit (UnitFloat_new v) r}) + 1"
proof -
  have p: "cv_value (UnitFloat_new v) = v" using assms by (simp add: UnitFloat_new_def cv_new_def unit_interval_def)
  have card: "card {r. hit (UnitFloat_new v) r} = nat \<lfloor>v * 2 ^ 64\<rfloor>"
    using hits_card [of "UnitFloat_new v"] assms by (simp add: unit_in p)
  have "0 \<le> \<lfloor>v * 2 ^ 64\<rfloor>" using assms by simp
  then have "(of_nat (nat \<lfloor>v * 2 ^ 64\<rfloor>) :: rat) = of_int \<lfloor>v * 2 ^ 64\<rfloor>" by (rule of_nat_nat)
  then show ?thesis unfolding card using of_int_floor_le [of "v * 2 ^ 64"] floor_correct [of "v * 2 ^ 64"] by simp
qed

theorem bernoulli_chance_witness:
  "of_nat (card {r. hit (UnitFloat_new (1 / 2)) r}) \<le> (1 / 2) * (2 :: rat) ^ 64"
  using bernoulli_chance [of "1 / 2"] by simp

text \<open>Property C40. \<open>WelfordStandardDeviation\<close> computes, up to the rounding of its arithmetic, the mean and the variance of a sample:
  the sum of the squared distances from the mean, divided by one less than the number of values, and no number for
  fewer than two.\<close>

theorem welford_is_variance:
  assumes "length xs < 2 ^ 64"
    and "w = fold (welford_update (exact_ops rt)) (map Some xs) (welford_new (exact_ops rt))"
  shows "wf_mean w = Some (mean_of xs)
    \<and> computeVariance (exact_ops rt) w =
        (if length xs < 2 then None else Some (squares_around (mean_of xs) xs / of_nat (length xs - 1)))"
proof -
  have w: "w = \<lparr>wf_count = word_of_nat (length xs), wf_mean = Some (mean_of xs), wf_m2 = Some (squares_around (mean_of xs) xs)\<rparr>"
    unfolding assms(2) by (rule welford_run [OF assms(1)])
  have n: "unat (word_of_nat (length xs) :: u64) = length xs"
    using assms(1) by (simp add: unat_of_nat take_bit_nat_eq_self_iff)
  have lt: "(word_of_nat (length xs) :: u64) < 2 \<longleftrightarrow> length xs < 2"
    by (simp add: word_less_nat_alt n)
  show ?thesis
  proof (cases "length xs < 2")
    case True
    then show ?thesis using lt by (simp add: w computeVariance_def)
  next
    case False
    have "unat (word_of_nat (length xs) - 1 :: u64) = length xs - 1"
      using False n by (subst unat_sub) (simp_all add: word_le_nat_alt)
    from exact_count [OF this, of rt] show ?thesis using False lt by (simp add: w computeVariance_def)
  qed
qed

theorem welford_is_variance_witness:
  "computeVariance (exact_ops (\<lambda>x. None))
     (fold (welford_update (exact_ops (\<lambda>x. None))) [Some 1, Some 2, Some 6] (welford_new (exact_ops (\<lambda>x. None)))) = Some 7"
  using welford_is_variance [of "[1, 2, 6]" _ "\<lambda>x. None", OF _ refl]
  by (simp add: mean_of_def squares_around_def power2_eq_square)

end
