(* ===== verification/Interfaces.thy ===== *)
theory Interfaces
  imports ServerSpec ServerRun Guards SysCalls
begin

text \<open>
  The pieces of code in the interfaces under \<open>include/\<close>, and what puts the program together: typed thread-local slots
  (\<open>include/ThreadLocal\<close>), the addresses of a datagram (\<open>include/network/Listener.h\<close>), the states of a listener
  (\<open>include/server/ListenerManager.h\<close>), options of sockets (\<open>include/network/SocketInterface.h\<close>), the settings of UDP
  sockets (\<open>common/network/Utility.cpp\<close>), \<open>Libevent::Global\<close> and \<open>main\<close> of \<open>example/envoy_tcp\<close>.
\<close>

section \<open>Thread-local slots\<close>

text \<open>
  No class of the tree implements \<open>Slot\<close>: what it answers and how it runs a callback on all threads are parameters,
  \<open>get\<close> and \<open>run\<close>. An object is a value of \<open>'o\<close>, \<open>cast\<close> is \<open>dynamic_cast\<close> to the type of the slot.
\<close>

definition asType :: "('o \<Rightarrow> 't option) \<Rightarrow> 'o \<Rightarrow> 't result" where
  "asType cast obj = (case cast obj of None \<Rightarrow> Inl Assert_failed | Some t \<Rightarrow> Inr t)"

definition slot_getTyped :: "('o \<Rightarrow> 't option) \<Rightarrow> 'o option \<Rightarrow> 't result" where
  "slot_getTyped cast get =
     assert_then (Option.bind get cast \<noteq> None) (Inr (the (Option.bind get cast)))"

definition slot_getOpt :: "('o \<Rightarrow> 't option) \<Rightarrow> 'o option \<Rightarrow> 't optref result" where
  "slot_getOpt cast obj =
     (case obj of Some ob \<Rightarrow> res_bind (asType cast ob) (\<lambda>t. Inr (Some t)) | None \<Rightarrow> Inr None)"

definition makeSlotUpdateCb :: "('o \<Rightarrow> 't option) \<Rightarrow> ('t optref \<Rightarrow> 's \<Rightarrow> 's result) \<Rightarrow> 'o option \<Rightarrow> 's \<Rightarrow> 's result" where
  "makeSlotUpdateCb cast cb obj s = res_bind (slot_getOpt cast obj) (\<lambda>r. cb r s)"

definition slot_runOnAllThreads ::
  "('o \<Rightarrow> 't option) \<Rightarrow> (('o option \<Rightarrow> 's \<Rightarrow> 's result) \<Rightarrow> 's \<Rightarrow> 's result) \<Rightarrow> ('t optref \<Rightarrow> 's \<Rightarrow> 's result) \<Rightarrow>
    's \<Rightarrow> 's result" where
  "slot_runOnAllThreads cast run cb s = run (makeSlotUpdateCb cast cb) s"

text \<open>The two ways to read a slot agree on a thread that has an object, and differ on one that has none.\<close>

lemma slot_reads:
  "slot_getOpt cast (Some obj) = res_bind (slot_getTyped cast (Some obj)) (\<lambda>t. Inr (makeOptRef t))"
  "slot_getOpt cast None = Inr None" "slot_getTyped cast None = Inl Assert_failed"
  by (simp_all add: slot_getOpt_def slot_getTyped_def asType_def makeOptRef_def assert_then_def split: option.splits)

section \<open>Addresses of a datagram\<close>

record local_peer_addresses =
  lp_local :: address
  lp_peer :: address

definition local_peer_eq :: "local_peer_addresses \<Rightarrow> local_peer_addresses \<Rightarrow> bool" where
  "local_peer_eq a b \<longleftrightarrow> asString (lp_local a) = asString (lp_local b) \<and> asString (lp_peer a) = asString (lp_peer b)"

text \<open>\<open>combine\<close> is \<open>H::combine\<close> on the hash state and a string.\<close>

definition local_peer_hash :: "('h \<Rightarrow> string \<Rightarrow> 'h) \<Rightarrow> 'h \<Rightarrow> local_peer_addresses \<Rightarrow> 'h" where
  "local_peer_hash combine h a = combine (combine h (asString (lp_local a))) (asString (lp_peer a))"

lemma local_peer_equivp: "equivp local_peer_eq"
  by (rule equivpI) (auto simp: reflp_def symp_def transp_def local_peer_eq_def)

lemma local_peer_hash_eq: "local_peer_eq a b \<Longrightarrow> local_peer_hash combine h a = local_peer_hash combine h b"
  by (simp add: local_peer_eq_def local_peer_hash_def)

text \<open>\<open>AddressStrFormatter\<close>.\<close>

definition AddressStrFormatter :: "string \<Rightarrow> address \<Rightarrow> string" where
  "AddressStrFormatter out inst = out @ asString inst"

section \<open>States of a listener, options of a socket\<close>

definition ListenerState_ACTIVE :: byte where "ListenerState_ACTIVE = push_bit 0 1"
definition ListenerState_WARMING :: byte where "ListenerState_WARMING = push_bit 1 1"
definition ListenerState_DRAINING :: byte where "ListenerState_DRAINING = push_bit 2 1"

definition ListenerState_or :: "byte \<Rightarrow> byte \<Rightarrow> byte" where
  "ListenerState_or lhs rhs = or lhs rhs"

definition ListenerState_ALL :: byte where
  "ListenerState_ALL =
     ListenerState_or (ListenerState_or ListenerState_ACTIVE ListenerState_WARMING) ListenerState_DRAINING"

lemma listener_states_disjoint:
  "ListenerState_ALL = 7" "and ListenerState_ACTIVE ListenerState_WARMING = 0"
  "and (ListenerState_or ListenerState_ACTIVE ListenerState_WARMING) ListenerState_DRAINING = 0"
  by code_simp+

record socket_creation_options =
  mptcp_enabled :: bool

definition SocketCreationOptions_eq :: "socket_creation_options \<Rightarrow> socket_creation_options \<Rightarrow> bool" where
  "SocketCreationOptions_eq lhs rhs \<longleftrightarrow> mptcp_enabled lhs = mptcp_enabled rhs"

text \<open>\<open>ActiveListenerDetails::invokeListenerMethod\<close>: the listeners of the details in order.\<close>

fun invokeListenerMethod :: "(typed_listener \<Rightarrow> 's \<Rightarrow> 's) \<Rightarrow> per_address list \<Rightarrow> 's \<Rightarrow> 's" where
  "invokeListenerMethod fn [] s = s"
| "invokeListenerMethod fn (details # rest) s = invokeListenerMethod fn rest (fn (pa_listener details) s)"

section \<open>Settings of UDP sockets\<close>

text \<open>The message \<open>UdpSocketConfig\<close>, whose fields may be absent; \<open>PROTOBUF_GET_WRAPPED_OR_DEFAULT\<close> reads one or a default.\<close>

record udp_socket_config =
  cfg_max_rx_datagram_size :: "u64 option"
  cfg_prefer_gro :: "bool option"

definition wrapped_or_default :: "'a option \<Rightarrow> 'a \<Rightarrow> 'a" where
  "wrapped_or_default field dflt = (case field of None \<Rightarrow> dflt | Some v \<Rightarrow> v)"

definition DEFAULT_UDP_MAX_DATAGRAM_SIZE :: u64 where
  "DEFAULT_UDP_MAX_DATAGRAM_SIZE = 1500"

record resolved_udp_socket_config =
  max_rx_datagram_size :: u64
  prefer_gro :: bool

text \<open>The settings and whether the warning is logged. The system is asked for its support only if it matters.\<close>

definition ResolvedUdpSocketConfig_new ::
  "'s kernel \<Rightarrow> udp_socket_config \<Rightarrow> bool \<Rightarrow> os_statics \<Rightarrow> 's \<Rightarrow>
    (resolved_udp_socket_config \<times> bool) \<times> os_statics \<times> 's" where
  "ResolvedUdpSocketConfig_new k config prefer_gro_default st s =
     (let r = \<lparr>max_rx_datagram_size = wrapped_or_default (cfg_max_rx_datagram_size config) DEFAULT_UDP_MAX_DATAGRAM_SIZE,
               prefer_gro = wrapped_or_default (cfg_prefer_gro config) prefer_gro_default\<rparr>
      in if prefer_gro r then let (supported, st1, s1) = supportsUdpGro k st s in ((r, \<not> supported), st1, s1)
         else ((r, False), st, s))"

text \<open>The settings do not depend on the system, which is asked at most once however many sockets are configured.\<close>

lemma resolved_udp_config:
  assumes "ResolvedUdpSocketConfig_new k config d st s = ((r, warned), st1, s1)"
  shows "r = \<lparr>max_rx_datagram_size = wrapped_or_default (cfg_max_rx_datagram_size config) 1500,
              prefer_gro = wrapped_or_default (cfg_prefer_gro config) d\<rparr>"
    and "warned \<Longrightarrow> prefer_gro r \<and> udp_gro_is_supported st1 = Some False"
    and "ResolvedUdpSocketConfig_new k config d st1 s1 = ((r, warned), st1, s1)"
  using assms
  by (auto simp: ResolvedUdpSocketConfig_new_def DEFAULT_UDP_MAX_DATAGRAM_SIZE_def Let_def supportsUdpGro_def
      static_local_def split: prod.splits if_splits option.splits)

section \<open>The program\<close>

text \<open>\<open>Libevent::Global\<close>, with what initializing it does to the process.\<close>

record libevent_global =
  lg_initialized :: bool
  lg_threads :: bool
  lg_sigpipe_ignored :: bool

definition Global_new :: libevent_global where
  "Global_new = \<lparr>lg_initialized = False, lg_threads = False, lg_sigpipe_ignored = False\<rparr>"

definition Global_initialize :: "libevent_global \<Rightarrow> libevent_global" where
  "Global_initialize g = g\<lparr>lg_threads := True, lg_sigpipe_ignored := True, lg_initialized := True\<rparr>"

lemma Global_initialized: "g = (Global_initialize ^^ n) Global_new \<Longrightarrow> lg_initialized g = lg_threads g"
  by (induction n arbitrary: g) (simp_all add: Global_new_def Global_initialize_def)

text \<open>\<open>main\<close> up to the loop of the dispatcher, on the real time system. It does not initialize \<open>Libevent::Global\<close>.\<close>

definition envoy_main ::
  "bool \<Rightarrow> 'f factory_ops \<Rightarrow> u64 \<Rightarrow> 'l libevent \<Rightarrow> ev \<Rightarrow> int \<Rightarrow> 'l \<Rightarrow> ('f manager \<times> 'l server) result" where
  "envoy_main update_flag ops tag lib e now l =
     (let sv = Server_new now l in
      res_bind (server_initialize update_flag ops tag) (\<lambda>m.
        res_bind (server_run lib (RealTimeSystem_createScheduler (libevent_createTimer lib)) e sv) (\<lambda>sv1.
          Inr (m, sv1))))"

text \<open>The program never gets to its loop: starting the workers is undefined.\<close>

lemma main_undefined: "envoy_main update_flag ops tag lib e now l = Inl Undefined_behaviour"
  by (simp add: envoy_main_def initialize_undefined)

end
