(* ===== verification/Spec2Isabelle.thy ===== *)
theory Spec2Isabelle
  imports BufferSpec CommonSpec NetSpec EventSpec ServerSpec SupportSpec Factories DateTime SysCalls Guards
    Startup CommonParts NetSockets AddressTypes ServerRun
    RingMove Fragments Threads ListenSockets
    Shutdown EventObjects Chances Interfaces
begin

text \<open>
  A verification library for the TCP server on libevent in \<open>source/\<close> (a port of parts of Envoy to C++17).

  The program. A \<open>Server\<close> owns a \<open>ListenerManagerImpl\<close> and a \<open>Dispatcher\<close>; the manager keeps listeners and
  workers, each \<open>WorkerImpl\<close> a thread with a dispatcher of its own and a \<open>ConnectionHandlerImpl\<close> that finds the
  listener of an address. A dispatcher wraps one libevent base: other threads reach it only by \<open>post\<close> and by
  handing over objects to delete. Connections read and write through \<open>Buffer::OwnedImpl\<close>, addresses and
  datagrams go through \<open>Network::Utility\<close>, and everything uses the helpers of \<open>common/common\<close>. Much of the
  port is commented out; what is modelled is the code that compiles, with the gaps this leaves
  (\<open>ASSERT\<close> aborts, as \<open>build/build.sh\<close> sets no build type).

  How code is modelled. An object is a record of its fields; a method is a function from the record, and from the
  other objects it touches, to its result and the new records. A call that may abort, throw, run off a function without a
  return or use an object it must not has a result in \<open>error + 'a\<close> (theory Prelude). Machine integers are words
  where they can wrap and naturals with the bound as a hypothesis where the code keeps them apart from the
  bound. What a component calls on its environment (drain trackers, releasors, memory accounts) is a trace in the
  record, in the order of the calls.

  The buffer (\<open>common/buffer/BufferImpl.h\<close> and \<open>.cpp\<close>, \<open>include/buffer/Buffer.h\<close>):
  \<^item> Slice: \<open>Slice\<close>, its three parts drained, data and reservable, its trackers and account.
  \<^item> SliceDeque: the ring of slices, growing; the locale \<open>sequence\<close> is the list it stands for, with an invariant,
    interpreted on the ring (\<open>dq\<close>).
  \<^item> OwnedBuffer: the fields of \<open>OwnedImpl\<close>, the steps every method is made of, the invariant \<open>own_inv\<close> and the
    books (bytes charged and trackers waiting).
  \<^item> BufferAdd, BufferRead, BufferMove, BufferSearch, BufferReserve, BufferInts: the methods, by what they do.
  \<^item> BufferStream: the locales \<open>byte_stream\<close> and \<open>byte_streams\<close>, a byte string that is added to at both ends,
    drained and moved, interpreted on \<open>OwnedImpl\<close>; any sequence of calls is then a sequence on strings.
  \<^item> RingMove: the memory behind the ring (inline slots, external array and the pointer to one of them), growing,
    moving and destroying it. Fragments: \<open>BufferFragmentImpl\<close> and \<open>OwnedBufferFragmentImpl\<close>, and what a drain tracker
    of theirs does.
  \<^item> BufferSpec: the properties. Every operation is the one on byte strings, keeps the invariant, and settles
    trackers and accounts exactly once.

  Common utilities (\<open>common/common\<close>): IntervalSet (\<open>IntervalSetImpl\<close>), StringUtil and Tokens (\<open>StringUtil\<close>), CommonUtil
  (primes, weighted choice, trie, hashes), with their properties in CommonSpec: sets of intervals are sets of numbers
  (locale \<open>range_set\<close>, interpreted on \<open>iv_insert\<close>), the trie is a map (locale \<open>lookup_table\<close>), printing and reading round-trip. Support holds random numbers, UUIDs and the counters of
  \<open>ENVOY_BUG\<close>; AtomicPtr the double-checked \<open>AtomicPtrArray::get\<close> as a step relation among threads and the
  registry of main threads; Lifecycle \<open>Cleanup.h\<close> and the server's lifecycle callbacks; SocketOptions
  \<open>SocketOptionImpl\<close>. Their properties are in SupportSpec. DateTime holds the formatters of dates with their
  thread-local caches, shown to be transparent as long as the \<open>int32_t\<close> offsets do not overflow; Guards the lock guards over
  \<open>MutexBasicLockable\<close> and \<open>absl::Mutex\<close>, a parameter (locale \<open>basic_lockable\<close>, which every such mutex satisfies), with threads
  that nest and interleave guarded scopes, the singletons and \<open>OptRef\<close>; CommonParts closed
  intervals (an instance of \<open>linorder\<close>), streams over memory, inline strings, sets, tracked objects and the watchers
  that time the event loop; Threads identifiers, names and joins of threads and the assertion macros. Chances holds what
  computes with fractions: \<open>bernoulli\<close>, whose chance is shown to be the one asked for up to \<open>2 ^ (-64)\<close>, the minimum of
  scaled timers and the standard deviation, shown to be the one of the sample but for rounding.

  The network (\<open>common/network\<close>): Address (\<open>AddressImpl\<close>), NetAddress and NetPorts (addresses, URLs and port ranges of
  \<open>Network::Utility\<close>), NetUdp (its reading and writing of datagrams). NetSpec shows that what was received is
  delivered, cut into GRO segments, that reading ends and reports the drops of exactly the reads that succeeded
  (\<open>handle_read\<close> and \<open>read_state\<close> follow the socket alone), and that no IP address can be parsed as the code stands. AddressTypes shows that every address a constructor builds is of the type it says;
  NetSockets holds the names of the socket options, the types of sockets and the local address of
  \<open>BaseListenerImpl\<close>; SysCalls \<open>OsSysCallsImpl\<close> over a kernel that is a parameter, with its probes and \<open>accept\<close>.

  Events (\<open>common/event\<close>): Scheduling (\<open>SchedulableCallbackImpl\<close>, \<open>TimerImpl\<close>, \<open>LibeventScheduler\<close>,
  \<open>FileEventImpl\<close>), Dispatcher (\<open>DispatcherImpl\<close>; the locale \<open>mailbox\<close>, a list filled under a lock and emptied at
  once, is interpreted on the posted callbacks and on the objects to delete), DispatcherLoop (the dispatcher among
  threads: \<open>request\<close> is what any thread may ask for, \<open>progress\<close> what the loop's thread does up to and inside the loop, one
  critical section or callback per step), Factories (what a dispatcher makes, and the server's timer that arms itself again). EventSpec: in every reachable state nothing posted is lost, doubled or reordered and
  somebody will wake the loop. EventObjects follows every
  object over a libevent event from its constructor to its destructor: no event outlives its object. Shutdown adds to
  the dispatcher among threads the thread of a worker, which leaves \<open>run(Block)\<close> on request and on an empty base, and who
  stops it: every stop returns, after the thread has ended; a worker whose base has no event of its own ends without
  being stopped; and without new requests every schedule ends with all that was asked for done, when another event keeps
  the loop going or no thread is in the middle of a call.

  The server (\<open>server\<close>): ConnHandler (\<open>ConnectionHandlerImpl\<close>), Listener (\<open>ListenerImpl\<close>), ListenerManager
  (\<open>WorkerImpl\<close>, \<open>ListenerManagerImpl\<close>, \<open>Server::initialize\<close>). ServerSpec: which listener an address finds, unique
  names, the callback of \<open>startWorkers\<close>, and that no manager with a listener can start, since listeners are made
  without addresses. Startup composes \<open>startWorkers\<close> with the dispatchers of the main thread and of the workers, one
  \<open>system\<close> of DispatcherLoop each, whose loops may be left when empty: every schedule comes to the state the sequential
  model gives, and ends, with every listener taken up to the first that a handler cannot take. ServerRun is
  \<open>Server::run\<close> up to the loop, ListenSockets what there is of \<open>ListenSocketFactoryImpl\<close>. Interfaces holds the code that
  stands in the interfaces under \<open>include/\<close> (typed thread-local slots, the addresses of a datagram, the states of a
  listener), the settings of UDP sockets and \<open>main\<close>, which is undefined where it starts the workers.

  Loops, fuel and bounds. Loops are \<open>function\<close>s with a measure or structural. The loops that may not end are
  \<open>partial_function (option)\<close>: adding and prepending (a size above \<open>2^64 - 4096\<close> makes slices of no
  capacity), looking for a prime, and retrying an interrupted write; that they return is proved with the
  hypothesis it needs (\<open>max_request\<close>, enough numbers, a call that is not interrupted). \<open>gro_loop\<close> has as fuel the
  number of bytes and one more, enough as every round drains at least one byte when the segment size is positive. The reading
  loop stops by the code's own counter. The termination of the dispatcher uses the measure \<open>work\<close>, that of a worker \<open>stop_work\<close>, that of the start-up \<open>cluster_work\<close>.

  Parameters. Code that is not in the tree is an argument, with what is documented of it as a hypothesis:
  \<open>absl\<close> (\<open>absl_contract\<close>, \<open>absl_net_contract\<close>), the operating system's address functions (\<open>os_net\<close>), sockets
  (\<open>io_handle_contract\<close>), libevent (\<open>libevent_contract\<close>), \<open>absl::Mutex\<close> (\<open>absl_mutex_contract\<close>), the factories of the server, \<open>RAND_bytes\<close>, the
  objects made by \<open>make_object\<close>, thread-local slots and the arithmetic of \<open>double\<close>. Every property with such a
  hypothesis has a witness with concrete functions. Among threads libevent is used as if it locked its base, which it
  does after \<open>Libevent::Global::initialize\<close>; nothing in the tree calls that, so what is shown of threads holds of the
  program only with that call added.

  Not modelled. Calls that only hand their arguments on and keep no state (\<open>ApiImpl\<close>, the waits of \<open>CondVar\<close>,
  clocks); pure interfaces, type names and the macros of \<open>Platform.h\<close>; \<open>ScopeTrackerScopeState\<close>, whose bodies are
  commented out; the rounding of floating point; \<open>errorDetails\<close>, a text of the C library; listener and connection
  objects that the tree declares and never defines (active listeners, the constructors of socket factories, the scaled
  timer manager); \<open>example/origin_tcp\<close>, a sample of libevent. The weak memory of the processor is not modelled: atomic
  accesses and critical sections are steps in one order.
\<close>

end
